(* ===== verification/Prelude.thy ===== *)
theory Prelude
  imports Main "HOL-Library.Word" "HOL-Library.Multiset"
begin

text \<open>
  Shared vocabulary of the development: the machine integers and byte strings of the Rust
  sources, results that may also panic, slices and array copies, big-endian integers, Rust
  strings as UTF-8 text, exact reads from a byte stream, and the generic codec interfaces the
  components are stated against.
\<close>

section \<open>Machine types\<close>

type_synonym byte = "8 word"
type_synonym u16 = "16 word"
type_synonym u32 = "32 word"
type_synonym u64 = "64 word"
type_synonym bytes = "byte list"

named_theorems outcome_simps
  \<comment> \<open>inversion of the result combinators\<close>
named_theorems wire_simps
  \<comment> \<open>lengths and slices of wire formats\<close>

section \<open>Results that may panic\<close>

text \<open>
  A Rust function of type \<open>Result<T, E>\<close> returns \<open>Ok\<close> or \<open>Err\<close>, and it may panic
  (an index out of range, a failed \<open>expect\<close>, a length mismatch in \<open>copy_from_slice\<close>, an
  arithmetic overflow in a build with overflow checks).
\<close>

datatype ('a, 'e) outcome = Ok 'a | Err 'e | Panic

text \<open>The \<open>?\<close> operator and the conversions the sources use.\<close>

fun and_then :: "('a, 'e) outcome \<Rightarrow> ('a \<Rightarrow> ('b, 'e) outcome) \<Rightarrow> ('b, 'e) outcome" where
  "and_then (Ok x) f = f x"
| "and_then (Err e) f = Err e"
| "and_then Panic f = Panic"

fun map_err :: "('e \<Rightarrow> 'f) \<Rightarrow> ('a, 'e) outcome \<Rightarrow> ('a, 'f) outcome" where
  "map_err g (Ok x) = Ok x"
| "map_err g (Err e) = Err (g e)"
| "map_err g Panic = Panic"

fun ok_or :: "'e \<Rightarrow> 'a option \<Rightarrow> ('a, 'e) outcome" where
  "ok_or e (Some x) = Ok x"
| "ok_or e None = Err e"

fun expect :: "'a option \<Rightarrow> ('a, 'e) outcome" where
  "expect (Some x) = Ok x"
| "expect None = Panic"

definition is_ok :: "('a, 'e) outcome \<Rightarrow> bool" where
  "is_ok r = (case r of Ok _ \<Rightarrow> True | _ \<Rightarrow> False)"

lemma and_then_Ok_iff [outcome_simps]:
  "and_then m f = Ok y \<longleftrightarrow> (\<exists>x. m = Ok x \<and> f x = Ok y)"
  by (cases m) auto

lemma and_then_assoc: "and_then (and_then m f) g = and_then m (\<lambda>x. and_then (f x) g)"
  by (cases m) auto

lemma and_then_Err_iff [outcome_simps]:
  "and_then m f = Err e \<longleftrightarrow> m = Err e \<or> (\<exists>x. m = Ok x \<and> f x = Err e)"
  by (cases m) auto

lemma and_then_Panic_iff [outcome_simps]:
  "and_then m f = Panic \<longleftrightarrow> m = Panic \<or> (\<exists>x. m = Ok x \<and> f x = Panic)"
  by (cases m) auto

lemma map_err_Ok_iff [outcome_simps]: "map_err g m = Ok x \<longleftrightarrow> m = Ok x"
  by (cases m) auto

lemma map_err_Panic_iff [outcome_simps]: "map_err g m = Panic \<longleftrightarrow> m = Panic"
  by (cases m) auto

lemma map_err_Err_iff [outcome_simps]: "map_err g m = Err f \<longleftrightarrow> (\<exists>e. m = Err e \<and> f = g e)"
  by (cases m) auto

lemma ok_or_Ok_iff [outcome_simps]: "ok_or e m = Ok x \<longleftrightarrow> m = Some x"
  by (cases m) auto

lemma ok_or_Err_iff [outcome_simps]: "ok_or e m = Err f \<longleftrightarrow> m = None \<and> f = e"
  by (cases m) auto

lemma ok_or_not_Panic [simp]: "ok_or e m \<noteq> Panic"
  by (cases m) auto

lemma expect_Ok_iff [outcome_simps]: "expect m = Ok x \<longleftrightarrow> m = Some x"
  by (cases m) auto

lemma expect_Panic_iff [outcome_simps]: "expect m = Panic \<longleftrightarrow> m = None"
  by (cases m) auto

lemma expect_not_Err [simp]: "expect m \<noteq> Err e"
  by (cases m) auto

lemma is_ok_simps [simp]: "is_ok (Ok x)" "\<not> is_ok (Err e)" "\<not> is_ok Panic"
  by (simp_all add: is_ok_def)

lemma is_ok_iff: "is_ok m \<longleftrightarrow> (\<exists>x. m = Ok x)"
  by (cases m) auto

text \<open>The same for operations that also change a state: an error or a panic ends the sequence with
  the state reached.\<close>

definition then_st :: "('s \<Rightarrow> ('a, 'e) outcome \<times> 's) \<Rightarrow> ('a \<Rightarrow> 's \<Rightarrow> ('b, 'e) outcome \<times> 's)
    \<Rightarrow> 's \<Rightarrow> ('b, 'e) outcome \<times> 's" where
  "then_st m f s =
     (case m s of
        (Ok x, s') \<Rightarrow> f x s'
      | (Err e, s') \<Rightarrow> (Err e, s')
      | (Panic, s') \<Rightarrow> (Panic, s'))"

definition return_st :: "'a \<Rightarrow> 's \<Rightarrow> ('a, 'e) outcome \<times> 's" where
  "return_st x s = (Ok x, s)"

lemma then_st_simps [simp]:
  "m s = (Ok x, s') \<Longrightarrow> then_st m f s = f x s'"
  "m s = (Err e, s') \<Longrightarrow> then_st m f s = (Err e, s')"
  "m s = (Panic, s') \<Longrightarrow> then_st m f s = (Panic, s')"
  by (simp_all add: then_st_def)

lemma then_st_Ok_iff [outcome_simps]:
  "then_st m f s = (Ok y, t) \<longleftrightarrow> (\<exists>x s'. m s = (Ok x, s') \<and> f x s' = (Ok y, t))"
  by (auto simp: then_st_def split: prod.splits outcome.splits)

lemma then_st_not_Panic:
  "fst (m s) \<noteq> Panic \<Longrightarrow> (\<And>x s'. m s = (Ok x, s') \<Longrightarrow> fst (f x s') \<noteq> Panic) \<Longrightarrow> fst (then_st m f s) \<noteq> Panic"
  by (auto simp: then_st_def split: prod.splits outcome.splits)

lemma return_st_apply [simp]: "return_st x s = (Ok x, s)"
  by (simp add: return_st_def)

section \<open>Slices and array copies\<close>

text \<open>
  \<open>sub_slice i j bs\<close> is \<open>&bs[i..j]\<close> for \<open>i \<le> j \<le> bs.len()\<close>; \<open>copy_at i src buf\<close> is
  \<open>buf[i..i + src.len()].copy_from_slice(src)\<close> for a destination that fits.
\<close>

definition sub_slice :: "nat \<Rightarrow> nat \<Rightarrow> 'a list \<Rightarrow> 'a list" where
  "sub_slice i j bs = take (j - i) (drop i bs)"

definition copy_at :: "nat \<Rightarrow> 'a list \<Rightarrow> 'a list \<Rightarrow> 'a list" where
  "copy_at i src buf = take i buf @ src @ drop (i + length src) buf"

lemma length_sub_slice [wire_simps]: "j \<le> length bs \<Longrightarrow> length (sub_slice i j bs) = j - i"
  by (simp add: sub_slice_def)

lemma sub_slice_append:
  "length as = i \<Longrightarrow> length ms = j - i \<Longrightarrow> sub_slice i j (as @ ms @ zs) = ms"
  by (simp add: sub_slice_def)

lemma sub_slice_append_left:
  "j \<le> length as \<Longrightarrow> sub_slice i j (as @ zs) = sub_slice i j as"
  by (simp add: sub_slice_def)

lemma sub_slice_drop: "i \<le> j \<Longrightarrow> sub_slice i j bs @ drop j bs = drop i bs"
  by (metis append_take_drop_id drop_drop le_add_diff_inverse2 sub_slice_def)

lemma sub_slice_two: "Suc i < length bs \<Longrightarrow> sub_slice i (i + 2) bs = [bs ! i, bs ! Suc i]"
  by (simp add: sub_slice_def Cons_nth_drop_Suc [symmetric] numeral_2_eq_2)

lemma nth_as_sub_slice: "i < length bs \<Longrightarrow> bs ! i # drop (Suc i) bs = drop i bs"
  by (rule Cons_nth_drop_Suc)

lemma length_copy_at [wire_simps]:
  "i + length src \<le> length buf \<Longrightarrow> length (copy_at i src buf) = length buf"
  by (simp add: copy_at_def)

lemma copy_at_zeros:
  "length pre = i \<Longrightarrow> length src \<le> n \<Longrightarrow>
     copy_at i src (pre @ replicate n z) = (pre @ src) @ replicate (n - length src) z"
  by (simp add: copy_at_def)

lemma copy_at_zeros_start:
  "length src \<le> n \<Longrightarrow> copy_at 0 src (replicate n z) = src @ replicate (n - length src) z"
  using copy_at_zeros [of "[]" 0 src n z] by simp

section \<open>Big-endian integers\<close>

text \<open>
  \<open>be_bytes n v\<close> are the low \<open>n\<close> bytes of \<open>v\<close>, most significant first; the methods
  \<open>to_be_bytes\<close> and \<open>from_be_bytes\<close> of \<open>u16\<close> and \<open>u32\<close> are its instances.
\<close>

fun be_bytes :: "nat \<Rightarrow> nat \<Rightarrow> bytes" where
  "be_bytes 0 v = []"
| "be_bytes (Suc n) v = be_bytes n (v div 256) @ [of_nat v]"

definition be_val :: "bytes \<Rightarrow> nat" where
  "be_val bs = foldl (\<lambda>a b. 256 * a + unat b) 0 bs"

lemma be_val_Nil [simp]: "be_val [] = 0"
  by (simp add: be_val_def)

lemma be_val_snoc [simp]: "be_val (bs @ [b]) = 256 * be_val bs + unat b"
  by (simp add: be_val_def)

lemma length_be_bytes [simp]: "length (be_bytes n v) = n"
  by (induction n arbitrary: v) auto

lemma unat_byte_less: "unat (b :: byte) < 256"
  using unsigned_less [of b] by simp

lemma unat_of_nat_byte [simp]: "unat (of_nat v :: byte) = v mod 256"
  by (simp add: unat_of_nat)

lemma be_val_be_bytes: "be_val (be_bytes n v) = v mod 256 ^ n"
proof (induction n arbitrary: v)
  case (Suc n)
  have "be_val (be_bytes (Suc n) v) = 256 * (v div 256 mod 256 ^ n) + v mod 256"
    by (simp add: Suc.IH)
  also have "\<dots> = v mod (256 * 256 ^ n)"
    by (simp add: mod_mult2_eq)
  finally show ?case by simp
qed simp

lemma be_val_bound: "be_val bs < 256 ^ length bs"
proof (induction bs rule: rev_induct)
  case (snoc b bs)
  then show ?case using unat_byte_less [of b] by simp
qed simp

lemma be_bytes_be_val: "length bs = n \<Longrightarrow> be_bytes n (be_val bs) = bs"
proof (induction n arbitrary: bs)
  case (Suc n)
  then obtain cs b where bs: "bs = cs @ [b]" and len: "length cs = n"
    by (cases bs rule: rev_cases) auto
  have "(256 * be_val cs + unat b) div 256 = be_val cs"
    using unat_byte_less [of b] by simp
  moreover have "(of_nat (256 * be_val cs + unat b) :: byte) = b"
  proof -
    have "unat (of_nat (256 * be_val cs + unat b) :: byte) = unat b"
      using unat_byte_less [of b] by (simp only: unat_of_nat_byte) simp
    then show ?thesis by (simp only: unsigned_word_eqI)
  qed
  ultimately show ?case
    by (simp only: bs be_val_snoc be_bytes.simps Suc.IH [OF len])
qed simp

definition u16_to_be_bytes :: "u16 \<Rightarrow> bytes" where
  "u16_to_be_bytes w = be_bytes 2 (unat w)"

definition u16_from_be_bytes :: "bytes \<Rightarrow> u16" where
  "u16_from_be_bytes bs = of_nat (be_val bs)"

definition u32_to_be_bytes :: "u32 \<Rightarrow> bytes" where
  "u32_to_be_bytes w = be_bytes 4 (unat w)"

definition u32_from_be_bytes :: "bytes \<Rightarrow> u32" where
  "u32_from_be_bytes bs = of_nat (be_val bs)"

lemma length_u16_to_be_bytes [simp, wire_simps]: "length (u16_to_be_bytes w) = 2"
  by (simp add: u16_to_be_bytes_def)

lemma length_u32_to_be_bytes [simp, wire_simps]: "length (u32_to_be_bytes w) = 4"
  by (simp add: u32_to_be_bytes_def)

lemma unat_u16_less: "unat (w :: u16) < 65536"
  using unsigned_less [of w] by simp

lemma unat_u32_less: "unat (w :: u32) < 4294967296"
  using unsigned_less [of w] by simp

lemma u16_from_to_be_bytes [simp]: "u16_from_be_bytes (u16_to_be_bytes w) = w"
  using unat_u16_less [of w]
  by (simp add: u16_from_be_bytes_def u16_to_be_bytes_def be_val_be_bytes power2_eq_square)

lemma u32_from_to_be_bytes [simp]: "u32_from_be_bytes (u32_to_be_bytes w) = w"
  using unat_u32_less [of w]
  by (simp add: u32_from_be_bytes_def u32_to_be_bytes_def be_val_be_bytes)

lemma u16_to_from_be_bytes: "length bs = 2 \<Longrightarrow> u16_to_be_bytes (u16_from_be_bytes bs) = bs"
  using be_val_bound [of bs]
  by (simp add: u16_from_be_bytes_def u16_to_be_bytes_def unat_of_nat be_bytes_be_val
      power2_eq_square)

lemma u32_to_from_be_bytes: "length bs = 4 \<Longrightarrow> u32_to_be_bytes (u32_from_be_bytes bs) = bs"
  using be_val_bound [of bs]
  by (simp add: u32_from_be_bytes_def u32_to_be_bytes_def unat_of_nat be_bytes_be_val)

lemma unat_of_nat_u16: "n < 65536 \<Longrightarrow> unat (of_nat n :: u16) = n"
  by (simp add: unat_of_nat)

lemma unat_of_nat_u32: "n < 4294967296 \<Longrightarrow> unat (of_nat n :: u32) = n"
  by (simp add: unat_of_nat)

lemma unat_u16_from_be_bytes: "unat (u16_from_be_bytes [a, b]) = 256 * unat a + unat b"
proof -
  have "be_val [a, b] < 65536" "be_val [a, b] = 256 * unat a + unat b"
    using be_val_bound [of "[a, b]"] by (simp_all add: be_val_def)
  then show ?thesis by (simp only: u16_from_be_bytes_def unat_of_nat_u16)
qed

section \<open>Reordering by index\<close>

text \<open>\<open>permute is xs\<close> lists the elements of \<open>xs\<close> at the positions \<open>is\<close>: a shuffle, or the order
  in which an unordered collection is iterated.\<close>

definition permute :: "nat list \<Rightarrow> 'a list \<Rightarrow> 'a list" where
  "permute idxs xs = map (nth xs) idxs"

definition index_order :: "nat \<Rightarrow> nat list \<Rightarrow> bool" where
  "index_order n idxs \<longleftrightarrow> mset idxs = mset [0..<n]"

lemma mset_permute: "index_order (length xs) idxs \<Longrightarrow> mset (permute idxs xs) = mset xs"
  unfolding permute_def index_order_def
  by (metis map_nth mset_map)

lemma permute_Nil: "index_order 0 idxs \<Longrightarrow> permute idxs xs = []"
  by (simp add: permute_def index_order_def)

end
