(* ===== verification/Codec.thy ===== *)
theory Codec
  imports Prelude
begin

text \<open>
  The contracts of the wire formats. A \<open>codec\<close> writes a value as a whole buffer and reads it
  back; a \<open>strict_codec\<close> also accepts nothing but what it writes; a \<open>stream_codec\<close> reads its
  value off the front of a byte stream and leaves the rest. Each format of the program is an
  interpretation of one of them, in the theory of the component that defines it.
\<close>

section \<open>Exact reads from a stream\<close>

text \<open>
  The bytes a peer sends before it closes its side, as \<open>AsyncReadExt::read_exact\<close> sees them:
  the read fails with \<open>UnexpectedEof\<close> when fewer bytes are left.
\<close>

datatype io_error =
    UnexpectedEof
  | InvalidData
  | ConnectionFailed
  | WriteFailed
  | BindFailed

definition read_exact :: "nat \<Rightarrow> bytes \<Rightarrow> (bytes \<times> bytes, io_error) outcome" where
  "read_exact n s = (if length s < n then Err UnexpectedEof else Ok (take n s, drop n s))"

lemma read_exact_append [simp]: "length bs = n \<Longrightarrow> read_exact n (bs @ rest) = Ok (bs, rest)"
  by (simp add: read_exact_def)

lemma read_exact_Ok_iff [outcome_simps]:
  "read_exact n s = Ok (bs, rest) \<longleftrightarrow> s = bs @ rest \<and> length bs = n"
  by (auto simp: read_exact_def split: if_splits)

lemma read_exact_Err_iff [outcome_simps]:
  "read_exact n s = Err e \<longleftrightarrow> length s < n \<and> e = UnexpectedEof"
  by (auto simp: read_exact_def)

lemma read_exact_not_Panic [simp]: "read_exact n s \<noteq> Panic"
  by (simp add: read_exact_def)

section \<open>Whole-buffer formats\<close>

locale codec =
  fixes enc :: "'a \<Rightarrow> bytes"
    and dec :: "bytes \<Rightarrow> ('a, 'e) outcome"
    and valid :: "'a \<Rightarrow> bool"
  assumes dec_enc: "valid x \<Longrightarrow> dec (enc x) = Ok x"
begin

lemma enc_inject: "valid x \<Longrightarrow> valid y \<Longrightarrow> enc x = enc y \<longleftrightarrow> x = y"
  by (metis dec_enc outcome.inject(1))

lemma dec_map_enc: "list_all valid xs \<Longrightarrow> map (dec \<circ> enc) xs = map Ok xs"
  by (induction xs) (auto simp: dec_enc)

end

locale strict_codec = codec enc dec valid
  for enc :: "'a \<Rightarrow> bytes" and dec :: "bytes \<Rightarrow> ('a, 'e) outcome" and valid :: "'a \<Rightarrow> bool" +
  fixes shape :: "bytes \<Rightarrow> bool"
  assumes shape_enc: "valid x \<Longrightarrow> shape (enc x)"
    and enc_dec: "shape bs \<Longrightarrow> dec bs = Ok x \<Longrightarrow> valid x \<and> enc x = bs"
begin

text \<open>Decoding is exactly the inverse of encoding on the buffers of the format's shape.\<close>

lemma dec_Ok_iff: "shape bs \<Longrightarrow> dec bs = Ok x \<longleftrightarrow> valid x \<and> bs = enc x"
  using dec_enc enc_dec by blast

lemma dec_inject: "shape bs \<Longrightarrow> shape cs \<Longrightarrow> dec bs = Ok x \<Longrightarrow> dec cs = Ok x \<Longrightarrow> bs = cs"
  using enc_dec by blast

lemma accepted_iff: "shape bs \<Longrightarrow> (\<exists>x. dec bs = Ok x) \<longleftrightarrow> bs \<in> enc ` {x. valid x}"
  using dec_Ok_iff by blast

end

section \<open>Formats read off the front of a stream\<close>

text \<open>Reading a given number of values one after the other, and its write side.\<close>

fun read_many :: "(bytes \<Rightarrow> ('a \<times> bytes, 'e) outcome) \<Rightarrow> nat \<Rightarrow> bytes
    \<Rightarrow> ('a list \<times> bytes, 'e) outcome" where
  "read_many get 0 s = Ok ([], s)"
| "read_many get (Suc n) s =
     and_then (get s) (\<lambda>(x, s').
       and_then (read_many get n s') (\<lambda>(xs, s''). Ok (x # xs, s'')))"

lemma read_many_length: "read_many get n s = Ok (xs, r) \<Longrightarrow> length xs = n"
  by (induction n arbitrary: s xs r) (auto simp: outcome_simps)

locale stream_codec =
  fixes put :: "'a \<Rightarrow> bytes"
    and get :: "bytes \<Rightarrow> ('a \<times> bytes, 'e) outcome"
    and valid :: "'a \<Rightarrow> bool"
  assumes get_put: "valid x \<Longrightarrow> get (put x @ rest) = Ok (x, rest)"
begin

lemma get_put_Nil: "valid x \<Longrightarrow> get (put x) = Ok (x, [])"
  using get_put [of x "[]"] by simp

text \<open>Values on a stream are self-delimiting: two writes can only agree value by value.\<close>

lemma put_append_inject:
  "valid x \<Longrightarrow> valid y \<Longrightarrow> put x @ r = put y @ s \<longleftrightarrow> x = y \<and> r = s"
  by (metis get_put outcome.inject(1) prod.inject)

lemma read_many_puts:
  "list_all valid xs \<Longrightarrow>
     read_many get (length xs) (concat (map put xs) @ rest) = Ok (xs, rest)"
  by (induction xs) (auto simp: get_put)

end

text \<open>A stream format is a whole-buffer format for a reader that takes the value and ignores
  what follows.\<close>

definition read_value :: "(bytes \<Rightarrow> ('a \<times> bytes, 'e) outcome) \<Rightarrow> bytes \<Rightarrow> ('a, 'e) outcome" where
  "read_value get s = and_then (get s) (\<lambda>(x, _). Ok x)"

sublocale stream_codec \<subseteq> whole: codec put "read_value get" valid
  by unfold_locales (simp add: read_value_def get_put_Nil)

end
