(* ===== verification/Rust_Text.thy ===== *)
theory Rust_Text
  imports Prelude
begin

text \<open>
  The parts of Rust's \<open>str\<close>, \<open>String\<close>, integer parsing and \<open>Ipv4Addr\<close> parsing that the
  sources use. A Rust string is a HOL \<open>string\<close> whose characters are the bytes of its UTF-8
  encoding; \<open>valid_str\<close> is the type's validity invariant.
\<close>

section \<open>UTF-8\<close>

definition byte_of_char :: "char \<Rightarrow> byte" where
  "byte_of_char c = of_nat (of_char c)"

definition char_of_byte :: "byte \<Rightarrow> char" where
  "char_of_byte b = char_of (unat b)"

definition as_bytes :: "string \<Rightarrow> bytes" where
  "as_bytes s = map byte_of_char s"

definition of_bytes :: "bytes \<Rightarrow> string" where
  "of_bytes bs = map char_of_byte bs"

lemma char_of_byte_of_char [simp]: "char_of_byte (byte_of_char c) = c"
  by (simp add: char_of_byte_def byte_of_char_def)

lemma byte_of_char_of_byte [simp]: "byte_of_char (char_of_byte b) = b"
  using unat_byte_less [of b] by (simp add: char_of_byte_def byte_of_char_def)

lemma length_as_bytes [simp, wire_simps]: "length (as_bytes s) = length s"
  by (simp add: as_bytes_def)

lemma as_bytes_eq_Nil [simp]: "as_bytes s = [] \<longleftrightarrow> s = []"
  by (simp add: as_bytes_def)

lemma length_of_bytes [simp, wire_simps]: "length (of_bytes bs) = length bs"
  by (simp add: of_bytes_def)

lemma of_bytes_as_bytes [simp]: "of_bytes (as_bytes s) = s"
  by (simp add: of_bytes_def as_bytes_def comp_def)

lemma as_bytes_of_bytes [simp]: "as_bytes (of_bytes bs) = bs"
  by (simp add: of_bytes_def as_bytes_def comp_def)

lemma as_bytes_append [simp]: "as_bytes (s @ t) = as_bytes s @ as_bytes t"
  by (simp add: as_bytes_def)

lemma as_bytes_inj: "as_bytes s = as_bytes t \<longleftrightarrow> s = t"
  by (metis of_bytes_as_bytes)

text \<open>Well-formed UTF-8 as \<open>core::str::from_utf8\<close> accepts it: no overlong forms, no surrogates,
  nothing above U+10FFFF.\<close>

definition in_range :: "nat \<Rightarrow> nat \<Rightarrow> byte \<Rightarrow> bool" where
  "in_range lo hi b \<longleftrightarrow> lo \<le> unat b \<and> unat b \<le> hi"

definition cont_byte :: "byte \<Rightarrow> bool" where
  "cont_byte b = in_range 0x80 0xBF b"

text \<open>The number of bytes of the scalar value at the head of the input; 0 when it is ill formed.\<close>

definition utf8_width :: "bytes \<Rightarrow> nat" where
  "utf8_width bs =
     (case bs of
        [] \<Rightarrow> 0
      | b # r \<Rightarrow>
          if in_range 0 0x7F b then 1
          else if in_range 0xC2 0xDF b then
            (case r of c # _ \<Rightarrow> if cont_byte c then 2 else 0 | _ \<Rightarrow> 0)
          else if in_range 0xE0 0xEF b then
            (case r of c # d # _ \<Rightarrow>
               if (if unat b = 0xE0 then in_range 0xA0 0xBF c
                   else if unat b = 0xED then in_range 0x80 0x9F c else cont_byte c)
                  \<and> cont_byte d then 3 else 0
             | _ \<Rightarrow> 0)
          else if in_range 0xF0 0xF4 b then
            (case r of c # d # e # _ \<Rightarrow>
               if (if unat b = 0xF0 then in_range 0x90 0xBF c
                   else if unat b = 0xF4 then in_range 0x80 0x8F c else cont_byte c)
                  \<and> cont_byte d \<and> cont_byte e then 4 else 0
             | _ \<Rightarrow> 0)
          else 0)"

function utf8_valid :: "bytes \<Rightarrow> bool" where
  "utf8_valid bs =
     (if bs = [] then True
      else if utf8_width bs = 0 then False
      else utf8_valid (drop (utf8_width bs) bs))"
  by pat_completeness auto
termination
  by (relation "measure length") auto

declare utf8_valid.simps [simp del]

definition from_utf8 :: "bytes \<Rightarrow> string option" where
  "from_utf8 bs = (if utf8_valid bs then Some (of_bytes bs) else None)"

definition valid_str :: "string \<Rightarrow> bool" where
  "valid_str s = utf8_valid (as_bytes s)"

lemma from_utf8_as_bytes: "valid_str s \<Longrightarrow> from_utf8 (as_bytes s) = Some s"
  by (simp add: from_utf8_def valid_str_def)

lemma from_utf8_Some_iff: "from_utf8 bs = Some s \<longleftrightarrow> valid_str s \<and> bs = as_bytes s"
  by (auto simp: from_utf8_def valid_str_def split: if_splits)

lemma from_utf8_None_iff: "from_utf8 bs = None \<longleftrightarrow> \<not> utf8_valid bs"
  by (simp add: from_utf8_def)

lemma utf8_valid_Nil [simp]: "utf8_valid []"
  by (subst utf8_valid.simps) simp

lemma utf8_width_ascii: "unat b < 128 \<Longrightarrow> utf8_width (b # bs) = 1"
  by (simp add: utf8_width_def in_range_def)

lemma utf8_valid_ascii_Cons: "unat b < 128 \<Longrightarrow> utf8_valid (b # bs) = utf8_valid bs"
  by (subst utf8_valid.simps) (simp add: utf8_width_ascii)

text \<open>Pure ASCII text is valid; that is the shape of every relay address and hexadecimal key.\<close>

definition ascii :: "string \<Rightarrow> bool" where
  "ascii s = list_all (\<lambda>c. (of_char c :: nat) < 128) s"

lemma ascii_utf8_valid: "list_all (\<lambda>b. unat b < 128) bs \<Longrightarrow> utf8_valid bs"
  by (induction bs) (auto simp: utf8_valid_ascii_Cons)

lemma ascii_valid_str: "ascii s \<Longrightarrow> valid_str s"
  unfolding valid_str_def ascii_def as_bytes_def
  by (rule ascii_utf8_valid)
    (auto simp: list_all_iff byte_of_char_def)

section \<open>Trimming\<close>

text \<open>
  \<open>str::trim\<close> removes the characters of the Unicode property White_Space at both ends; on UTF-8
  bytes they are the patterns below. \<open>ws_prefix\<close> is the width of one at the front, or 0.
\<close>

definition ws_prefix :: "bytes \<Rightarrow> nat" where
  "ws_prefix bs =
     (case map unat (take 3 bs) of
        a # r \<Rightarrow>
          if 9 \<le> a \<and> a \<le> 13 \<or> a = 32 then 1
          else (case r of
             b # r' \<Rightarrow>
               if a = 0xC2 \<and> (b = 0x85 \<or> b = 0xA0) then 2
               else (case r' of
                  c # _ \<Rightarrow>
                    if a = 0xE1 \<and> b = 0x9A \<and> c = 0x80
                       \<or> a = 0xE2 \<and> b = 0x80 \<and>
                         (0x80 \<le> c \<and> c \<le> 0x8A \<or> c = 0xA8 \<or> c = 0xA9 \<or> c = 0xAF)
                       \<or> a = 0xE2 \<and> b = 0x81 \<and> c = 0x9F
                       \<or> a = 0xE3 \<and> b = 0x80 \<and> c = 0x80 then 3 else 0
                | [] \<Rightarrow> 0)
           | [] \<Rightarrow> 0)
      | [] \<Rightarrow> 0)"

definition ends_with_ws :: "nat \<Rightarrow> bytes \<Rightarrow> bool" where
  "ends_with_ws k bs \<longleftrightarrow> k \<le> length bs \<and> ws_prefix (drop (length bs - k) bs) = k"

definition ws_suffix :: "bytes \<Rightarrow> nat" where
  "ws_suffix bs =
     (if ends_with_ws 1 bs then 1 else if ends_with_ws 2 bs then 2
      else if ends_with_ws 3 bs then 3 else 0)"

function trim_start :: "bytes \<Rightarrow> bytes" where
  "trim_start bs = (if bs = [] \<or> ws_prefix bs = 0 then bs else trim_start (drop (ws_prefix bs) bs))"
  by pat_completeness auto
termination
  by (relation "measure length") auto

function trim_end :: "bytes \<Rightarrow> bytes" where
  "trim_end bs =
     (if bs = [] \<or> ws_suffix bs = 0 then bs else trim_end (take (length bs - ws_suffix bs) bs))"
  by pat_completeness auto
termination
  by (relation "measure length") auto

declare trim_start.simps [simp del] trim_end.simps [simp del]

definition trim :: "string \<Rightarrow> string" where
  "trim s = of_bytes (trim_end (trim_start (as_bytes s)))"

text \<open>ASCII text without blanks is left alone, and ASCII blanks around it are removed.\<close>

definition plain_byte :: "byte \<Rightarrow> bool" where
  "plain_byte b \<longleftrightarrow> 33 \<le> unat b \<and> unat b < 128"

definition blank_byte :: "byte \<Rightarrow> bool" where
  "blank_byte b \<longleftrightarrow> 9 \<le> unat b \<and> unat b \<le> 13 \<or> unat b = 32"

lemma ws_prefix_plain: "plain_byte b \<Longrightarrow> ws_prefix (b # bs) = 0"
  by (auto simp: ws_prefix_def plain_byte_def numeral_3_eq_3 split: list.splits)

lemma ws_prefix_blank: "blank_byte b \<Longrightarrow> ws_prefix (b # bs) = 1"
  by (auto simp: ws_prefix_def blank_byte_def numeral_3_eq_3)

lemma ws_prefix_cont: "plain_byte b \<Longrightarrow> ws_prefix [a, b] \<noteq> 2 \<and> ws_prefix [a, c, b] \<noteq> 3"
  by (auto simp: ws_prefix_def plain_byte_def numeral_3_eq_3)

lemma ws_suffix_plain: "plain_byte b \<Longrightarrow> ws_suffix (bs @ [b]) = 0"
proof -
  assume b: "plain_byte b"
  have "\<not> ends_with_ws 1 (bs @ [b])"
    using ws_prefix_plain [OF b, of "[]"] by (simp add: ends_with_ws_def)
  moreover have "\<not> ends_with_ws 2 (bs @ [b])"
    using ws_prefix_cont [OF b] by (cases bs rule: rev_cases) (auto simp: ends_with_ws_def)
  moreover have "\<not> ends_with_ws 3 (bs @ [b])"
  proof (cases bs rule: rev_cases)
    case (snoc cs c)
    then show ?thesis
      using ws_prefix_cont [OF b] by (cases cs rule: rev_cases) (auto simp: ends_with_ws_def)
  qed (simp add: ends_with_ws_def)
  ultimately show ?thesis by (simp add: ws_suffix_def)
qed

lemma ws_suffix_blank: "blank_byte b \<Longrightarrow> ws_suffix (bs @ [b]) = 1"
  using ws_prefix_blank [of b "[]"] by (simp add: ws_suffix_def ends_with_ws_def)

lemma trim_start_blanks:
  assumes "list_all blank_byte ws" "p = [] \<or> plain_byte (hd p)"
  shows "trim_start (ws @ p) = p"
  using assms(1)
proof (induction ws)
  case Nil
  then show ?case
    using assms(2) by (cases p) (auto simp: trim_start.simps [of p] trim_start.simps [of "[]"]
        trim_start.simps [of "_ # _"] ws_prefix_plain)
next
  case (Cons w ws)
  then show ?case
    by (subst trim_start.simps) (simp add: ws_prefix_blank)
qed

lemma trim_end_blanks:
  assumes "list_all blank_byte ws" "p = [] \<or> plain_byte (last p)"
  shows "trim_end (p @ ws) = p"
  using assms(1)
proof (induction ws rule: rev_induct)
  case Nil
  then show ?case
    using assms(2) by (cases p rule: rev_cases) (simp_all add: trim_end.simps ws_suffix_plain)
next
  case (snoc w ws)
  then show ?case
    using ws_suffix_blank [of w "p @ ws"] by (subst trim_end.simps) simp
qed

lemma trim_blanks:
  assumes "list_all blank_byte (as_bytes ws)" "list_all blank_byte (as_bytes vs)"
    and "list_all plain_byte (as_bytes s)" "s \<noteq> []"
  shows "trim (ws @ s @ vs) = s"
proof -
  have "as_bytes s \<noteq> []" using assms(4) by (simp add: as_bytes_def)
  with assms(3) have ends: "plain_byte (hd (as_bytes s @ as_bytes vs))" "plain_byte (last (as_bytes s))"
    by (auto simp: list_all_iff)
  have "trim_start (as_bytes ws @ (as_bytes s @ as_bytes vs)) = as_bytes s @ as_bytes vs"
    using assms(1) ends(1) by (intro trim_start_blanks) auto
  with assms(2) ends(2) show ?thesis
    by (simp add: trim_def trim_end_blanks)
qed

section \<open>Splitting\<close>

text \<open>\<open>str::rsplit_once\<close> at a one-byte pattern: the text before and after its last occurrence.\<close>

fun rsplit_once :: "char \<Rightarrow> string \<Rightarrow> (string \<times> string) option" where
  "rsplit_once c [] = None"
| "rsplit_once c (x # xs) =
     (case rsplit_once c xs of
        Some (a, b) \<Rightarrow> Some (x # a, b)
      | None \<Rightarrow> if x = c then Some ([], xs) else None)"

lemma rsplit_once_None: "rsplit_once c s = None \<longleftrightarrow> c \<notin> set s"
  by (induction s) (auto split: option.splits)

lemma rsplit_once_last: "c \<notin> set b \<Longrightarrow> rsplit_once c (a @ c # b) = Some (a, b)"
  by (induction a) (simp_all add: rsplit_once_None [THEN iffD2])

section \<open>Decimal numbers\<close>

definition is_digit :: "char \<Rightarrow> bool" where
  "is_digit c \<longleftrightarrow> (48 :: nat) \<le> of_char c \<and> (of_char c :: nat) \<le> 57"

definition digit_val :: "char \<Rightarrow> nat" where
  "digit_val c = of_char c - 48"

definition digit_char :: "nat \<Rightarrow> char" where
  "digit_char n = char_of (48 + n)"

definition decimal_val :: "string \<Rightarrow> nat" where
  "decimal_val ds = foldl (\<lambda>a d. 10 * a + digit_val d) 0 ds"

text \<open>\<open>Display\<close> of an unsigned integer.\<close>

fun show_nat :: "nat \<Rightarrow> string" where
  "show_nat n = (if n < 10 then [digit_char n] else show_nat (n div 10) @ [digit_char (n mod 10)])"

declare show_nat.simps [simp del]

lemma digit_char_val: "n < 10 \<Longrightarrow> is_digit (digit_char n) \<and> digit_val (digit_char n) = n"
  by (simp add: is_digit_def digit_val_def digit_char_def)

lemma show_nat_digits: "list_all is_digit (show_nat n) \<and> show_nat n \<noteq> []"
proof (induction n rule: show_nat.induct)
  case (1 n)
  then show ?case by (auto simp: show_nat.simps [of n] digit_char_val)
qed

lemma decimal_val_show: "decimal_val (show_nat n) = n"
proof (induction n rule: show_nat.induct)
  case (1 n)
  then show ?case
    by (subst show_nat.simps) (auto simp: decimal_val_def digit_char_val)
qed

lemma show_nat_inject: "show_nat m = show_nat n \<longleftrightarrow> m = n"
  by (metis decimal_val_show)

lemma show_nat_length: "n < 10 ^ Suc k \<Longrightarrow> length (show_nat n) \<le> Suc k"
proof (induction k arbitrary: n)
  case (Suc k)
  then have "n div 10 < 10 ^ Suc k" by (simp add: less_mult_imp_div_less)
  from Suc.IH [OF this] show ?case by (subst show_nat.simps) auto
qed (simp add: show_nat.simps)

lemma show_nat_leading: "1 < length (show_nat n) \<Longrightarrow> hd (show_nat n) \<noteq> CHR ''0''"
proof (induction n rule: show_nat.induct)
  case (1 n)
  show ?case
  proof (cases "n < 10")
    case True
    with 1(2) show ?thesis by (simp add: show_nat.simps)
  next
    case False
    show ?thesis
    proof (cases "n div 10 < 10")
      case True
      then have "show_nat n = [digit_char (n div 10), digit_char (n mod 10)]"
        using False by (subst show_nat.simps) (simp add: show_nat.simps [of "n div 10"])
      moreover have "digit_char (n div 10) \<noteq> CHR ''0''"
        using False True digit_char_val [OF True] by (auto simp: digit_val_def)
      ultimately show ?thesis by simp
    next
      case big: False
      then have "1 < length (show_nat (n div 10))"
        using show_nat_digits by (subst show_nat.simps) auto
      with 1(1) [OF False] show ?thesis
        using False show_nat_digits by (subst show_nat.simps) auto
    qed
  qed
qed

section \<open>IPv4 addresses\<close>

text \<open>One octet at the front of the text as \<open>Ipv4Addr::from_str\<close> reads it: one to three decimal
  digits, no superfluous leading zero, at most 255.\<close>

definition read_octet :: "string \<Rightarrow> (byte \<times> string) option" where
  "read_octet s =
     (let ds = takeWhile is_digit s in
      if ds = [] \<or> length ds > 3 \<or> (length ds > 1 \<and> hd ds = CHR ''0'') \<or> decimal_val ds > 255
      then None else Some (of_nat (decimal_val ds), dropWhile is_digit s))"

fun read_dot :: "string \<Rightarrow> string option" where
  "read_dot (c # s) = (if c = CHR ''.'' then Some s else None)"
| "read_dot [] = None"

definition parse_ipv4 :: "string \<Rightarrow> (byte \<times> byte \<times> byte \<times> byte) option" where
  "parse_ipv4 s =
     (if length s > 15 then None
      else Option.bind (read_octet s) (\<lambda>(a, s).
           Option.bind (read_dot s) (\<lambda>s. Option.bind (read_octet s) (\<lambda>(b, s).
           Option.bind (read_dot s) (\<lambda>s. Option.bind (read_octet s) (\<lambda>(c, s).
           Option.bind (read_dot s) (\<lambda>s. Option.bind (read_octet s) (\<lambda>(d, s).
             if s = [] then Some (a, b, c, d) else None))))))))"

definition show_ipv4 :: "byte \<times> byte \<times> byte \<times> byte \<Rightarrow> string" where
  "show_ipv4 = (\<lambda>(a, b, c, d). show_nat (unat a) @ ''.'' @ show_nat (unat b) @ ''.'' @
     show_nat (unat c) @ ''.'' @ show_nat (unat d))"

lemma read_octet_show:
  assumes "s = [] \<or> \<not> is_digit (hd s)"
  shows "read_octet (show_nat (unat b) @ s) = Some (b, s)"
proof -
  let ?ds = "show_nat (unat b)"
  have digits: "list_all is_digit ?ds" "?ds \<noteq> []" using show_nat_digits by auto
  then have split: "takeWhile is_digit (?ds @ s) = ?ds" "dropWhile is_digit (?ds @ s) = s"
    using assms by (cases s; auto simp: list_all_iff takeWhile_append dropWhile_append)+
  have "length ?ds \<le> 3"
    using show_nat_length [of "unat b" 2] unat_byte_less [of b] by (simp add: numeral_3_eq_3)
  moreover have "decimal_val ?ds \<le> 255"
    using unat_byte_less [of b] by (simp add: decimal_val_show)
  ultimately show ?thesis
    using digits(2) show_nat_leading [of "unat b"]
    by (auto simp: read_octet_def split Let_def decimal_val_show)
qed

lemma show_byte_length: "length (show_nat (unat (b :: byte))) \<le> 3"
  using show_nat_length [of "unat b" 2] unat_byte_less [of b] by (simp add: numeral_3_eq_3)

lemma parse_show_ipv4: "parse_ipv4 (show_ipv4 ip) = Some ip"
proof -
  obtain a b c d where ip: "ip = (a, b, c, d)" by (cases ip)
  have dot: "\<not> is_digit CHR ''.''" by (simp add: is_digit_def)
  have "length (show_ipv4 ip) \<le> 15"
    using show_byte_length [of a] show_byte_length [of b] show_byte_length [of c]
      show_byte_length [of d]
    by (simp add: ip show_ipv4_def)
  then show ?thesis
    using read_octet_show [of "[]" d]
    by (simp add: parse_ipv4_def ip show_ipv4_def read_octet_show dot)
qed

end
