(* ===== verification/Externals.thy ===== *)
theory Externals
  imports Codec Rust_Text
begin

text \<open>
  The third-party code the program calls, as one record of functions that every definition using
  it takes as an argument: the random number generator (\<open>rand\<close>), X25519 (\<open>x25519-dalek\<close>),
  HKDF-SHA256 (\<open>hkdf\<close>, \<open>sha2\<close>), ChaCha20-Poly1305 (\<open>chacha20poly1305\<close>), hexadecimal
  text (\<open>hex\<close>), and the iteration order of \<open>HashMap\<close>, which its library leaves open. Nothing is assumed about the functions where they are declared: the laws
  below are hypotheses of the theorems that need them.
\<close>

section \<open>The parameters\<close>

text \<open>\<open>PublicKey\<close> and \<open>StaticSecret\<close> are seen through their byte conversions only.\<close>

datatype public_key = PublicKey (pk_bytes: bytes)
datatype static_secret = StaticSecret (sk_bytes: bytes)

record 'r externals =
  fill_bytes :: "nat \<Rightarrow> 'r \<Rightarrow> bytes \<times> 'r"
    \<comment> \<open>\<open>RngCore::fill_bytes\<close> on a buffer of the given size\<close>
  next_u64 :: "'r \<Rightarrow> u64 \<times> 'r"
    \<comment> \<open>\<open>RngCore::next_u64\<close>\<close>
  random_secret :: "'r \<Rightarrow> static_secret \<times> 'r"
    \<comment> \<open>\<open>StaticSecret::random_from_rng\<close>\<close>
  public_from :: "static_secret \<Rightarrow> public_key"
    \<comment> \<open>\<open>PublicKey::from(&StaticSecret)\<close>\<close>
  x25519 :: "static_secret \<Rightarrow> public_key \<Rightarrow> bytes"
    \<comment> \<open>\<open>StaticSecret::diffie_hellman\<close>\<close>
  hkdf_sha256 :: "bytes \<Rightarrow> bytes \<Rightarrow> nat \<Rightarrow> bytes option"
    \<comment> \<open>\<open>Hkdf::new(None, ikm)\<close> and \<open>expand(info, okm)\<close>: input key, info, output length\<close>
  aead_encrypt :: "bytes \<Rightarrow> bytes \<Rightarrow> bytes \<Rightarrow> bytes option"
    \<comment> \<open>\<open>ChaCha20Poly1305::encrypt\<close>: key, nonce, plaintext\<close>
  aead_decrypt :: "bytes \<Rightarrow> bytes \<Rightarrow> bytes \<Rightarrow> bytes option"
    \<comment> \<open>\<open>ChaCha20Poly1305::decrypt\<close>: key, nonce, ciphertext with tag\<close>
  hex_encode :: "bytes \<Rightarrow> string"
    \<comment> \<open>\<open>hex::encode\<close>\<close>
  hex_decode :: "string \<Rightarrow> bytes option"
    \<comment> \<open>\<open>hex::decode\<close>\<close>
  shuffle_order :: "nat \<Rightarrow> 'r \<Rightarrow> nat list \<times> 'r"
    \<comment> \<open>\<open>SliceRandom::shuffle\<close> on a slice of the given length: the old position of each element\<close>
  hash_order :: "string list \<Rightarrow> nat list"
    \<comment> \<open>the order in which a \<open>HashMap\<close> with these keys is iterated\<close>

section \<open>Their documented behaviour\<close>

text \<open>The generator fills the whole buffer.\<close>

definition rng_ok :: "'r externals \<Rightarrow> bool" where
  "rng_ok X \<longleftrightarrow> (\<forall>n r. length (fst (fill_bytes X n r)) = n)"

text \<open>X25519 keys and shared secrets have 32 bytes, and both ends of an exchange agree.\<close>

definition dh_ok :: "'r externals \<Rightarrow> bool" where
  "dh_ok X \<longleftrightarrow>
     (\<forall>r. length (sk_bytes (fst (random_secret X r))) = 32) \<and>
     (\<forall>s. length (sk_bytes s) = 32 \<longrightarrow> length (pk_bytes (public_from X s)) = 32) \<and>
     (\<forall>s p. length (sk_bytes s) = 32 \<longrightarrow> length (pk_bytes p) = 32 \<longrightarrow> length (x25519 X s p) = 32) \<and>
     (\<forall>a b. length (sk_bytes a) = 32 \<longrightarrow> length (sk_bytes b) = 32 \<longrightarrow>
        x25519 X a (public_from X b) = x25519 X b (public_from X a))"

text \<open>HKDF-SHA256 expands to any length up to 255 hash blocks.\<close>

definition hkdf_ok :: "'r externals \<Rightarrow> bool" where
  "hkdf_ok X \<longleftrightarrow>
     (\<forall>ikm info n. n \<le> 255 * 32 \<longrightarrow> (\<exists>okm. hkdf_sha256 X ikm info n = Some okm \<and> length okm = n))"

text \<open>
  ChaCha20-Poly1305 (RFC 8439) encrypts every plaintext below its length limit, appends a 16-byte
  tag, and decryption accepts exactly the ciphertexts encryption gives for that key and nonce.
\<close>

definition aead_max :: nat where
  "aead_max = 2 ^ 38 - 64"

definition aead_ok :: "'r externals \<Rightarrow> bool" where
  "aead_ok X \<longleftrightarrow>
     (\<forall>k n p. length k = 32 \<longrightarrow> length n = 12 \<longrightarrow> length p < aead_max \<longrightarrow>
        (\<exists>c. aead_encrypt X k n p = Some c)) \<and>
     (\<forall>k n p c. length k = 32 \<longrightarrow> length n = 12 \<longrightarrow> aead_encrypt X k n p = Some c \<longrightarrow>
        length c = length p + 16 \<and> aead_decrypt X k n c = Some p) \<and>
     (\<forall>k n p c. length k = 32 \<longrightarrow> length n = 12 \<longrightarrow> aead_decrypt X k n c = Some p \<longrightarrow>
        aead_encrypt X k n p = Some c)"

text \<open>Hexadecimal text: two lower-case digits per byte, and decoding is its left inverse.\<close>

definition hex_digit :: "char \<Rightarrow> bool" where
  "hex_digit c \<longleftrightarrow> c \<in> set ''0123456789abcdef''"

definition hex_ok :: "'r externals \<Rightarrow> bool" where
  "hex_ok X \<longleftrightarrow>
     (\<forall>bs. hex_decode X (hex_encode X bs) = Some bs \<and> list_all hex_digit (hex_encode X bs) \<and>
        length (hex_encode X bs) = 2 * length bs)"

text \<open>Decoding reads two digits per byte.\<close>

definition hex_halves :: "'r externals \<Rightarrow> bool" where
  "hex_halves X \<longleftrightarrow> (\<forall>s bs. hex_decode X s = Some bs \<longrightarrow> length s = 2 * length bs)"

text \<open>A shuffle keeps every element, and iteration visits every entry of a map once.\<close>

definition order_ok :: "'r externals \<Rightarrow> bool" where
  "order_ok X \<longleftrightarrow>
     (\<forall>n r. index_order n (fst (shuffle_order X n r))) \<and>
     (\<forall>ks. index_order (length ks) (hash_order X ks))"

definition shuffle :: "'r externals \<Rightarrow> 'a list \<Rightarrow> 'r \<Rightarrow> 'a list \<times> 'r" where
  "shuffle X xs r = (let (idxs, r') = shuffle_order X (length xs) r in (permute idxs xs, r'))"

section \<open>The laws as rules\<close>

lemma mset_shuffle: "order_ok X \<Longrightarrow> mset (fst (shuffle X xs r)) = mset xs"
  unfolding order_ok_def shuffle_def
  by (metis (no_types, lifting) case_prod_beta' fst_conv mset_permute)

lemma mset_hash_order:
  "order_ok X \<Longrightarrow> length ks = length xs \<Longrightarrow> mset (permute (hash_order X ks) xs) = mset xs"
  unfolding order_ok_def by (metis mset_permute)


lemma fill_bytes_length: "rng_ok X \<Longrightarrow> length (fst (fill_bytes X n r)) = n"
  by (simp add: rng_ok_def)

lemma fill_bytes_length_eq: "rng_ok X \<Longrightarrow> fill_bytes X n r = (bs, r') \<Longrightarrow> length bs = n"
  using fill_bytes_length [of X n r] by simp

lemma random_secret_length: "dh_ok X \<Longrightarrow> random_secret X r = (s, r') \<Longrightarrow> length (sk_bytes s) = 32"
  unfolding dh_ok_def by (metis fst_conv)

lemma public_from_length:
  "dh_ok X \<Longrightarrow> length (sk_bytes s) = 32 \<Longrightarrow> length (pk_bytes (public_from X s)) = 32"
  by (simp add: dh_ok_def)

lemma x25519_length:
  "dh_ok X \<Longrightarrow> length (sk_bytes s) = 32 \<Longrightarrow> length (pk_bytes p) = 32 \<Longrightarrow> length (x25519 X s p) = 32"
  by (simp add: dh_ok_def)

lemma x25519_commute:
  "dh_ok X \<Longrightarrow> length (sk_bytes a) = 32 \<Longrightarrow> length (sk_bytes b) = 32 \<Longrightarrow>
     x25519 X a (public_from X b) = x25519 X b (public_from X a)"
  unfolding dh_ok_def by blast

lemma hkdf_32: "hkdf_ok X \<Longrightarrow> \<exists>okm. hkdf_sha256 X ikm info 32 = Some okm \<and> length okm = 32"
  by (simp add: hkdf_ok_def)

lemma aead_encrypt_total:
  "aead_ok X \<Longrightarrow> length k = 32 \<Longrightarrow> length n = 12 \<Longrightarrow> length p < aead_max \<Longrightarrow>
     \<exists>c. aead_encrypt X k n p = Some c"
  unfolding aead_ok_def by blast

lemma aead_encrypt_length:
  "aead_ok X \<Longrightarrow> length k = 32 \<Longrightarrow> length n = 12 \<Longrightarrow> aead_encrypt X k n p = Some c \<Longrightarrow>
     length c = length p + 16"
  unfolding aead_ok_def by blast

lemma aead_decrypt_encrypt:
  "aead_ok X \<Longrightarrow> length k = 32 \<Longrightarrow> length n = 12 \<Longrightarrow> aead_encrypt X k n p = Some c \<Longrightarrow>
     aead_decrypt X k n c = Some p"
  unfolding aead_ok_def by blast

lemma aead_decrypt_Some_iff:
  "aead_ok X \<Longrightarrow> length k = 32 \<Longrightarrow> length n = 12 \<Longrightarrow>
     aead_decrypt X k n c = Some p \<longleftrightarrow> aead_encrypt X k n p = Some c"
  unfolding aead_ok_def by blast

lemma hex_decode_encode: "hex_ok X \<Longrightarrow> hex_decode X (hex_encode X bs) = Some bs"
  by (simp add: hex_ok_def)

lemma hex_encode_digits: "hex_ok X \<Longrightarrow> list_all hex_digit (hex_encode X bs)"
  by (simp add: hex_ok_def)

end
