(* ===== verification/Demo_Externals.thy ===== *)
theory Demo_Externals
  imports Externals
begin

text \<open>
  A small concrete instance of the third-party parameters that satisfies every law named in
  \<open>Externals\<close>: the witnesses apply the theorems to it, which shows that the laws can hold
  together. It has no cryptographic strength and stands for no code of the program.
\<close>

definition demo_shift :: "bytes \<Rightarrow> bytes \<Rightarrow> byte" where
  "demo_shift k n = (case (k, n) of (a # _, b # _) \<Rightarrow> a + b | _ \<Rightarrow> 0)"

definition demo_seal :: "bytes \<Rightarrow> bytes \<Rightarrow> bytes \<Rightarrow> bytes option" where
  "demo_seal k n p = Some (map (\<lambda>b. b + demo_shift k n) p @ take 16 k)"

definition demo_open :: "bytes \<Rightarrow> bytes \<Rightarrow> bytes \<Rightarrow> bytes option" where
  "demo_open k n c =
     (if length c < 16 \<or> drop (length c - 16) c \<noteq> take 16 k then None
      else Some (map (\<lambda>b. b - demo_shift k n) (take (length c - 16) c)))"

definition demo_hex_digit :: "nat \<Rightarrow> char" where
  "demo_hex_digit n = char_of (if n < 10 then 48 + n else 87 + n)"

definition demo_hex_val :: "char \<Rightarrow> nat option" where
  "demo_hex_val c =
     (let n = of_char c in
      if 48 \<le> n \<and> n \<le> 57 then Some (n - 48)
      else if 97 \<le> n \<and> n \<le> 102 then Some (n - 87)
      else if 65 \<le> n \<and> n \<le> 70 then Some (n - 55) else None)"

fun demo_hex_encode :: "bytes \<Rightarrow> string" where
  "demo_hex_encode [] = []"
| "demo_hex_encode (b # bs) =
     demo_hex_digit (unat b div 16) # demo_hex_digit (unat b mod 16) # demo_hex_encode bs"

fun demo_hex_decode :: "string \<Rightarrow> bytes option" where
  "demo_hex_decode [] = Some []"
| "demo_hex_decode [c] = None"
| "demo_hex_decode (c # d # s) =
     (case (demo_hex_val c, demo_hex_val d, demo_hex_decode s) of
        (Some x, Some y, Some bs) \<Rightarrow> Some (of_nat (16 * x + y) # bs)
      | _ \<Rightarrow> None)"

definition demo :: "nat externals" where
  "demo = \<lparr>fill_bytes = (\<lambda>n r. (replicate n (of_nat r), Suc r)),
     next_u64 = (\<lambda>r. (of_nat r, Suc r)),
     random_secret = (\<lambda>r. (StaticSecret (replicate 32 (of_nat r)), Suc r)),
     public_from = (\<lambda>s. PublicKey (sk_bytes s)),
     x25519 = (\<lambda>s p. map2 (+) (sk_bytes s) (pk_bytes p)),
     hkdf_sha256 = (\<lambda>ikm info n. Some (take n (ikm @ info @ replicate n 0))),
     aead_encrypt = demo_seal, aead_decrypt = demo_open,
     hex_encode = demo_hex_encode, hex_decode = demo_hex_decode,
     shuffle_order = (\<lambda>n r. (rev [0..<n], Suc r)), hash_order = (\<lambda>ks. [0..<length ks])\<rparr>"

lemma demo_rng_ok: "rng_ok demo"
  by (simp add: rng_ok_def demo_def)

lemma map2_add_commute: "map2 (+) xs ys = map2 (+) ys (xs :: byte list)"
proof (induction xs arbitrary: ys)
  case (Cons x xs)
  then show ?case by (cases ys) (simp_all add: add.commute)
qed simp

lemma demo_dh_ok: "dh_ok demo"
  unfolding dh_ok_def using map2_add_commute by (auto simp: demo_def)

lemma demo_hkdf_ok: "hkdf_ok demo"
  by (auto simp: hkdf_ok_def demo_def)

lemma demo_aead_ok: "aead_ok demo"
  by (auto simp: aead_ok_def demo_def demo_seal_def demo_open_def comp_def
      split: if_splits) (metis append_take_drop_id)

lemma demo_hex_digit_val: "n < 16 \<Longrightarrow> demo_hex_val (demo_hex_digit n) = Some n"
  by (auto simp: demo_hex_val_def demo_hex_digit_def Let_def)

lemma demo_hex_digit_ok: "n < 16 \<Longrightarrow> hex_digit (demo_hex_digit n)"
proof -
  assume "n < 16"
  then have "n \<in> {0, 1, 2, 3, 4, 5, 6, 7, 8, 9, 10, 11, 12, 13, 14, 15}"
    by (simp only: insert_iff empty_iff) arith
  then show ?thesis
    by (elim insertE emptyE; simp only:; code_simp)
qed

lemma demo_hex_nibbles: "unat (b :: byte) div 16 < 16" "unat b mod 16 < 16"
  using unat_byte_less [of b] by auto

lemma demo_hex_ok: "hex_ok demo"
proof -
  have "demo_hex_decode (demo_hex_encode bs) = Some bs" for bs
    by (induction bs) (simp_all add: demo_hex_digit_val demo_hex_nibbles)
  moreover have "list_all hex_digit (demo_hex_encode bs)" for bs
    by (induction bs) (simp_all add: demo_hex_digit_ok demo_hex_nibbles)
  moreover have "length (demo_hex_encode bs) = 2 * length bs" for bs
    by (induction bs) simp_all
  ultimately show ?thesis by (simp add: hex_ok_def demo_def)
qed

lemma demo_order_ok: "order_ok demo"
  by (simp add: order_ok_def index_order_def demo_def)

lemma demo_hex_halves: "hex_halves demo"
proof -
  have "demo_hex_decode s = Some bs \<Longrightarrow> length s = 2 * length bs" for s bs
    by (induction s arbitrary: bs rule: demo_hex_decode.induct) (auto split: option.splits)
  then show ?thesis by (simp add: hex_halves_def demo_def)
qed

lemmas demo_laws = demo_order_ok demo_rng_ok demo_dh_ok demo_hkdf_ok demo_aead_ok demo_hex_ok

end
