(* ===== verification/Cell.thy ===== *)
theory Cell
  imports Demo_Externals
begin

text \<open>
  \<open>crates/veil-core/src/error.rs\<close> and \<open>cell.rs\<close>: the error type, the fixed-size cell, its
  constructors, accessors, serialisation and parser. The lemmas give the cell's well-formedness
  invariant, the wire layout, the round trip in both directions and the parser's branches.
\<close>

section \<open>Errors\<close>

datatype veil_error =
    PayloadTooLarge (len: nat) (max_len: nat)
  | InvalidSequence u16 u16
  | UnsupportedVersion byte
  | InvalidCellType byte
  | MessageTooLarge nat nat
  | IncompleteMessage nat nat
  | MismatchedMessageId
  | EncryptionFailed
  | DecryptionFailed
  | InvalidKey string

section \<open>Constants and data\<close>

definition CELL_SIZE :: nat where "CELL_SIZE = 512"
definition HEADER_SIZE :: nat where "HEADER_SIZE = 24"
definition PAYLOAD_CAPACITY :: nat where "PAYLOAD_CAPACITY = CELL_SIZE - HEADER_SIZE"
definition PROTOCOL_VERSION :: byte where "PROTOCOL_VERSION = 1"

lemmas cell_consts = CELL_SIZE_def HEADER_SIZE_def PAYLOAD_CAPACITY_def PROTOCOL_VERSION_def

datatype cell_type = Data | Dummy

definition cell_type_as_u8 :: "cell_type \<Rightarrow> byte" where
  "cell_type_as_u8 t = (case t of Data \<Rightarrow> 0 | Dummy \<Rightarrow> 1)"

definition from_u8 :: "byte \<Rightarrow> (cell_type, veil_error) outcome" where
  "from_u8 v = (if v = 0 then Ok Data else if v = 1 then Ok Dummy else Err (InvalidCellType v))"

type_synonym message_id = bytes

record cell =
  c_version :: byte
  c_cell_type :: cell_type
  c_message_id :: message_id
  c_seq_index :: u16
  c_seq_total :: u16
  c_payload_len :: u16
  c_payload :: bytes

section \<open>Constructors and accessors\<close>

definition new_data :: "message_id \<Rightarrow> u16 \<Rightarrow> u16 \<Rightarrow> bytes \<Rightarrow> (cell, veil_error) outcome" where
  "new_data message_id seq_index seq_total data =
     (if length data > PAYLOAD_CAPACITY then Err (PayloadTooLarge (length data) PAYLOAD_CAPACITY)
      else if seq_total = 0 \<or> seq_index \<ge> seq_total then Err (InvalidSequence seq_index seq_total)
      else Ok \<lparr>c_version = PROTOCOL_VERSION, c_cell_type = Data, c_message_id = message_id,
               c_seq_index = seq_index, c_seq_total = seq_total,
               c_payload_len = of_nat (length data),
               c_payload = copy_at 0 data (replicate PAYLOAD_CAPACITY 0)\<rparr>)"

definition new_dummy :: "'r externals \<Rightarrow> 'r \<Rightarrow> cell \<times> 'r" where
  "new_dummy X r =
     (let (message_id, r1) = fill_bytes X 16 r;
          (payload, r2) = fill_bytes X PAYLOAD_CAPACITY r1
      in (\<lparr>c_version = PROTOCOL_VERSION, c_cell_type = Dummy, c_message_id = message_id,
           c_seq_index = 0, c_seq_total = 1, c_payload_len = of_nat PAYLOAD_CAPACITY,
           c_payload = payload\<rparr>, r2))"

definition cell_type_of :: "cell \<Rightarrow> cell_type" where
  "cell_type_of c = c_cell_type c"

definition message_id_of :: "cell \<Rightarrow> message_id" where
  "message_id_of c = c_message_id c"

definition seq_index_of :: "cell \<Rightarrow> u16" where
  "seq_index_of c = c_seq_index c"

definition seq_total_of :: "cell \<Rightarrow> u16" where
  "seq_total_of c = c_seq_total c"

text \<open>\<open>&self.payload[..self.payload_len as usize]\<close>; the sub_slice is in range for a well-formed cell.\<close>

definition payload_of :: "cell \<Rightarrow> bytes" where
  "payload_of c = sub_slice 0 (unat (c_payload_len c)) (c_payload c)"

lemmas cell_accessors =
  cell_type_of_def message_id_of_def seq_index_of_def seq_total_of_def

section \<open>Serialisation and parsing\<close>

definition to_bytes :: "cell \<Rightarrow> bytes" where
  "to_bytes c =
     (let buf = replicate CELL_SIZE 0;
          buf = buf[0 := c_version c];
          buf = buf[1 := cell_type_as_u8 (c_cell_type c)];
          buf = copy_at 2 (c_message_id c) buf;
          buf = copy_at 18 (u16_to_be_bytes (c_seq_index c)) buf;
          buf = copy_at 20 (u16_to_be_bytes (c_seq_total c)) buf;
          buf = copy_at 22 (u16_to_be_bytes (c_payload_len c)) buf;
          buf = copy_at HEADER_SIZE (c_payload c) buf
      in buf)"

definition from_bytes :: "bytes \<Rightarrow> (cell, veil_error) outcome" where
  "from_bytes buf =
     (let version = buf ! 0 in
      if version \<noteq> PROTOCOL_VERSION then Err (UnsupportedVersion version)
      else and_then (from_u8 (buf ! 1)) (\<lambda>cell_type.
        let message_id = sub_slice 2 18 buf;
            seq_index = u16_from_be_bytes [buf ! 18, buf ! 19];
            seq_total = u16_from_be_bytes [buf ! 20, buf ! 21];
            payload_len = u16_from_be_bytes [buf ! 22, buf ! 23]
        in if unat payload_len > PAYLOAD_CAPACITY
           then Err (PayloadTooLarge (unat payload_len) PAYLOAD_CAPACITY)
           else if seq_total = 0 \<or> seq_index \<ge> seq_total
           then Err (InvalidSequence seq_index seq_total)
           else Ok \<lparr>c_version = version, c_cell_type = cell_type, c_message_id = message_id,
                    c_seq_index = seq_index, c_seq_total = seq_total,
                    c_payload_len = payload_len, c_payload = drop HEADER_SIZE buf\<rparr>))"

section \<open>Well-formed cells\<close>

text \<open>The array lengths the Rust types fix, and the bounds every constructor checks.\<close>

definition cell_wf :: "cell \<Rightarrow> bool" where
  "cell_wf c \<longleftrightarrow>
     c_version c = PROTOCOL_VERSION \<and>
     length (c_message_id c) = 16 \<and>
     length (c_payload c) = PAYLOAD_CAPACITY \<and>
     unat (c_payload_len c) \<le> PAYLOAD_CAPACITY \<and>
     c_seq_index c < c_seq_total c"

lemma PAYLOAD_CAPACITY_eq: "PAYLOAD_CAPACITY = 488"
  by (simp add: cell_consts)

lemma seq_bad_iff: "(t = 0 \<or> i \<ge> t) \<longleftrightarrow> \<not> i < (t :: u16)"
  by (metis linorder_not_less word_not_simps(1))

lemma length_payload_of: "cell_wf c \<Longrightarrow> length (payload_of c) = unat (c_payload_len c)"
  by (simp add: payload_of_def cell_wf_def length_sub_slice)

lemma new_data_Ok_iff:
  "new_data mid i t d = Ok c \<longleftrightarrow>
     length d \<le> PAYLOAD_CAPACITY \<and> i < t \<and>
     c = \<lparr>c_version = PROTOCOL_VERSION, c_cell_type = Data, c_message_id = mid,
          c_seq_index = i, c_seq_total = t, c_payload_len = of_nat (length d),
          c_payload = d @ replicate (PAYLOAD_CAPACITY - length d) 0\<rparr>"
  unfolding new_data_def seq_bad_iff
  by (auto simp: copy_at_zeros_start not_less)

lemma new_data_wf: "new_data mid i t d = Ok c \<Longrightarrow> length mid = 16 \<Longrightarrow> cell_wf c"
  by (auto simp: new_data_Ok_iff cell_wf_def PAYLOAD_CAPACITY_eq unat_of_nat)

lemma new_data_payload: "new_data mid i t d = Ok c \<Longrightarrow> payload_of c = d"
  by (auto simp: new_data_Ok_iff payload_of_def sub_slice_def PAYLOAD_CAPACITY_eq unat_of_nat)

lemma new_data_fields:
  "new_data mid i t d = Ok c \<Longrightarrow>
     message_id_of c = mid \<and> seq_index_of c = i \<and> seq_total_of c = t \<and> cell_type_of c = Data"
  by (auto simp: new_data_Ok_iff cell_accessors)

lemma new_dummy_wf: "rng_ok X \<Longrightarrow> new_dummy X r = (c, r') \<Longrightarrow> cell_wf c"
  by (auto simp: new_dummy_def cell_wf_def PAYLOAD_CAPACITY_eq fill_bytes_length_eq
      split: prod.splits)

section \<open>The wire layout\<close>

lemma to_bytes_layout:
  assumes "cell_wf c"
  shows "to_bytes c =
    [c_version c, cell_type_as_u8 (c_cell_type c)] @ c_message_id c @
    u16_to_be_bytes (c_seq_index c) @ u16_to_be_bytes (c_seq_total c) @
    u16_to_be_bytes (c_payload_len c) @ c_payload c"
proof -
  have head: "((replicate CELL_SIZE (0::byte))[0 := v])[1 := t] = [v, t] @ replicate 510 0" for v t
    by (simp add: CELL_SIZE_def replicate_add [of 2 510, simplified] numeral_2_eq_2)
  from assms have "length (c_message_id c) = 16" "length (c_payload c) = 488"
    by (auto simp: cell_wf_def PAYLOAD_CAPACITY_eq)
  then show ?thesis
    unfolding to_bytes_def Let_def head
    by (simp only: copy_at_zeros length_append list.size length_u16_to_be_bytes HEADER_SIZE_def)
      simp
qed

lemma length_to_bytes: "cell_wf c \<Longrightarrow> length (to_bytes c) = CELL_SIZE"
  by (simp add: to_bytes_layout cell_wf_def cell_consts)

text \<open>A 512-byte buffer is the concatenation of its fields.\<close>

lemma cell_buffer_split:
  assumes "length buf = CELL_SIZE"
  shows "buf = [buf ! 0, buf ! 1] @ sub_slice 2 18 buf @ [buf ! 18, buf ! 19] @ [buf ! 20, buf ! 21] @
    [buf ! 22, buf ! 23] @ drop HEADER_SIZE buf"
proof -
  have "buf = sub_slice 0 2 buf @ sub_slice 2 18 buf @ sub_slice 18 20 buf @ sub_slice 20 22 buf @
      sub_slice 22 24 buf @ drop 24 buf"
    by (simp add: sub_slice_drop)
  also have "sub_slice 0 2 buf = [buf ! 0, buf ! 1]"
    using assms sub_slice_two [of 0 buf] by (simp add: CELL_SIZE_def numeral_2_eq_2)
  also have "sub_slice 18 20 buf = [buf ! 18, buf ! 19]"
    using assms sub_slice_two [of 18 buf] by (simp add: CELL_SIZE_def)
  also have "sub_slice 20 22 buf = [buf ! 20, buf ! 21]"
    using assms sub_slice_two [of 20 buf] by (simp add: CELL_SIZE_def)
  also have "sub_slice 22 24 buf = [buf ! 22, buf ! 23]"
    using assms sub_slice_two [of 22 buf] by (simp add: CELL_SIZE_def)
  finally show ?thesis by (simp add: HEADER_SIZE_def)
qed

lemma fields_of_layout:
  assumes buf: "buf = [v, t] @ mid @ [a, b] @ [c, d] @ [e, f] @ p"
    and len: "length mid = 16" "length p = PAYLOAD_CAPACITY"
  shows "buf ! 0 = v" "buf ! 1 = t" "sub_slice 2 18 buf = mid" "buf ! 18 = a" "buf ! 19 = b"
    "buf ! 20 = c" "buf ! 21 = d" "buf ! 22 = e" "buf ! 23 = f" "drop HEADER_SIZE buf = p"
  using len by (simp_all add: buf sub_slice_def nth_append HEADER_SIZE_def)

lemma u16_bytes_pair: "\<exists>a b. u16_to_be_bytes w = [a, b]"
  by (simp add: u16_to_be_bytes_def numeral_2_eq_2)

lemma cell_type_of_u8: "from_u8 (cell_type_as_u8 t) = Ok t"
  by (cases t) (simp_all add: from_u8_def cell_type_as_u8_def)

lemma cell_type_as_u8_of: "from_u8 v = Ok t \<Longrightarrow> cell_type_as_u8 t = v"
  by (auto simp: from_u8_def cell_type_as_u8_def split: if_splits)

lemma from_bytes_to_bytes:
  assumes wf: "cell_wf c"
  shows "from_bytes (to_bytes c) = Ok c"
proof -
  obtain a b where i: "u16_to_be_bytes (c_seq_index c) = [a, b]" using u16_bytes_pair by blast
  obtain d e where t: "u16_to_be_bytes (c_seq_total c) = [d, e]" using u16_bytes_pair by blast
  obtain f g where l: "u16_to_be_bytes (c_payload_len c) = [f, g]" using u16_bytes_pair by blast
  have vals: "u16_from_be_bytes [a, b] = c_seq_index c" "u16_from_be_bytes [d, e] = c_seq_total c"
    "u16_from_be_bytes [f, g] = c_payload_len c"
    by (simp_all flip: i t l)
  have lens: "length (c_message_id c) = 16" "length (c_payload c) = PAYLOAD_CAPACITY"
    using wf by (simp_all add: cell_wf_def)
  note fields = fields_of_layout [OF to_bytes_layout [OF wf, unfolded i t l] lens]
  have "\<not> (c_seq_total c = 0 \<or> c_seq_index c \<ge> c_seq_total c)"
    using wf unfolding seq_bad_iff by (simp add: cell_wf_def)
  with wf show ?thesis
    by (simp add: from_bytes_def fields vals cell_type_of_u8 cell_wf_def not_less
        del: One_nat_def)
qed

lemma to_bytes_from_bytes:
  assumes len: "length buf = CELL_SIZE" and ok: "from_bytes buf = Ok c"
  shows "cell_wf c \<and> to_bytes c = buf"
proof -
  from ok have c: "c_version c = buf ! 0" "c_message_id c = sub_slice 2 18 buf"
      "c_seq_index c = u16_from_be_bytes [buf ! 18, buf ! 19]"
      "c_seq_total c = u16_from_be_bytes [buf ! 20, buf ! 21]"
      "c_payload_len c = u16_from_be_bytes [buf ! 22, buf ! 23]"
      "c_payload c = drop HEADER_SIZE buf"
      "from_u8 (buf ! 1) = Ok (c_cell_type c)" "buf ! 0 = PROTOCOL_VERSION"
      "unat (c_payload_len c) \<le> PAYLOAD_CAPACITY" "c_seq_index c < c_seq_total c"
    by (auto simp: from_bytes_def Let_def outcome_simps seq_bad_iff split: if_splits)
  have wf: "cell_wf c"
    using len c by (simp add: cell_wf_def length_sub_slice cell_consts)
  have "to_bytes c = buf"
    unfolding to_bytes_layout [OF wf]
    by (rule sym, rule trans [OF cell_buffer_split [OF len]])
      (simp add: c cell_type_as_u8_of [OF c(7)] u16_to_from_be_bytes del: One_nat_def)
  with wf show ?thesis ..
qed

lemma from_bytes_no_panic: "from_bytes buf \<noteq> Panic"
  by (auto simp: from_bytes_def from_u8_def Let_def outcome_simps split: if_splits)

interpretation cell_codec: strict_codec to_bytes from_bytes cell_wf "\<lambda>bs. length bs = CELL_SIZE"
  by unfold_locales (auto simp: from_bytes_to_bytes length_to_bytes dest: to_bytes_from_bytes)

section \<open>Properties\<close>

text \<open>C8. Every well-formed cell, data or dummy, serialises to exactly \<open>CELL_SIZE\<close> bytes and parses
  back to itself.\<close>

theorem cell_roundtrip:
  assumes "cell_wf c"
  shows "length (to_bytes c) = CELL_SIZE \<and> from_bytes (to_bytes c) = Ok c"
  using assms by (simp add: length_to_bytes cell_codec.dec_enc)

theorem cell_roundtrip_witness:
  "\<exists>c. c_payload_len c = 5 \<and> length (to_bytes c) = CELL_SIZE \<and> from_bytes (to_bytes c) = Ok c"
proof -
  let ?c = "\<lparr>c_version = 1, c_cell_type = Data, c_message_id = replicate 16 7, c_seq_index = 2,
    c_seq_total = 3, c_payload_len = 5, c_payload = replicate 488 9\<rparr>"
  have "cell_wf ?c" by (simp add: cell_wf_def cell_consts)
  from cell_roundtrip [OF this] show ?thesis by (intro exI [of _ ?c]) simp
qed

text \<open>C31. The parser accepts a 512-byte buffer as the cell \<open>c\<close> exactly when \<open>c\<close> is well formed and
  the buffer is its serialisation: nothing malformed is accepted, and no two buffers parse to
  the same cell.\<close>

theorem cell_parse_canonical:
  assumes "length buf = CELL_SIZE"
  shows "from_bytes buf = Ok c \<longleftrightarrow> cell_wf c \<and> buf = to_bytes c"
  using assms by (rule cell_codec.dec_Ok_iff)

theorem cell_parse_canonical_witness:
  "\<exists>buf c. c_cell_type c = Dummy \<and> length buf = CELL_SIZE \<and> from_bytes buf = Ok c"
proof -
  let ?c = "\<lparr>c_version = 1, c_cell_type = Dummy, c_message_id = replicate 16 7, c_seq_index = 0,
    c_seq_total = 1, c_payload_len = 488, c_payload = replicate 488 9\<rparr>"
  have wf: "cell_wf ?c" by (simp add: cell_wf_def cell_consts)
  have len: "length (to_bytes ?c) = CELL_SIZE" by (rule length_to_bytes [OF wf])
  have "from_bytes (to_bytes ?c) = Ok ?c"
    using cell_parse_canonical [OF len, of ?c] wf by simp
  with len show ?thesis by (intro exI [of _ "to_bytes ?c"] exI [of _ ?c]) simp
qed

text \<open>C32. A buffer is accepted exactly under the conditions of the wire format: version 1, a
  known cell type, a payload length within the capacity and an index below the total, all read
  as big-endian numbers; otherwise parsing returns an error and never panics.\<close>

theorem from_bytes_accepts_iff:
  "(is_ok (from_bytes buf) \<longleftrightarrow>
     buf ! 0 = 1 \<and> unat (buf ! 1) \<le> 1 \<and>
     256 * unat (buf ! 22) + unat (buf ! 23) \<le> 488 \<and>
     256 * unat (buf ! 18) + unat (buf ! 19) < 256 * unat (buf ! 20) + unat (buf ! 21)) \<and>
   from_bytes buf \<noteq> Panic"
proof -
  have type: "is_ok (from_u8 v) \<longleftrightarrow> unat v \<le> 1" for v :: byte
  proof -
    have "v = 0 \<longleftrightarrow> unat v = 0" "v = 1 \<longleftrightarrow> unat v = 1"
      by (simp_all add: word_unat_eq_iff)
    then show ?thesis by (auto simp: from_u8_def)
  qed
  have np: "from_u8 v \<noteq> Panic" for v by (simp add: from_u8_def)
  show ?thesis
    using type [of "buf ! 1"] np [of "buf ! 1"]
    unfolding from_bytes_def Let_def seq_bad_iff
    by (cases "from_u8 (buf ! 1)")
      (auto simp: unat_u16_from_be_bytes word_less_nat_alt PAYLOAD_CAPACITY_eq PROTOCOL_VERSION_def)
qed

text \<open>\<open>Cell::new_data\<close> succeeds exactly when the fragment fits and the index is below the total;
  the cell is then well formed, carries the given identifiers, gives the fragment back and pads it
  with zeros.\<close>

lemma new_data_spec:
  assumes "length mid = 16"
  shows "case new_data mid i t d of
      Ok c \<Rightarrow> length d \<le> PAYLOAD_CAPACITY \<and> i < t \<and> cell_wf c \<and> payload_of c = d \<and>
        message_id_of c = mid \<and> seq_index_of c = i \<and> seq_total_of c = t \<and> cell_type_of c = Data \<and>
        drop (length d) (c_payload c) = replicate (PAYLOAD_CAPACITY - length d) 0
    | Err e \<Rightarrow> if PAYLOAD_CAPACITY < length d then e = PayloadTooLarge (length d) PAYLOAD_CAPACITY
        else \<not> i < t \<and> e = InvalidSequence i t
    | Panic \<Rightarrow> False"
proof (cases "new_data mid i t d")
  case (Ok c)
  then have "drop (length d) (c_payload c) = replicate (PAYLOAD_CAPACITY - length d) 0"
    "length d \<le> PAYLOAD_CAPACITY" "i < t"
    by (auto simp: new_data_Ok_iff)
  with Ok new_data_wf [OF Ok assms] new_data_payload [OF Ok] new_data_fields [OF Ok]
  show ?thesis by simp
next
  case (Err e)
  then show ?thesis unfolding new_data_def seq_bad_iff by (auto split: if_splits)
next
  case Panic
  then show ?thesis by (auto simp: new_data_def split: if_splits)
qed

text \<open>On the wire a dummy cell has the size of every data cell, is accepted by the parser, and its
  header carries the same version; only the type byte tells the two apart.\<close>

lemma dummy_uniform:
  assumes "rng_ok X" and "cell_wf c"
  shows "let d = fst (new_dummy X r) in
    length (to_bytes d) = length (to_bytes c) \<and> from_bytes (to_bytes d) = Ok d \<and>
    to_bytes d ! 0 = to_bytes c ! 0 \<and> to_bytes d ! 1 = 1 \<and>
    (to_bytes c ! 1 = to_bytes d ! 1 \<longleftrightarrow> cell_type_of c = Dummy)"
proof -
  obtain d r' where d: "new_dummy X r = (d, r')" by fastforce
  have wf: "cell_wf d" by (rule new_dummy_wf [OF assms(1) d])
  have head: "to_bytes e ! 0 = 1 \<and> to_bytes e ! 1 = cell_type_as_u8 (c_cell_type e)" if "cell_wf e" for e
    using that by (simp add: to_bytes_layout cell_wf_def PROTOCOL_VERSION_def)
  have "c_cell_type d = Dummy"
    using d by (auto simp: new_dummy_def split: prod.splits)
  with head [OF wf] head [OF assms(2)] show ?thesis
    by (cases "c_cell_type c")
      (simp_all add: d length_to_bytes wf assms(2) from_bytes_to_bytes cell_accessors
        cell_type_as_u8_def del: One_nat_def)
qed

end
