(* ===== verification/Crypto.thy ===== *)
theory Crypto
  imports Cell
begin

text \<open>
  \<open>crates/veil-core/src/crypto/keys.rs\<close> and \<open>encryption.rs\<close>: key pairs, shared secrets, key
  derivation, persisted identities, and the encryption of cells. The primitives are the parameter
  \<open>X\<close>; the lemmas show that both ends of an exchange derive one key, that a persisted identity
  is restored, and that decryption inverts encryption and accepts nothing else.
\<close>

section \<open>Keys\<close>

fun zeroize_bytes :: "bytes \<Rightarrow> bytes" where
  "zeroize_bytes [] = []"
| "zeroize_bytes (b # bs) = 0 # zeroize_bytes bs"

record keypair =
  secret :: static_secret
  public :: public_key

datatype shared_secret = SharedSecret (shared_bytes: bytes)

definition generate :: "'r externals \<Rightarrow> 'r \<Rightarrow> keypair \<times> 'r" where
  "generate X r =
     (let (s, r') = random_secret X r in (\<lparr>secret = s, public = public_from X s\<rparr>, r'))"

definition keypair_public_key :: "keypair \<Rightarrow> public_key" where
  "keypair_public_key kp = public kp"

definition diffie_hellman :: "'r externals \<Rightarrow> keypair \<Rightarrow> public_key \<Rightarrow> shared_secret" where
  "diffie_hellman X kp peer_public = SharedSecret (x25519 X (secret kp) peer_public)"

definition to_hex :: "'r externals \<Rightarrow> keypair \<Rightarrow> string" where
  "to_hex X kp = hex_encode X (sk_bytes (secret kp))"

definition from_hex :: "'r externals \<Rightarrow> string \<Rightarrow> (keypair, veil_error) outcome" where
  "from_hex X hex_str =
     and_then (ok_or (InvalidKey ''secret key is not valid hex'') (hex_decode X (trim hex_str)))
       (\<lambda>bytes.
         if length bytes \<noteq> 32
         then Err (InvalidKey ''secret key must decode to exactly 32 bytes'')
         else let s = StaticSecret bytes
              in Ok \<lparr>secret = s, public = public_from X s\<rparr>)"

definition derive_key :: "'r externals \<Rightarrow> shared_secret \<Rightarrow> bytes \<Rightarrow> (bytes, veil_error) outcome" where
  "derive_key X shared context =
     ok_or (InvalidKey ''HKDF expand failed: invalid output length'')
       (hkdf_sha256 X (shared_bytes shared) context 32)"

text \<open>What is left in memory of a shared secret after it is dropped.\<close>

definition drop_shared_secret :: "shared_secret \<Rightarrow> shared_secret" where
  "drop_shared_secret s = SharedSecret (zeroize_bytes (shared_bytes s))"

definition public_key_from_bytes :: "bytes \<Rightarrow> public_key" where
  "public_key_from_bytes bs = PublicKey bs"

definition public_key_to_hex :: "'r externals \<Rightarrow> public_key \<Rightarrow> string" where
  "public_key_to_hex X p = hex_encode X (pk_bytes p)"

section \<open>Encryption of cells\<close>

definition NONCE_SIZE :: nat where "NONCE_SIZE = 12"
definition TAG_SIZE :: nat where "TAG_SIZE = 16"
definition ENCRYPTED_CELL_SIZE :: nat where
  "ENCRYPTED_CELL_SIZE = NONCE_SIZE + CELL_SIZE + TAG_SIZE"

lemmas encryption_consts = NONCE_SIZE_def TAG_SIZE_def ENCRYPTED_CELL_SIZE_def CELL_SIZE_def

text \<open>\<open>out[NONCE_SIZE..].copy_from_slice(&ciphertext)\<close> panics unless the lengths agree.\<close>

definition encrypt_cell :: "'r externals \<Rightarrow> bytes \<Rightarrow> cell \<Rightarrow> 'r
    \<Rightarrow> (bytes, veil_error) outcome \<times> 'r" where
  "encrypt_cell X key cell r =
     (let (nonce_bytes, r') = fill_bytes X NONCE_SIZE r;
          plaintext = to_bytes cell
      in (and_then (ok_or EncryptionFailed (aead_encrypt X key nonce_bytes plaintext))
            (\<lambda>ciphertext.
              let out = replicate ENCRYPTED_CELL_SIZE 0;
                  out = copy_at 0 nonce_bytes out
              in if length ciphertext \<noteq> ENCRYPTED_CELL_SIZE - NONCE_SIZE then Panic
                 else Ok (copy_at NONCE_SIZE ciphertext out)), r'))"

definition decrypt_cell :: "'r externals \<Rightarrow> bytes \<Rightarrow> bytes \<Rightarrow> (cell, veil_error) outcome" where
  "decrypt_cell X key data =
     (let nonce = take NONCE_SIZE data;
          ciphertext = drop NONCE_SIZE data
      in and_then (ok_or DecryptionFailed (aead_decrypt X key nonce ciphertext))
           (\<lambda>plaintext. if length plaintext \<noteq> CELL_SIZE then Panic else from_bytes plaintext))"

section \<open>Lemmas on keys\<close>

definition keypair_wf :: "'r externals \<Rightarrow> keypair \<Rightarrow> bool" where
  "keypair_wf X kp \<longleftrightarrow> length (sk_bytes (secret kp)) = 32 \<and> public kp = public_from X (secret kp)"

lemma generate_wf: "dh_ok X \<Longrightarrow> keypair_wf X (fst (generate X r))"
  by (auto simp: generate_def keypair_wf_def random_secret_length split: prod.splits)

lemma keypair_public_length: "dh_ok X \<Longrightarrow> keypair_wf X kp \<Longrightarrow> length (pk_bytes (public kp)) = 32"
  by (simp add: keypair_wf_def public_from_length)

lemma from_hex_wf: "from_hex X s = Ok kp \<Longrightarrow> keypair_wf X kp"
  by (auto simp: from_hex_def keypair_wf_def Let_def outcome_simps split: if_splits)

lemma from_hex_Ok_iff:
  "from_hex X s = Ok kp \<longleftrightarrow>
     keypair_wf X kp \<and> hex_decode X (trim s) = Some (sk_bytes (secret kp))"
  by (cases kp) (auto simp: from_hex_def keypair_wf_def Let_def outcome_simps split: if_splits)

lemma dh_agree:
  "dh_ok X \<Longrightarrow> keypair_wf X a \<Longrightarrow> keypair_wf X b \<Longrightarrow>
     diffie_hellman X a (public b) = diffie_hellman X b (public a)"
  by (simp add: diffie_hellman_def keypair_wf_def x25519_commute)

lemma derive_key_ok: "hkdf_ok X \<Longrightarrow> \<exists>k. derive_key X s ctx = Ok k \<and> length k = 32"
  using hkdf_32 [of X "shared_bytes s" ctx] by (auto simp: derive_key_def)

lemma derive_key_length: "hkdf_ok X \<Longrightarrow> derive_key X s ctx = Ok k \<Longrightarrow> length k = 32"
  using derive_key_ok [of X s ctx] by auto

lemma hex_digit_plain: "hex_digit c \<Longrightarrow> plain_byte (byte_of_char c)"
  by (auto simp: hex_digit_def plain_byte_def byte_of_char_def)

lemma hex_encode_plain: "hex_ok X \<Longrightarrow> list_all plain_byte (as_bytes (hex_encode X bs))"
  using hex_encode_digits [of X bs] by (auto simp: list_all_iff as_bytes_def hex_digit_plain)

lemma hex_encode_nonempty: "hex_ok X \<Longrightarrow> bs \<noteq> [] \<Longrightarrow> hex_encode X bs \<noteq> []"
  unfolding hex_ok_def by (metis length_0_conv mult_is_0 zero_neq_numeral)

lemma zeroize_bytes_eq: "zeroize_bytes bs = replicate (length bs) 0"
  by (induction bs) simp_all

section \<open>Lemmas on encryption\<close>

lemma encrypt_cell_eq:
  assumes "rng_ok X" "aead_ok X" "length key = 32" "cell_wf c" "fill_bytes X NONCE_SIZE r = (n, r')"
  shows "\<exists>ct. aead_encrypt X key n (to_bytes c) = Some ct \<and> length ct = CELL_SIZE + TAG_SIZE \<and>
    encrypt_cell X key c r = (Ok (n @ ct), r')"
proof -
  have n: "length n = 12"
    using fill_bytes_length_eq [OF assms(1,5)] by (simp add: NONCE_SIZE_def)
  obtain ct where ct: "aead_encrypt X key n (to_bytes c) = Some ct"
    using aead_encrypt_total [OF assms(2,3) n] length_to_bytes [OF assms(4)]
    by (fastforce simp: CELL_SIZE_def aead_max_def)
  have len: "length ct = CELL_SIZE + TAG_SIZE"
    using aead_encrypt_length [OF assms(2,3) n ct] length_to_bytes [OF assms(4)]
    by (simp add: TAG_SIZE_def)
  have "copy_at NONCE_SIZE ct (copy_at 0 n (replicate ENCRYPTED_CELL_SIZE 0)) = n @ ct"
    using n len by (simp add: copy_at_zeros_start copy_at_zeros encryption_consts)
  with assms(5) ct len show ?thesis
    by (simp add: encrypt_cell_def Let_def encryption_consts)
qed

lemma decrypt_cell_Ok_iff:
  assumes "aead_ok X" "length key = 32" "length data = ENCRYPTED_CELL_SIZE"
  shows "decrypt_cell X key data = Ok c \<longleftrightarrow>
    cell_wf c \<and> aead_encrypt X key (take NONCE_SIZE data) (to_bytes c) = Some (drop NONCE_SIZE data)"
    (is "?l \<longleftrightarrow> ?r")
proof
  have n: "length (take NONCE_SIZE data) = 12" using assms(3) by (simp add: encryption_consts)
  note open_iff = aead_decrypt_Some_iff [OF assms(1,2) n]
  {
    assume ?l
    then obtain p where p: "aead_decrypt X key (take NONCE_SIZE data) (drop NONCE_SIZE data) = Some p"
        "length p = CELL_SIZE" "from_bytes p = Ok c"
      by (auto simp: decrypt_cell_def Let_def outcome_simps split: if_splits)
    from cell_codec.dec_Ok_iff [OF p(2), of c] p(3) have "cell_wf c" "p = to_bytes c" by simp_all
    with p(1) open_iff show ?r by simp
  }
  {
    assume ?r
    then have "cell_wf c"
        "aead_decrypt X key (take NONCE_SIZE data) (drop NONCE_SIZE data) = Some (to_bytes c)"
      using open_iff by simp_all
    then show ?l by (simp add: decrypt_cell_def length_to_bytes from_bytes_to_bytes)
  }
qed

lemma decrypt_cell_no_panic:
  assumes "aead_ok X" "length key = 32" "length data = ENCRYPTED_CELL_SIZE"
  shows "decrypt_cell X key data \<noteq> Panic"
proof -
  have n: "length (take NONCE_SIZE data) = 12" using assms(3) by (simp add: encryption_consts)
  have "length p = CELL_SIZE"
    if "aead_decrypt X key (take NONCE_SIZE data) (drop NONCE_SIZE data) = Some p" for p
  proof -
    from that have "aead_encrypt X key (take NONCE_SIZE data) p = Some (drop NONCE_SIZE data)"
      by (simp add: aead_decrypt_Some_iff [OF assms(1,2) n])
    from aead_encrypt_length [OF assms(1,2) n this] assms(3) show ?thesis
      by (simp add: encryption_consts)
  qed
  then show ?thesis
    by (cases "aead_decrypt X key (take NONCE_SIZE data) (drop NONCE_SIZE data)")
      (simp_all add: decrypt_cell_def from_bytes_no_panic)
qed

lemma encrypt_cell_roundtrip:
  assumes "rng_ok X" "aead_ok X" "length key = 32" "cell_wf c"
  shows "\<exists>frame r'. encrypt_cell X key c r = (Ok frame, r') \<and> length frame = ENCRYPTED_CELL_SIZE \<and>
    decrypt_cell X key frame = Ok c"
proof -
  obtain n r' where n: "fill_bytes X NONCE_SIZE r = (n, r')" by fastforce
  obtain ct where ct: "aead_encrypt X key n (to_bytes c) = Some ct" "length ct = CELL_SIZE + TAG_SIZE"
      "encrypt_cell X key c r = (Ok (n @ ct), r')"
    using encrypt_cell_eq [OF assms n] by blast
  have len: "length n = NONCE_SIZE" using fill_bytes_length_eq [OF assms(1) n] .
  with ct(2) have "length (n @ ct) = ENCRYPTED_CELL_SIZE" by (simp add: ENCRYPTED_CELL_SIZE_def)
  moreover from this have "decrypt_cell X key (n @ ct) = Ok c"
    using decrypt_cell_Ok_iff [OF assms(2,3)] assms(4) ct(1) len by simp
  ultimately show ?thesis using ct(3) by blast
qed

section \<open>Properties\<close>

text \<open>C29. A cell encrypted under a 32-byte key is a frame of exactly \<open>ENCRYPTED_CELL_SIZE\<close>
  (540) bytes whatever the cell holds, dummy or data, and decrypting it under the same key gives
  the cell back.\<close>

theorem encrypt_decrypt_cell:
  assumes "rng_ok X" "aead_ok X" "length key = 32" "cell_wf c"
  shows "\<exists>frame r'. encrypt_cell X key c r = (Ok frame, r') \<and> length frame = ENCRYPTED_CELL_SIZE \<and>
    decrypt_cell X key frame = Ok c"
  using encrypt_cell_roundtrip [OF assms] .

theorem encrypt_decrypt_cell_witness:
  "\<exists>frame r'. encrypt_cell demo (replicate 32 5) (fst (new_dummy demo 3)) 9 = (Ok frame, r') \<and>
    length frame = 540 \<and> decrypt_cell demo (replicate 32 5) frame = Ok (fst (new_dummy demo 3))"
proof -
  have "cell_wf (fst (new_dummy demo 3))"
    using new_dummy_wf [OF demo_rng_ok] by (metis prod.collapse)
  from encrypt_decrypt_cell [OF demo_rng_ok demo_aead_ok _ this, of "replicate 32 5" 9]
  show ?thesis by (simp add: encryption_consts)
qed

text \<open>C30. Decrypting a 540-byte frame under a 32-byte key never panics, and gives a cell exactly
  when the cell is well formed and the frame is its encryption under that key and the nonce the
  frame carries: a tampered frame, or a frame with a malformed cell inside, is an error.\<close>

theorem decrypt_cell_authentic:
  assumes "aead_ok X" "length key = 32" "length data = ENCRYPTED_CELL_SIZE"
  shows "decrypt_cell X key data \<noteq> Panic \<and>
    (decrypt_cell X key data = Ok c \<longleftrightarrow>
       cell_wf c \<and> aead_encrypt X key (take NONCE_SIZE data) (to_bytes c) = Some (drop NONCE_SIZE data))"
  using decrypt_cell_no_panic [OF assms] decrypt_cell_Ok_iff [OF assms] by blast

theorem decrypt_cell_authentic_witness:
  "\<forall>c. decrypt_cell demo (replicate 32 5) (replicate 540 0) \<noteq> Ok c"
proof
  fix c
  define frame :: bytes where "frame = replicate 540 0"
  define key :: bytes where "key = replicate 32 5"
  have dec: "decrypt_cell demo key frame = Ok c \<longleftrightarrow> cell_wf c \<and>
      aead_encrypt demo key (take NONCE_SIZE frame) (to_bytes c) = Some (drop NONCE_SIZE frame)"
    by (rule conjunct2 [OF decrypt_cell_authentic [OF demo_aead_ok]])
      (simp_all add: key_def frame_def encryption_consts)
  have "(5 :: byte) \<in> set ct" if "aead_encrypt demo key n p = Some ct" for n p ct
    using that by (auto simp: demo_def demo_seal_def key_def)
  moreover have "(5 :: byte) \<notin> set (drop NONCE_SIZE frame)"
    by (auto simp: frame_def dest!: in_set_dropD)
  ultimately show "decrypt_cell demo (replicate 32 5) (replicate 540 0) \<noteq> Ok c"
    using dec unfolding key_def frame_def by blast
qed

text \<open>An identity survives being persisted: for every generated key pair, the hexadecimal text of
  the secret, with any ASCII blanks around it in the file, is read back to the same key pair.\<close>

lemma keypair_hex_roundtrip:
  assumes "dh_ok X" "hex_ok X"
    and "list_all blank_byte (as_bytes before)" "list_all blank_byte (as_bytes after)"
  shows "from_hex X (before @ to_hex X (fst (generate X r)) @ after) = Ok (fst (generate X r))"
proof -
  let ?kp = "fst (generate X r)"
  have wf: "length (sk_bytes (secret ?kp)) = 32" "public ?kp = public_from X (secret ?kp)"
    using generate_wf [OF assms(1), of r] by (simp_all add: keypair_wf_def)
  have "trim (before @ to_hex X ?kp @ after) = to_hex X ?kp"
    unfolding to_hex_def
    using assms wf(1)
    by (intro trim_blanks hex_encode_plain hex_encode_nonempty) auto
  then show ?thesis
    using generate_wf [OF assms(1), of r]
    by (simp add: from_hex_Ok_iff to_hex_def hex_decode_encode [OF assms(2)])
qed

text \<open>Both ends of a key exchange derive the same 32-byte key for a given context, and dropping
  a shared secret leaves only zero bytes of it.\<close>

lemma key_agreement:
  assumes "dh_ok X" "hkdf_ok X" "keypair_wf X a" "keypair_wf X b"
  shows "\<exists>key. length key = 32 \<and>
    derive_key X (diffie_hellman X a (keypair_public_key b)) ctx = Ok key \<and>
    derive_key X (diffie_hellman X b (keypair_public_key a)) ctx = Ok key \<and>
    drop_shared_secret (diffie_hellman X a (keypair_public_key b)) = SharedSecret (replicate 32 0)"
proof -
  have "length (x25519 X (secret a) (public b)) = 32"
    using assms keypair_public_length [OF assms(1,4)] by (simp add: keypair_wf_def x25519_length)
  then have "drop_shared_secret (diffie_hellman X a (public b)) = SharedSecret (replicate 32 0)"
    by (simp add: drop_shared_secret_def diffie_hellman_def zeroize_bytes_eq)
  then show ?thesis
    using derive_key_ok [OF assms(2), of "diffie_hellman X a (public b)" ctx]
      dh_agree [OF assms(1,3,4)]
    by (auto simp: keypair_public_key_def)
qed

end
