(* ===== verification/Forwarding.thy ===== *)
theory Forwarding
  imports Crypto
begin

text \<open>
  \<open>crates/veil-relay/src/forwarding.rs\<close>: the onion payload and its encoding, building and peeling
  one onion layer, and length-prefixed frames on a stream. The payload encoding is a
  \<open>strict_codec\<close>, frames are a \<open>stream_codec\<close>; peeling inverts building for the relay the
  layer is addressed to and accepts nothing that was not sealed under the exchanged key.
\<close>

section \<open>Constants, errors and payloads\<close>

definition EPHEMERAL_KEY_SIZE :: nat where "EPHEMERAL_KEY_SIZE = 32"
definition ONION_NONCE_SIZE :: nat where "ONION_NONCE_SIZE = 12"
definition ONION_TAG_SIZE :: nat where "ONION_TAG_SIZE = 16"
definition ONION_KEY_CONTEXT :: bytes where "ONION_KEY_CONTEXT = as_bytes ''veil-onion-layer-v1''"

lemmas onion_consts = EPHEMERAL_KEY_SIZE_def ONION_NONCE_SIZE_def ONION_TAG_SIZE_def

datatype onion_error = FrameTooShort | LayerDecryptionFailed | Malformed | KeyDerivation

datatype onion_payload =
    Forward (next_hop: string) (body: bytes)
  | Deliver (body: bytes)

section \<open>Payload encoding\<close>

definition encode_payload :: "onion_payload \<Rightarrow> bytes" where
  "encode_payload payload =
     (case payload of
        Forward hop b \<Rightarrow>
          (let hop_bytes = as_bytes hop
           in [0] @ u16_to_be_bytes (of_nat (length hop_bytes)) @ hop_bytes @ b)
      | Deliver b \<Rightarrow> [1] @ b)"

definition decode_payload :: "bytes \<Rightarrow> (onion_payload, onion_error) outcome" where
  "decode_payload bs =
     (case bs of
        [] \<Rightarrow> Err Malformed
      | flag # rest \<Rightarrow>
          if flag = 0 then
            (if length rest < 2 then Err Malformed
             else let hop_len = unat (u16_from_be_bytes [rest ! 0, rest ! 1]);
                      rest = drop 2 rest
                  in if length rest < hop_len then Err Malformed
                     else and_then (ok_or Malformed (from_utf8 (take hop_len rest))) (\<lambda>hop.
                       Ok (Forward hop (drop hop_len rest))))
          else if flag = 1 then Ok (Deliver rest)
          else Err Malformed)"

section \<open>Onion layers\<close>

definition derive_key_from_bytes :: "'r externals \<Rightarrow> bytes \<Rightarrow> (bytes, onion_error) outcome" where
  "derive_key_from_bytes X shared_secret =
     ok_or KeyDerivation (hkdf_sha256 X shared_secret ONION_KEY_CONTEXT 32)"

definition build_onion_layer :: "'r externals \<Rightarrow> public_key \<Rightarrow> onion_payload \<Rightarrow> 'r
    \<Rightarrow> (bytes, onion_error) outcome \<times> 'r" where
  "build_onion_layer X relay_public payload r =
     (let (ephemeral, r1) = random_secret X r;
          ephemeral_public = public_from X ephemeral;
          shared = x25519 X ephemeral relay_public
      in case derive_key_from_bytes X shared of
           Err e \<Rightarrow> (Err e, r1)
         | Panic \<Rightarrow> (Panic, r1)
         | Ok key \<Rightarrow>
             (let plaintext = encode_payload payload;
                  (nonce_bytes, r2) = fill_bytes X ONION_NONCE_SIZE r1
              in (and_then (ok_or KeyDerivation (aead_encrypt X key nonce_bytes plaintext))
                    (\<lambda>ciphertext. Ok (pk_bytes ephemeral_public @ nonce_bytes @ ciphertext)), r2)))"

definition peel_onion_layer :: "'r externals \<Rightarrow> keypair \<Rightarrow> bytes
    \<Rightarrow> (onion_payload, onion_error) outcome" where
  "peel_onion_layer X kp frame =
     (if length frame < EPHEMERAL_KEY_SIZE + ONION_NONCE_SIZE + ONION_TAG_SIZE then Err FrameTooShort
      else let ephemeral_public = PublicKey (take EPHEMERAL_KEY_SIZE frame);
               shared = diffie_hellman X kp ephemeral_public
           in and_then (map_err (\<lambda>_. KeyDerivation) (derive_key X shared ONION_KEY_CONTEXT)) (\<lambda>key.
                let nonce = sub_slice EPHEMERAL_KEY_SIZE (EPHEMERAL_KEY_SIZE + ONION_NONCE_SIZE) frame;
                    ciphertext = drop (EPHEMERAL_KEY_SIZE + ONION_NONCE_SIZE) frame
                in and_then (ok_or LayerDecryptionFailed (aead_decrypt X key nonce ciphertext))
                     decode_payload))"

section \<open>Frames\<close>

text \<open>The bytes \<open>write_frame\<close> puts on its writer, and what \<open>read_frame\<close> takes off its reader.\<close>

definition write_frame :: "bytes \<Rightarrow> bytes" where
  "write_frame b = u32_to_be_bytes (of_nat (length b)) @ b"

definition read_frame :: "bytes \<Rightarrow> (bytes \<times> bytes, io_error) outcome" where
  "read_frame s =
     and_then (read_exact 4 s) (\<lambda>(len_buf, s).
       let len = unat (u32_from_be_bytes len_buf) in read_exact len s)"

section \<open>Lemmas on payloads\<close>

definition payload_valid :: "onion_payload \<Rightarrow> bool" where
  "payload_valid p = (case p of Forward hop _ \<Rightarrow> valid_str hop \<and> length hop < 65536 | Deliver _ \<Rightarrow> True)"

lemma payload_valid_simps [simp]:
  "payload_valid (Forward hop b) \<longleftrightarrow> valid_str hop \<and> length hop < 65536"
  "payload_valid (Deliver b)"
  by (simp_all add: payload_valid_def)

lemma length_encode_payload:
  "length (encode_payload (Forward hop b)) = 3 + length hop + length b"
  "length (encode_payload (Deliver b)) = 1 + length b"
  by (simp_all add: encode_payload_def)

lemma decode_forward:
  "decode_payload ([0] @ u16_to_be_bytes w @ rest) =
     (if length rest < unat w then Err Malformed
      else and_then (ok_or Malformed (from_utf8 (take (unat w) rest)))
        (\<lambda>hop. Ok (Forward hop (drop (unat w) rest))))"
proof -
  obtain a b where w: "u16_to_be_bytes w = [a, b]" using u16_bytes_pair by blast
  have "u16_from_be_bytes [a, b] = w" by (simp flip: w)
  then show ?thesis by (simp add: w decode_payload_def Let_def)
qed

lemma decode_encode_payload: "payload_valid p \<Longrightarrow> decode_payload (encode_payload p) = Ok p"
  by (cases p)
    (auto simp: encode_payload_def decode_forward [simplified] unat_of_nat_u16 from_utf8_as_bytes
      decode_payload_def [of "1 # _"])

lemma encode_decode_payload:
  assumes "decode_payload bs = Ok p"
  shows "payload_valid p \<and> encode_payload p = bs"
proof (cases bs)
  case Nil
  with assms show ?thesis by (simp add: decode_payload_def)
next
  case (Cons flag rest)
  show ?thesis
  proof (cases "flag = 0")
    case True
    with assms Cons have "2 \<le> length rest"
      by (auto simp: decode_payload_def split: if_splits)
    define w where "w = u16_from_be_bytes (take 2 rest)"
    have bs: "bs = [0] @ u16_to_be_bytes w @ drop 2 rest"
      using True Cons \<open>2 \<le> length rest\<close> by (simp add: w_def u16_to_from_be_bytes)
    from assms obtain hop where hop: "unat w \<le> length (drop 2 rest)" "valid_str hop"
        "take (unat w) (drop 2 rest) = as_bytes hop" "p = Forward hop (drop (unat w) (drop 2 rest))"
      unfolding bs decode_forward
      by (auto simp: outcome_simps from_utf8_Some_iff split: if_splits)
    from hop(1,3) have "unat w = length hop"
      by (metis length_as_bytes length_take min.absorb2)
    then have len: "length hop < 65536" "w = of_nat (length hop)"
      using unat_u16_less [of w] by (simp_all flip: \<open>unat w = length hop\<close>)
    have "encode_payload p = [0] @ u16_to_be_bytes w @ as_bytes hop @ drop (unat w) (drop 2 rest)"
      using hop(4) len(2) by (simp add: encode_payload_def)
    also have "\<dots> = bs"
      unfolding bs by (simp only: append_take_drop_id flip: hop(3))
    finally show ?thesis using hop len by simp
  next
    case False
    with assms Cons show ?thesis
      by (auto simp: decode_payload_def encode_payload_def split: if_splits)
  qed
qed

interpretation payload_codec: strict_codec encode_payload decode_payload payload_valid "\<lambda>_. True"
  by unfold_locales (auto simp: decode_encode_payload encode_decode_payload)

lemma decode_payload_no_panic: "decode_payload bs \<noteq> Panic"
  by (auto simp: decode_payload_def Let_def outcome_simps split: list.splits if_splits)

lemma utf8_take_ascii: "ascii s \<Longrightarrow> from_utf8 (take n (as_bytes s)) = Some (take n s)"
proof -
  assume "ascii s"
  then have "ascii (take n s)" by (auto simp: ascii_def list_all_iff dest: in_set_takeD)
  from from_utf8_as_bytes [OF ascii_valid_str [OF this]] show ?thesis
    by (simp add: as_bytes_def take_map)
qed

lemma drop_as_bytes: "drop n (as_bytes s) = as_bytes (drop n s)"
  by (simp add: as_bytes_def drop_map)

section \<open>Lemmas on frames\<close>

lemma read_write_frame: "length b < 4294967296 \<Longrightarrow> read_frame (write_frame b @ rest) = Ok (b, rest)"
  by (simp add: read_frame_def write_frame_def unat_of_nat_u32)

interpretation frames: stream_codec write_frame read_frame "\<lambda>b. length b < 4294967296"
  by unfold_locales (rule read_write_frame)

lemma read_frame_Ok_iff [outcome_simps]:
  "read_frame s = Ok (b, rest) \<longleftrightarrow> s = write_frame b @ rest \<and> length b < 4294967296"
proof
  assume "read_frame s = Ok (b, rest)"
  then obtain h where h: "length h = 4" "s = h @ b @ rest" "length b = unat (u32_from_be_bytes h)"
    by (auto simp: read_frame_def outcome_simps)
  then have "length b < 4294967296" "u32_to_be_bytes (of_nat (length b)) = h"
    using unat_u32_less [of "u32_from_be_bytes h"] by (simp_all add: u32_to_from_be_bytes)
  with h show "s = write_frame b @ rest \<and> length b < 4294967296"
    by (simp add: write_frame_def)
qed (auto simp: read_write_frame)

lemma read_frame_Err: "read_frame s = Err e \<Longrightarrow> e = UnexpectedEof"
  by (auto simp: read_frame_def outcome_simps split: prod.splits)

lemma read_frame_no_panic [simp]: "read_frame s \<noteq> Panic"
  by (auto simp: read_frame_def outcome_simps split: prod.splits)

lemma length_read_frame: "read_frame s = Ok (b, rest) \<Longrightarrow> length rest < length s"
  by (auto simp: outcome_simps write_frame_def)

section \<open>Lemmas on layers\<close>

text \<open>The key a relay derives for a frame, and the key the sender derives.\<close>

definition layer_key :: "'r externals \<Rightarrow> keypair \<Rightarrow> bytes \<Rightarrow> bytes option" where
  "layer_key X kp frame =
     hkdf_sha256 X (x25519 X (secret kp) (PublicKey (take EPHEMERAL_KEY_SIZE frame))) ONION_KEY_CONTEXT 32"

lemma layer_key_exists: "hkdf_ok X \<Longrightarrow> \<exists>key. layer_key X kp frame = Some key \<and> length key = 32"
  unfolding layer_key_def by (rule hkdf_32)

lemma peel_eq:
  assumes "layer_key X kp frame = Some key" "60 \<le> length frame"
  shows "peel_onion_layer X kp frame =
    and_then (ok_or LayerDecryptionFailed (aead_decrypt X key (sub_slice 32 44 frame) (drop 44 frame)))
      decode_payload"
  using assms
  by (simp add: peel_onion_layer_def layer_key_def onion_consts diffie_hellman_def derive_key_def Let_def)

lemma build_eq:
  assumes laws: "rng_ok X" "dh_ok X" "hkdf_ok X" "aead_ok X"
    and relay: "keypair_wf X kp" and size: "length (encode_payload p) < aead_max"
  shows "\<exists>epk nonce ct key r'. build_onion_layer X (public kp) p r = (Ok (epk @ nonce @ ct), r') \<and>
    length epk = 32 \<and> length nonce = 12 \<and> length key = 32 \<and>
    layer_key X kp epk = Some key \<and> aead_encrypt X key nonce (encode_payload p) = Some ct"
proof -
  obtain e r1 where e: "random_secret X r = (e, r1)" by fastforce
  obtain nonce r2 where n: "fill_bytes X ONION_NONCE_SIZE r1 = (nonce, r2)" by fastforce
  have len: "length (sk_bytes e) = 32" "length nonce = 12" "length (sk_bytes (secret kp)) = 32"
    using random_secret_length [OF laws(2) e] fill_bytes_length_eq [OF laws(1) n] relay
    by (simp_all add: onion_consts keypair_wf_def)
  let ?epk = "pk_bytes (public_from X e)"
  have epk: "length ?epk = 32" by (rule public_from_length [OF laws(2) len(1)])
  obtain key where key: "layer_key X kp ?epk = Some key" "length key = 32"
    using layer_key_exists [OF laws(3)] by blast
  have "derive_key_from_bytes X (x25519 X e (public kp)) = Ok key"
    using key(1) epk relay x25519_commute [OF laws(2) len(1,3)]
    by (simp add: derive_key_from_bytes_def layer_key_def keypair_wf_def onion_consts)
  moreover obtain ct where "aead_encrypt X key nonce (encode_payload p) = Some ct"
    using aead_encrypt_total [OF laws(4) key(2) len(2) size] by blast
  ultimately show ?thesis
    using e n epk key len(2)
    by (intro exI [of _ ?epk] exI [of _ nonce] exI [of _ ct] exI [of _ key] exI [of _ r2])
      (simp add: build_onion_layer_def)
qed

lemma layer_key_append: "length epk = 32 \<Longrightarrow> layer_key X kp (epk @ rest) = layer_key X kp epk"
  by (simp add: layer_key_def onion_consts)

text \<open>Overhead of one layer: ephemeral key, nonce and tag.\<close>

lemma build_peel:
  assumes "rng_ok X" "dh_ok X" "hkdf_ok X" "aead_ok X" "keypair_wf X kp"
    and "length (encode_payload p) < aead_max" "payload_valid p"
  shows "\<exists>frame r'. build_onion_layer X (public kp) p r = (Ok frame, r') \<and>
    length frame = 60 + length (encode_payload p) \<and> peel_onion_layer X kp frame = Ok p"
proof -
  obtain epk nonce ct key r' where b:
      "build_onion_layer X (public kp) p r = (Ok (epk @ nonce @ ct), r')"
      "length epk = 32" "length nonce = 12" "length key = 32"
      "layer_key X kp epk = Some key" "aead_encrypt X key nonce (encode_payload p) = Some ct"
    using build_eq [OF assms(1-6)] by blast
  have ct: "length ct = length (encode_payload p) + 16"
    "aead_decrypt X key nonce ct = Some (encode_payload p)"
    using aead_encrypt_length [OF assms(4) b(4,3,6)] aead_decrypt_encrypt [OF assms(4) b(4,3,6)] .
  have "peel_onion_layer X kp (epk @ nonce @ ct) = Ok p"
    using peel_eq [of X kp "epk @ nonce @ ct" key] b ct
    by (simp add: layer_key_append sub_slice_def payload_codec.dec_enc [OF assms(7)])
  with b ct show ?thesis by auto
qed

lemma peel_no_panic: "peel_onion_layer X kp frame \<noteq> Panic"
  by (auto simp: peel_onion_layer_def Let_def outcome_simps decode_payload_no_panic derive_key_def)

lemma peel_Ok_iff:
  assumes "hkdf_ok X" "aead_ok X"
  shows "peel_onion_layer X kp frame = Ok p \<longleftrightarrow>
    60 \<le> length frame \<and> payload_valid p \<and>
    (\<exists>key. hkdf_sha256 X (x25519 X (secret kp) (PublicKey (take 32 frame))) ONION_KEY_CONTEXT 32 = Some key \<and>
      aead_encrypt X key (sub_slice 32 44 frame) (encode_payload p) = Some (drop 44 frame))"
proof (cases "60 \<le> length frame")
  case True
  obtain key where key: "layer_key X kp frame = Some key" "length key = 32"
    using layer_key_exists [OF assms(1)] by blast
  have n: "length (sub_slice 32 44 frame) = 12" using True by (simp add: sub_slice_def)
  have "peel_onion_layer X kp frame = Ok p \<longleftrightarrow>
      payload_valid p \<and> aead_encrypt X key (sub_slice 32 44 frame) (encode_payload p) = Some (drop 44 frame)"
    unfolding peel_eq [OF key(1) True]
    using payload_codec.dec_Ok_iff [OF TrueI, of _ p] aead_decrypt_Some_iff [OF assms(2) key(2) n]
    by (auto simp: outcome_simps)
  with True key(1) show ?thesis
    by (simp add: layer_key_def onion_consts)
next
  case False
  then show ?thesis by (simp add: peel_onion_layer_def onion_consts)
qed

section \<open>Properties\<close>

text \<open>C15. An onion layer built for a relay's public key is 60 bytes longer than its encoded
  payload, and the relay peels it back to exactly that payload, for every payload whose next
  hop is a valid string of fewer than 65536 bytes.\<close>

theorem onion_layer_roundtrip:
  assumes "rng_ok X" "dh_ok X" "hkdf_ok X" "aead_ok X" "keypair_wf X kp"
    and "length (encode_payload p) < aead_max" "payload_valid p"
  shows "\<exists>frame r'. build_onion_layer X (keypair_public_key kp) p r = (Ok frame, r') \<and>
    length frame = 60 + length (encode_payload p) \<and> peel_onion_layer X kp frame = Ok p"
  using build_peel [OF assms] by (simp add: keypair_public_key_def)

theorem onion_layer_roundtrip_witness:
  "\<exists>frame r'. build_onion_layer demo (keypair_public_key (fst (generate demo 1)))
      (Forward ''127.0.0.1:9002'' [1, 2, 3]) 7 = (Ok frame, r') \<and> length frame = 80 \<and>
    peel_onion_layer demo (fst (generate demo 1)) frame = Ok (Forward ''127.0.0.1:9002'' [1, 2, 3])"
proof -
  have "valid_str ''127.0.0.1:9002''" by (rule ascii_valid_str) code_simp
  then show ?thesis
    using onion_layer_roundtrip [OF demo_rng_ok demo_dh_ok demo_hkdf_ok demo_aead_ok
        generate_wf [OF demo_dh_ok], of "Forward ''127.0.0.1:9002'' [1, 2, 3]" 1 7]
    by (simp add: length_encode_payload aead_max_def)
qed

text \<open>C16. Peeling an arbitrary frame never panics; it accepts a frame as a payload exactly when the
  frame has room for key, nonce and tag and its ciphertext is the encryption of the encoding of
  that payload under the key exchanged with the frame's ephemeral key: forged or corrupted layers
  are rejected.\<close>

theorem peel_authentic:
  assumes "hkdf_ok X" "aead_ok X"
  shows "peel_onion_layer X kp frame \<noteq> Panic \<and>
    (peel_onion_layer X kp frame = Ok p \<longleftrightarrow>
      60 \<le> length frame \<and> payload_valid p \<and>
      (\<exists>key. hkdf_sha256 X (x25519 X (secret kp) (PublicKey (take 32 frame))) ONION_KEY_CONTEXT 32 = Some key \<and>
        aead_encrypt X key (sub_slice 32 44 frame) (encode_payload p) = Some (drop 44 frame)))"
  using peel_no_panic peel_Ok_iff [OF assms] by blast

theorem peel_authentic_witness:
  "\<forall>p. peel_onion_layer demo (fst (generate demo 1)) (replicate 59 0) \<noteq> Ok p"
  using peel_authentic [OF demo_hkdf_ok demo_aead_ok, of "fst (generate demo 1)" "replicate 59 0"]
  by simp

text \<open>The decoder of onion payloads accepts exactly the encodings of valid payloads, each
  payload has one encoding, and decoding never panics.\<close>

lemma payload_decode_canonical:
  "(decode_payload bs = Ok p \<longleftrightarrow> payload_valid p \<and> bs = encode_payload p) \<and>
   decode_payload bs \<noteq> Panic"
  using payload_codec.dec_Ok_iff [OF TrueI, of bs p] by (simp add: decode_payload_no_panic)

text \<open>C34. The length of the next hop is cast to sixteen bits: for an ASCII address of 65536 bytes or
  more the decoder cuts the address at its length modulo 65536 and gives the rest of it back as
  the head of the body.\<close>

theorem long_hop_truncated:
  assumes "65536 \<le> length hop" "ascii hop"
  shows "decode_payload (encode_payload (Forward hop b)) =
    Ok (Forward (take (length hop mod 65536) hop) (as_bytes (drop (length hop mod 65536) hop) @ b))"
proof -
  define m where "m = length hop mod 65536"
  have "unat (of_nat (length hop) :: u16) = m" "m \<le> length hop" by (simp_all add: m_def unat_of_nat)
  then show ?thesis
    unfolding m_def [symmetric]
    by (simp add: encode_payload_def decode_forward [simplified] utf8_take_ascii assms(2)
        drop_as_bytes)
qed

theorem long_hop_truncated_witness:
  "decode_payload (encode_payload (Forward (replicate 65537 CHR ''a'') [])) =
     Ok (Forward ''a'' (as_bytes (replicate 65536 CHR ''a'')))"
proof -
  have "ascii (replicate 65537 CHR ''a'')" by (simp add: ascii_def list_all_iff)
  from long_hop_truncated [OF _ this, of "[]"] show ?thesis by simp
qed

text \<open>Frames written one after the other on a connection are read back one by one, in order,
  whatever follows them, as long as each is shorter than 2^32 bytes; a read never panics and its
  only error is the end of the stream.\<close>

lemma frames_in_order:
  assumes "list_all (\<lambda>b. length b < 4294967296) bodies"
  shows "read_many read_frame (length bodies) (concat (map write_frame bodies) @ rest) =
      Ok (bodies, rest) \<and>
    (\<forall>s e. read_frame s \<noteq> Panic \<and> (read_frame s = Err e \<longrightarrow> e = UnexpectedEof))"
  using frames.read_many_puts [OF assms] read_frame_Err by simp

end
