(* ===== verification/Keyed_Store.thy ===== *)
theory Keyed_Store
  imports Prelude "HOL-Library.AList"
begin

text \<open>
  The contract of a collection whose elements carry their own key, as its clients use it: adding
  an element replaces the one with the same key. The clients' lemmas on adding many elements are
  proved once here: loading a topology file and discovering a topology both add relays one after
  the other. The topology is its interpretation.
\<close>

locale keyed_store =
  fixes empty :: 's
    and add :: "'s \<Rightarrow> 'v \<Rightarrow> 's"
    and get :: "'s \<Rightarrow> 'k \<Rightarrow> 'v option"
    and size_of :: "'s \<Rightarrow> nat"
    and inv :: "'s \<Rightarrow> bool"
    and key :: "'v \<Rightarrow> 'k"
  assumes inv_empty: "inv empty"
    and inv_add: "inv s \<Longrightarrow> inv (add s v)"
    and get_empty: "get empty k = None"
    and get_add: "get (add s v) k = (if k = key v then Some v else get s k)"
    and get_key: "inv s \<Longrightarrow> get s k = Some v \<Longrightarrow> key v = k"
    and size_dom: "inv s \<Longrightarrow> finite (dom (get s)) \<and> size_of s = card (dom (get s))"
begin

definition add_all :: "'s \<Rightarrow> 'v list \<Rightarrow> 's" where
  "add_all s vs = foldl add s vs"

lemma add_all_simps: "add_all s [] = s" "add_all s (v # vs) = add_all (add s v) vs"
  by (simp_all add: add_all_def)

lemma inv_add_all: "inv s \<Longrightarrow> inv (add_all s vs)"
  by (induction vs arbitrary: s) (auto simp: add_all_simps inv_add)

text \<open>After adding many elements, the last one with a given key is found.\<close>

lemma get_add_all:
  "get (add_all s vs) k = (case find (\<lambda>v. key v = k) (rev vs) of Some v \<Rightarrow> Some v | None \<Rightarrow> get s k)"
proof (induction vs arbitrary: s)
  case (Cons v vs)
  have "find P (xs @ [x]) = (case find P xs of Some y \<Rightarrow> Some y | None \<Rightarrow> if P x then Some x else None)"
    for P and xs and x :: 'v
    by (induction xs) auto
  with Cons show ?case by (simp add: add_all_simps get_add split: option.splits)
qed (simp add: add_all_simps)

lemma get_add_all_mem:
  assumes "get (add_all empty vs) k = Some v"
  shows "v \<in> set vs"
proof -
  have "find (\<lambda>v. key v = k) (rev vs) = Some v"
    using assms by (auto simp: get_add_all get_empty split: option.splits)
  then have "v \<in> set (rev vs)" by (metis find_Some_iff nth_mem)
  then show ?thesis by simp
qed

lemma get_add_all_distinct:
  assumes "distinct (map key vs)" "v \<in> set vs"
  shows "get (add_all s vs) (key v) = Some v"
proof -
  have "find (\<lambda>w. key w = key v) (rev vs) = Some v"
    using assms by (induction vs rule: rev_induct) force+
  then show ?thesis by (simp add: get_add_all)
qed

lemma get_add_all_notin: "k \<notin> key ` set vs \<Longrightarrow> get (add_all s vs) k = get s k"
  by (induction vs arbitrary: s) (auto simp: add_all_simps get_add)

lemma dom_add_all: "dom (get (add_all empty vs)) = key ` set vs"
proof -
  have "dom (get (add_all s vs)) = dom (get s) \<union> key ` set vs" for s
    by (induction vs arbitrary: s) (auto simp: add_all_simps get_add dom_def)
  then show ?thesis by (auto simp: get_empty dom_def)
qed

lemma size_add_all: "size_of (add_all empty vs) = card (key ` set vs)"
  using size_dom [OF inv_add_all [OF inv_empty]] by (simp add: dom_add_all)

lemma size_add:
  "inv s \<Longrightarrow> size_of (add s v) = (if get s (key v) = None then Suc (size_of s) else size_of s)"
proof -
  assume s: "inv s"
  have "dom (get (add s v)) = insert (key v) (dom (get s))" by (auto simp: get_add dom_def)
  moreover have "finite (dom (get s))" using size_dom [OF s] by simp
  ultimately show ?thesis
    using size_dom [OF s] size_dom [OF inv_add [OF s]] by (auto simp: card_insert_if domIff)
qed

end

end
