(* ===== verification/Topology.thy ===== *)
theory Topology
  imports Forwarding Keyed_Store
begin

text \<open>
  \<open>crates/veil-routing/src/topology.rs\<close>: the relays a client knows, a hash map from relay
  identifiers. The map is an association list with distinct keys; \<open>all\<close> visits it in the order
  the parameter \<open>hash_order\<close> gives. A topology is a \<open>keyed_store\<close> of its relays.
\<close>

section \<open>Definitions\<close>

record relay_info =
  r_id :: string
  r_address :: string
  r_public_key :: public_key

record topology =
  relays :: "(string \<times> relay_info) list"

definition topology_new :: topology where
  "topology_new = \<lparr>relays = []\<rparr>"

definition add_relay :: "topology \<Rightarrow> relay_info \<Rightarrow> topology" where
  "add_relay t relay = t\<lparr>relays := AList.update (r_id relay) relay (relays t)\<rparr>"

definition topology_get :: "topology \<Rightarrow> string \<Rightarrow> relay_info option" where
  "topology_get t i = map_of (relays t) i"

definition topology_all :: "'r externals \<Rightarrow> topology \<Rightarrow> relay_info list" where
  "topology_all X t = permute (hash_order X (map fst (relays t))) (map snd (relays t))"

definition topology_len :: "topology \<Rightarrow> nat" where
  "topology_len t = length (relays t)"

definition topology_is_empty :: "topology \<Rightarrow> bool" where
  "topology_is_empty t = (relays t = [])"

section \<open>Invariant and contract\<close>

definition topology_inv :: "topology \<Rightarrow> bool" where
  "topology_inv t \<longleftrightarrow> distinct (map fst (relays t)) \<and> (\<forall>(k, v) \<in> set (relays t). r_id v = k)"

lemma topology_inv_new: "topology_inv topology_new"
  by (simp add: topology_inv_def topology_new_def)

lemma topology_inv_add: "topology_inv t \<Longrightarrow> topology_inv (add_relay t r)"
proof -
  assume t: "topology_inv t"
  have "set (AList.update k v xs) \<subseteq> insert (k, v) (set xs)" for k and v :: relay_info and xs
    by (induction xs) auto
  with t show ?thesis
    by (fastforce simp: topology_inv_def add_relay_def distinct_update)
qed

lemma topology_dom: "dom (topology_get t) = fst ` set (relays t)"
  unfolding topology_get_def by (rule dom_map_of_conv_image_fst)

lemma topology_len_card: "topology_inv t \<Longrightarrow> topology_len t = card (dom (topology_get t))"
  unfolding topology_dom topology_len_def topology_inv_def
  by (metis distinct_card length_map set_map)

interpretation topo: keyed_store topology_new add_relay topology_get topology_len topology_inv r_id
proof
  fix t r k v
  show "topology_inv topology_new" by (rule topology_inv_new)
  show "topology_get topology_new k = None" by (simp add: topology_get_def topology_new_def)
  show "topology_get (add_relay t r) k = (if k = r_id r then Some r else topology_get t k)"
    by (simp add: topology_get_def add_relay_def update_conv')
  assume t: "topology_inv t"
  from topology_inv_add [OF t] show "topology_inv (add_relay t r)" .
  show "r_id v = k" if "topology_get t k = Some v"
    using t that by (auto simp: topology_inv_def topology_get_def dest: map_of_SomeD)
  show "finite (dom (topology_get t)) \<and> topology_len t = card (dom (topology_get t))"
    using t by (simp add: topology_dom topology_len_card)
qed

section \<open>Iteration\<close>

lemma mset_topology_all: "order_ok X \<Longrightarrow> mset (topology_all X t) = mset (map snd (relays t))"
  by (simp add: topology_all_def mset_hash_order del: mset_map)

lemma length_topology_all: "order_ok X \<Longrightarrow> length (topology_all X t) = topology_len t"
  by (metis length_map mset_topology_all size_mset topology_len_def)

lemma topology_relays_get:
  "topology_inv t \<Longrightarrow> v \<in> snd ` set (relays t) \<longleftrightarrow> topology_get t (r_id v) = Some v"
  unfolding topology_inv_def topology_get_def by (force dest: map_of_SomeD)

lemma topology_ids: "topology_inv t \<Longrightarrow> map r_id (map snd (relays t)) = map fst (relays t)"
  by (auto simp: topology_inv_def)

lemma mset_distinct_map: "mset xs = mset ys \<Longrightarrow> distinct (map f xs) \<longleftrightarrow> distinct (map f ys)"
  by (metis mset_eq_imp_distinct_iff mset_map)

lemma topology_all_spec:
  assumes "order_ok X" "topology_inv t"
  shows "distinct (map r_id (topology_all X t))"
    "v \<in> set (topology_all X t) \<longleftrightarrow> topology_get t (r_id v) = Some v"
proof -
  note m = mset_topology_all [OF assms(1), of t]
  show "distinct (map r_id (topology_all X t))"
    unfolding mset_distinct_map [OF m] topology_ids [OF assms(2)]
    using assms(2) by (simp add: topology_inv_def)
  show "v \<in> set (topology_all X t) \<longleftrightarrow> topology_get t (r_id v) = Some v"
    using mset_eq_setD [OF m] topology_relays_get [OF assms(2), of v] by simp
qed

section \<open>Properties\<close>

text \<open>A topology built by adding relays keeps, for each identifier, the relay added last under
  it, its length counts the distinct identifiers, and iterating over it visits each kept relay
  exactly once, in whatever order the hash map chooses.\<close>

lemma topology_last_wins:
  assumes "order_ok X"
  shows "let t = foldl add_relay topology_new rs in
    (\<forall>i. topology_get t i = find (\<lambda>v. r_id v = i) (rev rs)) \<and>
    topology_len t = card (r_id ` set rs) \<and>
    topology_is_empty t = (rs = []) \<and>
    distinct (map r_id (topology_all X t)) \<and>
    (\<forall>v. v \<in> set (topology_all X t) \<longleftrightarrow> topology_get t (r_id v) = Some v)"
proof -
  let ?t = "foldl add_relay topology_new rs"
  have t: "?t = topo.add_all topology_new rs" by (simp add: topo.add_all_def)
  have inv: "topology_inv ?t" unfolding t by (intro topo.inv_add_all topology_inv_new)
  have "topology_len ?t = card (r_id ` set rs)" unfolding t by (rule topo.size_add_all)
  moreover from this have "topology_is_empty ?t = (rs = [])"
    by (simp add: topology_is_empty_def topology_len_def flip: length_0_conv)
  moreover have "topology_get ?t i = find (\<lambda>v. r_id v = i) (rev rs)" for i
    unfolding t topo.get_add_all by (simp add: topo.get_empty split: option.splits)
  ultimately show ?thesis
    using topology_all_spec [OF assms inv] by (simp add: Let_def)
qed

end
