(* ===== verification/Path_Selection.thy ===== *)
theory Path_Selection
  imports Topology
begin

text \<open>
  \<open>crates/veil-routing/src/path_selection.rs\<close>: random circuit paths, plain and subnet-diverse.
  Both selectors satisfy the contract \<open>path_selector\<close>: enough relays give a path of the wanted
  length with pairwise different relays of the topology, too few give the error with both
  numbers. The diverse selector is moreover as diverse as the topology allows.
\<close>

section \<open>Definitions\<close>

datatype path_selection_error = InsufficientRelays (needed: nat) (available: nat)

definition select_path :: "'r externals \<Rightarrow> topology \<Rightarrow> nat \<Rightarrow> 'r
    \<Rightarrow> (relay_info list, path_selection_error) outcome \<times> 'r" where
  "select_path X t hop_count r =
     (let candidates = topology_all X t in
      if length candidates < hop_count
      then (Err (InsufficientRelays hop_count (length candidates)), r)
      else let (candidates, r') = shuffle X candidates r in (Ok (take hop_count candidates), r'))"

definition subnet_key :: "string \<Rightarrow> (byte \<times> byte \<times> byte) option" where
  "subnet_key address =
     Option.bind (rsplit_once CHR '':'' address) (\<lambda>(host, _).
       Option.bind (parse_ipv4 host) (\<lambda>(a, b, c, _). Some (a, b, c)))"

text \<open>The two loops of \<open>select_diverse_path\<close>.\<close>

fun diverse_pass :: "relay_info list \<Rightarrow> relay_info list \<Rightarrow> (byte \<times> byte \<times> byte) list \<Rightarrow> relay_info list
    \<Rightarrow> relay_info list \<times> relay_info list" where
  "diverse_pass [] path used_subnets leftover = (path, leftover)"
| "diverse_pass (relay # rs) path used_subnets leftover =
     (case subnet_key (r_address relay) of
        Some key \<Rightarrow>
          if List.member used_subnets key
          then diverse_pass rs path used_subnets (leftover @ [relay])
          else diverse_pass rs (path @ [relay]) (used_subnets @ [key]) leftover
      | None \<Rightarrow> diverse_pass rs (path @ [relay]) used_subnets leftover)"

fun fill_path :: "nat \<Rightarrow> relay_info list \<Rightarrow> relay_info list \<Rightarrow> relay_info list" where
  "fill_path hop_count [] path = path"
| "fill_path hop_count (relay # rs) path =
     (if length path = hop_count then path else fill_path hop_count rs (path @ [relay]))"

definition select_diverse_path :: "'r externals \<Rightarrow> topology \<Rightarrow> nat \<Rightarrow> 'r
    \<Rightarrow> (relay_info list, path_selection_error) outcome \<times> 'r" where
  "select_diverse_path X t hop_count r =
     (let candidates = topology_all X t in
      if length candidates < hop_count
      then (Err (InsufficientRelays hop_count (length candidates)), r)
      else let (candidates, r') = shuffle X candidates r;
               (path, leftover) = diverse_pass candidates [] [] [];
               path = fill_path hop_count leftover path
           in (Ok (take hop_count path), r'))"

section \<open>The contract of a path selector\<close>

definition valid_path :: "topology \<Rightarrow> relay_info list \<Rightarrow> bool" where
  "valid_path t path \<longleftrightarrow>
     distinct (map r_id path) \<and> (\<forall>p \<in> set path. topology_get t (r_id p) = Some p)"

locale path_selector =
  fixes select :: "'r externals \<Rightarrow> topology \<Rightarrow> nat \<Rightarrow> 'r
    \<Rightarrow> (relay_info list, path_selection_error) outcome \<times> 'r"
  assumes too_few: "order_ok X \<Longrightarrow> topology_inv t \<Longrightarrow> topology_len t < n \<Longrightarrow>
      select X t n r = (Err (InsufficientRelays n (topology_len t)), r)"
    and enough: "order_ok X \<Longrightarrow> topology_inv t \<Longrightarrow> n \<le> topology_len t \<Longrightarrow>
      \<exists>path r'. select X t n r = (Ok path, r') \<and> length path = n \<and> valid_path t path"
begin

lemma select_Ok_iff:
  "order_ok X \<Longrightarrow> topology_inv t \<Longrightarrow> is_ok (fst (select X t n r)) \<longleftrightarrow> n \<le> topology_len t"
  using too_few [of X t n r] enough [of X t n r] by (cases "n \<le> topology_len t") auto

lemma select_no_panic: "order_ok X \<Longrightarrow> topology_inv t \<Longrightarrow> fst (select X t n r) \<noteq> Panic"
  using too_few [of X t n r] enough [of X t n r] by (cases "n \<le> topology_len t") auto

lemma select_path_spec:
  "order_ok X \<Longrightarrow> topology_inv t \<Longrightarrow> select X t n r = (Ok path, r') \<Longrightarrow>
     length path = n \<and> valid_path t path"
  using too_few [of X t n r] enough [of X t n r] by (cases "n \<le> topology_len t") auto

text \<open>A path as long as the topology visits every relay.\<close>

lemma select_all:
  assumes "order_ok X" "topology_inv t" "select X t (topology_len t) r = (Ok path, r')"
  shows "r_id ` set path = dom (topology_get t)"
proof (rule card_subset_eq)
  have path: "length path = topology_len t" "valid_path t path"
    using select_path_spec [OF assms] by auto
  show "finite (dom (topology_get t))" using assms(2) topo.size_dom by blast
  show "r_id ` set path \<subseteq> dom (topology_get t)" using path(2) by (auto simp: valid_path_def)
  have "card (r_id ` set path) = length path"
    using path(2) by (metis valid_path_def distinct_card length_map set_map)
  with path(1) show "card (r_id ` set path) = card (dom (topology_get t))"
    using assms(2) by (simp add: topology_len_card)
qed

end

lemma valid_path_take: "valid_path t path \<Longrightarrow> valid_path t (take n path)"
  by (auto simp: valid_path_def distinct_take dest: in_set_takeD simp flip: take_map)

lemma valid_path_candidates:
  assumes "order_ok X" "topology_inv t" "mset path = mset (topology_all X t)"
  shows "valid_path t path"
  using topology_all_spec [OF assms(1,2)] mset_distinct_map [OF assms(3)] mset_eq_setD [OF assms(3)]
  by (auto simp: valid_path_def)

lemma shuffled_candidates:
  assumes "order_ok X" "topology_inv t" "shuffle X (topology_all X t) r = (cs, r')"
  shows "mset cs = mset (topology_all X t)" "length cs = topology_len t" "valid_path t cs"
proof -
  show m: "mset cs = mset (topology_all X t)"
    using mset_shuffle [OF assms(1)] assms(3) by (metis fst_conv)
  show "length cs = topology_len t"
    using m length_topology_all [OF assms(1)] by (metis size_mset)
  show "valid_path t cs" by (rule valid_path_candidates [OF assms(1,2) m])
qed

interpretation random_path: path_selector select_path
proof
  fix X :: "'r externals" and t n r
  assume laws: "order_ok X" "topology_inv t"
  note len = length_topology_all [OF laws(1), of t]
  show "select_path X t n r = (Err (InsufficientRelays n (topology_len t)), r)"
    if "topology_len t < n" using that by (simp add: select_path_def len)
  show "\<exists>path r'. select_path X t n r = (Ok path, r') \<and> length path = n \<and> valid_path t path"
    if "n \<le> topology_len t"
  proof -
    obtain cs r' where cs: "shuffle X (topology_all X t) r = (cs, r')" by fastforce
    from that shuffled_candidates [OF laws cs] show ?thesis
      by (simp add: select_path_def len cs valid_path_take)
  qed
qed

section \<open>The diverse selector\<close>

text \<open>The subnets a list of relays uses, in order.\<close>

definition subnets :: "relay_info list \<Rightarrow> (byte \<times> byte \<times> byte) list" where
  "subnets rs = List.map_filter (\<lambda>relay. subnet_key (r_address relay)) rs"

definition unknown_subnets :: "relay_info list \<Rightarrow> nat" where
  "unknown_subnets rs = length (filter (\<lambda>relay. subnet_key (r_address relay) = None) rs)"

lemma subnets_simps [simp]:
  "subnets [] = []"
  "subnets (r # rs) = (case subnet_key (r_address r) of Some k \<Rightarrow> k # subnets rs | None \<Rightarrow> subnets rs)"
  "subnets (rs @ qs) = subnets rs @ subnets qs"
  by (simp_all add: subnets_def List.map_filter_def split: option.splits)

lemma set_subnets: "k \<in> set (subnets rs) \<longleftrightarrow> (\<exists>r \<in> set rs. subnet_key (r_address r) = Some k)"
  by (induction rs) (auto split: option.splits)

lemma length_subnets: "length (subnets rs) + unknown_subnets rs = length rs"
  by (induction rs) (auto simp: unknown_subnets_def split: option.splits)

lemma subnets_take: "distinct (subnets rs) \<Longrightarrow> distinct (subnets (take n rs))"
  by (metis append_take_drop_id distinct_append subnets_simps(3))

lemma diverse_pass_spec:
  assumes "diverse_pass cs path (subnets path) left = (path', left')" "distinct (subnets path)"
    and "set (subnets left) \<subseteq> set (subnets path)" "unknown_subnets left = 0"
  shows "mset path' + mset left' = mset path + mset left + mset cs \<and> distinct (subnets path') \<and>
    set (subnets left') \<subseteq> set (subnets path') \<and> unknown_subnets left' = 0"
  using assms
proof (induction cs arbitrary: path left)
  case (Cons c cs)
  show ?case
  proof (cases "subnet_key (r_address c)")
    case None
    with Cons.prems Cons.IH [of "path @ [c]" left] show ?thesis by simp
  next
    case (Some k)
    show ?thesis
    proof (cases "k \<in> set (subnets path)")
      case True
      with Some Cons.prems Cons.IH [of path "left @ [c]"] show ?thesis
        by (auto simp: unknown_subnets_def)
    next
      case False
      with Some Cons.prems Cons.IH [of "path @ [c]" left] show ?thesis by auto
    qed
  qed
qed simp

lemma fill_path_eq:
  "take n (fill_path n left path) = take n (path @ left)"
  by (induction left arbitrary: path) (auto simp: take_Cons')

lemma unknown_subnets_mset: "mset xs = mset ys \<Longrightarrow> unknown_subnets xs = unknown_subnets ys"
  unfolding unknown_subnets_def by (metis mset_filter size_mset)

lemma unknown_subnets_append: "unknown_subnets (xs @ ys) = unknown_subnets xs + unknown_subnets ys"
  by (simp add: unknown_subnets_def)

lemma select_diverse_eq:
  assumes "order_ok X" "topology_inv t" "n \<le> topology_len t"
  shows "\<exists>path left r'. select_diverse_path X t n r = (Ok (take n (path @ left)), r') \<and>
    mset (path @ left) = mset (topology_all X t) \<and> distinct (subnets path) \<and>
    set (subnets left) \<subseteq> set (subnets path) \<and> unknown_subnets left = 0"
proof -
  obtain cs r' where cs: "shuffle X (topology_all X t) r = (cs, r')" by fastforce
  obtain path left where dp: "diverse_pass cs [] [] [] = (path, left)" by fastforce
  from diverse_pass_spec [of cs "[]" "[]" path left] dp
  have "mset path + mset left = mset cs" "distinct (subnets path)"
      "set (subnets left) \<subseteq> set (subnets path)" "unknown_subnets left = 0"
    by (simp_all add: unknown_subnets_def)
  with shuffled_candidates [OF assms(1,2) cs] assms(3) show ?thesis
    by (intro exI [of _ path] exI [of _ left] exI [of _ r'])
      (simp add: select_diverse_path_def length_topology_all [OF assms(1)] cs dp fill_path_eq)
qed

interpretation diverse_path: path_selector select_diverse_path
proof
  fix X :: "'r externals" and t n r
  assume laws: "order_ok X" "topology_inv t"
  note len = length_topology_all [OF laws(1), of t]
  show "select_diverse_path X t n r = (Err (InsufficientRelays n (topology_len t)), r)"
    if "topology_len t < n" using that by (simp add: select_diverse_path_def len)
  show "\<exists>path r'. select_diverse_path X t n r = (Ok path, r') \<and> length path = n \<and> valid_path t path"
    if n: "n \<le> topology_len t"
  proof -
    obtain path left r' where p: "select_diverse_path X t n r = (Ok (take n (path @ left)), r')"
        "mset (path @ left) = mset (topology_all X t)"
      using select_diverse_eq [OF laws n] by blast
    have "length (path @ left) = topology_len t" using p(2) len by (metis size_mset)
    with n p valid_path_take [OF valid_path_candidates [OF laws p(2)], of n] show ?thesis by auto
  qed
qed

text \<open>A diverse path starts with relays of pairwise different or unknown subnets, as many as the topology
  has.\<close>

lemma diverse_split:
  assumes "order_ok X" "topology_inv t" "select_diverse_path X t n r = (Ok path, r')"
  shows "\<exists>p left. path = take n (p @ left) \<and> distinct (subnets p) \<and> set (subnets left) \<subseteq> set (subnets p) \<and>
    set (subnets (topology_all X t)) = set (subnets p) \<and>
    card (set (subnets (topology_all X t))) + unknown_subnets (topology_all X t) = length p"
proof -
  have n: "n \<le> topology_len t"
    using diverse_path.select_Ok_iff [OF assms(1,2), of n r] assms(3) by simp
  obtain p left where p: "path = take n (p @ left)" "mset (p @ left) = mset (topology_all X t)"
      "distinct (subnets p)" "set (subnets left) \<subseteq> set (subnets p)" "unknown_subnets left = 0"
    using select_diverse_eq [OF assms(1,2) n, of r] assms(3) by auto
  have all: "set (subnets (topology_all X t)) = set (subnets p)"
    using mset_eq_setD [OF p(2)] p(4) by (auto simp: set_subnets subset_iff) blast+
  have "unknown_subnets (topology_all X t) = unknown_subnets p"
    using unknown_subnets_mset [OF p(2)] p(5) by (simp add: unknown_subnets_append)
  then have "card (set (subnets (topology_all X t))) + unknown_subnets (topology_all X t) = length p"
    using length_subnets [of p] distinct_card [OF p(3)] all by simp
  with p(1,3,4) all show ?thesis by blast
qed

section \<open>Properties\<close>

text \<open>C23. Both selectors return a path of exactly the wanted number of relays of the topology, no
  relay twice, whenever the topology has that many; otherwise they return the error with the
  needed and the available number, without drawing from the generator.\<close>

theorem selected_path_valid:
  assumes "order_ok X" "topology_inv t" "select \<in> {select_path X, select_diverse_path X}"
  shows "if n \<le> topology_len t
    then \<exists>path r'. select t n r = (Ok path, r') \<and> length path = n \<and> distinct (map r_id path) \<and>
      (\<forall>p \<in> set path. topology_get t (r_id p) = Some p)
    else select t n r = (Err (InsufficientRelays n (topology_len t)), r)"
proof (cases "n \<le> topology_len t")
  case True
  with random_path.enough [OF assms(1,2) True, of r] diverse_path.enough [OF assms(1,2) True, of r]
    assms(3) show ?thesis by (auto simp: valid_path_def)
next
  case False
  with random_path.too_few [OF assms(1,2), of n r] diverse_path.too_few [OF assms(1,2), of n r]
    assms(3) show ?thesis by auto
qed

text \<open>A sample topology of four relays on two subnets, one of them behind a host name.\<close>

definition sample_topology :: topology where
  "sample_topology = foldl add_relay topology_new
     [\<lparr>r_id = ''r1'', r_address = ''10.0.0.1:9001'', r_public_key = PublicKey []\<rparr>,
      \<lparr>r_id = ''r2'', r_address = ''10.0.0.2:9001'', r_public_key = PublicKey []\<rparr>,
      \<lparr>r_id = ''r3'', r_address = ''10.0.1.1:9001'', r_public_key = PublicKey []\<rparr>,
      \<lparr>r_id = ''r4'', r_address = ''relay:9001'', r_public_key = PublicKey []\<rparr>]"

lemma sample_topology_inv: "topology_inv sample_topology"
  unfolding sample_topology_def using topo.inv_add_all [OF topo.inv_empty]
  by (simp only: topo.add_all_def)

theorem selected_path_valid_witness:
  "\<exists>path r'. select_diverse_path demo sample_topology 3 0 = (Ok path, r') \<and> length path = 3 \<and>
     distinct (map r_id path)"
proof -
  have "3 \<le> topology_len sample_topology" by code_simp
  with selected_path_valid [OF demo_order_ok sample_topology_inv, of "select_diverse_path demo" 3 0]
  show ?thesis by auto
qed

text \<open>C22. The diverse selector makes the best of the topology: if relays with pairwise different or
  unknown subnets suffice for the path, then no two relays of the path share a known /24 subnet;
  otherwise the path uses every known subnet of the topology.\<close>

theorem diverse_path_optimal:
  assumes "order_ok X" "topology_inv t" "select_diverse_path X t n r = (Ok path, r')"
  shows "if n \<le> card (set (subnets (topology_all X t))) + unknown_subnets (topology_all X t)
    then distinct (subnets path)
    else set (subnets path) = set (subnets (topology_all X t))"
proof -
  obtain p left where p: "path = take n (p @ left)" "distinct (subnets p)" "set (subnets left) \<subseteq> set (subnets p)"
      "set (subnets (topology_all X t)) = set (subnets p)"
      "card (set (subnets (topology_all X t))) + unknown_subnets (topology_all X t) = length p"
    using diverse_split [OF assms] by blast
  show ?thesis
  proof (cases "n \<le> length p")
    case True
    with p(1,5) subnets_take [OF p(2), of n] show ?thesis by simp
  next
    case False
    then have "path = p @ take (n - length p) left" using p(1) by simp
    moreover have "set (subnets (take k left)) \<subseteq> set (subnets left)" for k
      unfolding set_subnets subset_iff using in_set_takeD by fastforce
    ultimately show ?thesis using False p(3-5) by auto
  qed
qed

theorem diverse_path_optimal_witness:
  "\<exists>path r'. select_diverse_path demo sample_topology 3 0 = (Ok path, r') \<and> distinct (subnets path)"
proof -
  have "3 \<le> topology_len sample_topology" by code_simp
  then obtain path r' where p: "select_diverse_path demo sample_topology 3 0 = (Ok path, r')"
    using diverse_path.enough [OF demo_order_ok sample_topology_inv] by blast
  have "3 \<le> card (set (subnets (topology_all demo sample_topology))) +
      unknown_subnets (topology_all demo sample_topology)"
    by code_simp
  with diverse_path_optimal [OF demo_order_ok sample_topology_inv p] p show ?thesis by auto
qed

text \<open>The subnet of an address is the first three octets of a literal IPv4 host before the last
  colon, for every IPv4 address and port text; an address without a colon or whose host is no
  IPv4 literal has no subnet.\<close>

lemma subnet_key_spec:
  assumes "CHR '':'' \<notin> set port"
  shows "subnet_key (show_ipv4 (a, b, c, d) @ '':'' @ port) = Some (a, b, c) \<and>
    (parse_ipv4 host = None \<longrightarrow> subnet_key (host @ '':'' @ port) = None) \<and>
    subnet_key port = None"
  using assms
  by (simp add: subnet_key_def rsplit_once_last rsplit_once_None [THEN iffD2] parse_show_ipv4)

end
