(* ===== verification/Circuit.thy ===== *)
theory Circuit
  imports Path_Selection
begin

text \<open>
  \<open>crates/veil-routing/src/lib.rs\<close>: wrapping a body in nested onion layers for a path. The lemmas
  show that every relay of the path peels exactly its own layer, learns the address of its
  successor only, and that the exit relay recovers the body; and the exact size of the result.
\<close>

section \<open>Definitions\<close>

datatype circuit_error =
    PathSelection path_selection_error
  | Onion onion_error
  | EmptyPath

text \<open>The loop over \<open>(0..inner_hops.len()).rev()\<close>: the argument is one above the index.\<close>

fun wrap_hops :: "'r externals \<Rightarrow> relay_info list \<Rightarrow> relay_info \<Rightarrow> nat \<Rightarrow> bytes \<Rightarrow> 'r
    \<Rightarrow> (bytes, circuit_error) outcome \<times> 'r" where
  "wrap_hops X inner_hops exit 0 layer r = (Ok layer, r)"
| "wrap_hops X inner_hops exit (Suc i) layer r =
     (let hop = inner_hops ! i;
          next_hop_addr = (if i + 1 < length inner_hops then r_address (inner_hops ! (i + 1))
                           else r_address exit)
      in case build_onion_layer X (r_public_key hop) (Forward next_hop_addr layer) r of
           (Ok layer, r') \<Rightarrow> wrap_hops X inner_hops exit i layer r'
         | (Err e, r') \<Rightarrow> (Err (Onion e), r')
         | (Panic, r') \<Rightarrow> (Panic, r'))"

definition build_circuit :: "'r externals \<Rightarrow> relay_info list \<Rightarrow> bytes \<Rightarrow> 'r
    \<Rightarrow> (bytes, circuit_error) outcome \<times> 'r" where
  "build_circuit X path final_body r =
     (if path = [] then (Err EmptyPath, r)
      else let exit = last path; inner_hops = butlast path in
        case build_onion_layer X (r_public_key exit) (Deliver final_body) r of
          (Ok layer, r') \<Rightarrow> wrap_hops X inner_hops exit (length inner_hops) layer r'
        | (Err e, r') \<Rightarrow> (Err (Onion e), r')
        | (Panic, r') \<Rightarrow> (Panic, r'))"

section \<open>The journey of a circuit packet\<close>

text \<open>The payloads the relays with the given keys see when each peels what its predecessor
  forwards; it ends early when a relay cannot peel.\<close>

fun journey :: "'r externals \<Rightarrow> keypair list \<Rightarrow> bytes \<Rightarrow> onion_payload list" where
  "journey X [] frame = []"
| "journey X (kp # kps) frame =
     (case peel_onion_layer X kp frame of
        Ok p \<Rightarrow> p # journey X kps (body p)
      | _ \<Rightarrow> [])"

text \<open>The relays hold the secrets of the public keys the path names.\<close>

definition keys_for :: "'r externals \<Rightarrow> relay_info list \<Rightarrow> keypair list \<Rightarrow> bool" where
  "keys_for X path kps \<longleftrightarrow> list_all2 (\<lambda>relay kp. keypair_wf X kp \<and> public kp = r_public_key relay) path kps"

definition addresses_ok :: "relay_info list \<Rightarrow> bool" where
  "addresses_ok path \<longleftrightarrow> (\<forall>p \<in> set path. valid_str (r_address p) \<and> length (r_address p) < 65536)"

text \<open>The size of the packet: 61 bytes for the exit layer and 63 more than the next address for
  every other.\<close>

fun circuit_size :: "relay_info list \<Rightarrow> nat \<Rightarrow> nat" where
  "circuit_size [] n = n"
| "circuit_size [exit] n = 61 + n"
| "circuit_size (hop # succ # path) n = 63 + length (r_address succ) + circuit_size (succ # path) n"

lemma circuit_size_mono: "i < length path \<Longrightarrow> circuit_size (drop i path) n \<le> circuit_size path n"
proof (induction path n arbitrary: i rule: circuit_size.induct)
  case (3 hop s path n)
  show ?case
  proof (cases i)
    case (Suc k)
    with 3 have "circuit_size (drop k (s # path)) n \<le> circuit_size (s # path) n" by simp
    with Suc show ?thesis by simp
  qed simp
qed simp_all

lemma drop_eq_two:
  "Suc i < length path \<Longrightarrow> drop i path = path ! i # path ! Suc i # drop (Suc (Suc i)) path"
  by (metis Cons_nth_drop_Suc Suc_lessD)

text \<open>A layer that travels from position \<open>i\<close> of the path to its end.\<close>

definition layer_from :: "'r externals \<Rightarrow> relay_info list \<Rightarrow> keypair list \<Rightarrow> bytes \<Rightarrow> nat \<Rightarrow> bytes \<Rightarrow> bool" where
  "layer_from X path kps b i layer \<longleftrightarrow>
     (\<exists>ps. journey X (drop i kps) layer = ps @ [Deliver b] \<and>
        list_all2 (\<lambda>p succ. \<exists>inner. p = Forward (r_address succ) inner) ps (drop (Suc i) path)) \<and>
     length layer = circuit_size (drop i path) (length b)"

lemma next_hop_address:
  assumes "Suc i < length path"
  shows "(if i + 1 < length (butlast path) then r_address (butlast path ! (i + 1)) else r_address (last path)) =
    r_address (path ! Suc i)"
proof (cases "i + 1 < length (butlast path)")
  case True
  then show ?thesis using assms by (simp add: nth_butlast)
next
  case False
  then have "Suc i = length path - 1" "path \<noteq> []" using assms by auto
  then show ?thesis using False by (simp add: last_conv_nth)
qed

lemma wrap_hops_ok:
  assumes laws: "rng_ok X" "dh_ok X" "hkdf_ok X" "aead_ok X"
    and keys: "keys_for X path kps" and addr: "addresses_ok path"
    and size: "circuit_size path (length b) < aead_max" and path: "path \<noteq> []"
    and i: "i < length path" and layer: "layer_from X path kps b i layer"
  shows "\<exists>frame r'. wrap_hops X (butlast path) (last path) i layer r = (Ok frame, r') \<and>
    layer_from X path kps b 0 frame"
  using i layer
proof (induction i arbitrary: layer r)
  case (Suc i)
  let ?hop = "path ! i" and ?next = "path ! Suc i"
  let ?p = "Forward (r_address ?next) layer"
  have lens: "length kps = length path" "keypair_wf X (kps ! i)" "public (kps ! i) = r_public_key ?hop"
    using keys Suc.prems(1) by (auto simp: keys_for_def list_all2_conv_all_nth)
  have hop: "butlast path ! i = ?hop" using Suc.prems(1) by (simp add: nth_butlast)
  have drop: "drop i path = ?hop # ?next # drop (Suc (Suc i)) path" "drop (Suc i) path = ?next # drop (Suc (Suc i)) path"
    using Suc.prems(1) drop_eq_two [of i path] by (simp_all add: Cons_nth_drop_Suc)
  have len: "length (encode_payload ?p) + 60 = circuit_size (drop i path) (length b)"
    using Suc.prems(2) by (simp add: layer_from_def length_encode_payload drop)
  have "circuit_size (drop i path) (length b) \<le> circuit_size path (length b)"
    using circuit_size_mono [of i path] Suc.prems(1) by simp
  then have small: "length (encode_payload ?p) < aead_max" using len size by linarith
  have valid: "payload_valid ?p"
    using addr Suc.prems(1) by (simp add: addresses_ok_def)
  obtain frame r1 where f: "build_onion_layer X (public (kps ! i)) ?p r = (Ok frame, r1)"
      "length frame = 60 + length (encode_payload ?p)" "peel_onion_layer X (kps ! i) frame = Ok ?p"
    using build_peel [OF laws lens(2) small valid, of r] by blast
  have "drop i kps = kps ! i # drop (Suc i) kps"
    using Suc.prems(1) lens(1) by (simp add: Cons_nth_drop_Suc)
  then have "journey X (drop i kps) frame = ?p # journey X (drop (Suc i) kps) layer"
    using f(3) by simp
  moreover obtain ps where "journey X (drop (Suc i) kps) layer = ps @ [Deliver b]"
      "list_all2 (\<lambda>p succ. \<exists>inner. p = Forward (r_address succ) inner) ps (drop (Suc (Suc i)) path)"
    using Suc.prems(2) by (auto simp: layer_from_def)
  ultimately have "layer_from X path kps b i frame"
    using f(2) len by (auto simp: layer_from_def drop(2) intro!: exI [of _ "?p # ps"])
  with Suc.IH [of frame r1] Suc.prems(1) show ?case
    using f(1) lens(3) by (simp add: hop next_hop_address [simplified])
qed simp

lemma build_circuit_ok:
  assumes laws: "rng_ok X" "dh_ok X" "hkdf_ok X" "aead_ok X"
    and keys: "keys_for X path kps" and addr: "addresses_ok path"
    and size: "circuit_size path (length b) < aead_max" and path: "path \<noteq> []"
  shows "\<exists>frame r'. build_circuit X path b r = (Ok frame, r') \<and> layer_from X path kps b 0 frame"
proof -
  let ?n = "length path - 1"
  have n: "?n < length path" using path by simp
  have lens: "length kps = length path" "keypair_wf X (kps ! ?n)" "public (kps ! ?n) = r_public_key (last path)"
    using keys list_all2_nthD [OF keys [unfolded keys_for_def] n] path
    by (auto simp: keys_for_def last_conv_nth dest: list_all2_lengthD)
  have drop: "drop ?n path = [last path]" "drop ?n kps = [kps ! ?n]" "drop (Suc ?n) path = []"
    using path lens(1) by (auto simp: last_conv_nth Cons_nth_drop_Suc [symmetric])
  have "61 + length b \<le> circuit_size path (length b)"
    using circuit_size_mono [of ?n path "length b"] path drop(1) by simp
  then have "length (encode_payload (Deliver b)) < aead_max"
    using size by (simp add: length_encode_payload)
  then obtain layer r1 where l: "build_onion_layer X (public (kps ! ?n)) (Deliver b) r = (Ok layer, r1)"
      "length layer = 61 + length b" "peel_onion_layer X (kps ! ?n) layer = Ok (Deliver b)"
    using build_peel [OF laws lens(2), of "Deliver b" r] by (auto simp: length_encode_payload)
  then have "layer_from X path kps b ?n layer"
    unfolding layer_from_def drop by simp
  with wrap_hops_ok [OF laws keys addr size path, of ?n layer r1] l(1) lens(3) path show ?thesis
    by (simp add: build_circuit_def)
qed

lemma keys_for_ConsD:
  "keys_for X (p # path) kps \<Longrightarrow> \<exists>kp kps'. kps = kp # kps' \<and> keys_for X path kps'"
  by (auto simp: keys_for_def list_all2_Cons1)

section \<open>Properties\<close>

text \<open>C6. A circuit packet travels its path: the first relay peels the packet, every relay but the
  last finds exactly the address of its successor and the packet to hand on, and the exit relay,
  and only it, finds the body. The packet's size depends on the addresses and the body's length
  only.\<close>

theorem circuit_delivers:
  assumes "rng_ok X" "dh_ok X" "hkdf_ok X" "aead_ok X"
    and "keys_for X path kps" "addresses_ok path" "path \<noteq> []"
    and "circuit_size path (length b) < aead_max"
  shows "\<exists>frame r' ps. build_circuit X path b r = (Ok frame, r') \<and>
    journey X kps frame = ps @ [Deliver b] \<and>
    list_all2 (\<lambda>p succ. \<exists>inner. p = Forward (r_address succ) inner) ps (tl path) \<and>
    length frame = circuit_size path (length b)"
  using build_circuit_ok [OF assms(1-6,8,7), of r] by (auto simp: layer_from_def drop_Suc)

definition sample_relay :: "nat \<Rightarrow> relay_info \<times> keypair" where
  "sample_relay n =
     (let kp = fst (generate demo n) in
      (\<lparr>r_id = ''r'' @ show_nat n, r_address = ''10.0.'' @ show_nat n @ ''.1:9001'',
        r_public_key = keypair_public_key kp\<rparr>, kp))"

lemma sample_relay_keys: "keys_for demo (map (fst \<circ> sample_relay) ns) (map (snd \<circ> sample_relay) ns)"
  by (auto simp: keys_for_def list_all2_conv_all_nth sample_relay_def Let_def keypair_public_key_def
      generate_wf [OF demo_dh_ok])

lemma ascii_show_nat: "ascii (show_nat n)"
proof -
  have "(of_char c :: nat) < 128" if "is_digit c" for c
    using that by (simp add: is_digit_def)
  then show ?thesis
    using show_nat_digits [of n] by (auto simp: ascii_def list_all_iff)
qed

lemma sample_relay_addresses:
  assumes "\<forall>n \<in> set ns. n < 1000" shows "addresses_ok (map (fst \<circ> sample_relay) ns)"
proof -
  have "ascii (''10.0.'' @ show_nat n @ ''.1:9001'')" for n
    using ascii_show_nat [of n] by (auto simp: ascii_def)
  moreover have "length (show_nat n) \<le> 3" if "n < 1000" for n
    using show_nat_length [of n 2] that by (simp add: numeral_3_eq_3)
  ultimately show ?thesis
    using assms by (force simp: addresses_ok_def sample_relay_def Let_def intro: ascii_valid_str)
qed

theorem circuit_delivers_witness:
  "\<exists>frame r' ps. build_circuit demo (map (fst \<circ> sample_relay) [1, 2, 3]) [7, 7] 9 = (Ok frame, r') \<and>
    journey demo (map (snd \<circ> sample_relay) [1, 2, 3]) frame = ps @ [Deliver [7, 7]] \<and> length ps = 2"
proof -
  have size: "circuit_size (map (fst \<circ> sample_relay) [1, 2, 3]) (length [7 :: byte, 7]) < aead_max"
    by (simp add: sample_relay_def Let_def aead_max_def show_nat.simps)
  from circuit_delivers [OF demo_rng_ok demo_dh_ok demo_hkdf_ok demo_aead_ok sample_relay_keys
      sample_relay_addresses _ size, of 9]
  show ?thesis by (fastforce dest: list_all2_lengthD)
qed

text \<open>Building a circuit fails on the empty path, before anything is drawn, and nothing else
  fails: for every path with usable keys and addresses and every body within the cipher's limit
  it returns a packet.\<close>

lemma build_circuit_error_iff:
  assumes "rng_ok X" "dh_ok X" "hkdf_ok X" "aead_ok X"
    and "keys_for X path kps" "addresses_ok path" "circuit_size path (length b) < aead_max"
  shows "(is_ok (fst (build_circuit X path b r)) \<longleftrightarrow> path \<noteq> []) \<and>
    build_circuit X [] b r = (Err EmptyPath, r)"
proof -
  have "is_ok (fst (build_circuit X path b r))" if "path \<noteq> []"
    using build_circuit_ok [OF assms(1-7) that, of r] by auto
  then show ?thesis by (auto simp: build_circuit_def)
qed

end
