(* ===== verification/Envelope.thy ===== *)
theory Envelope
  imports Crypto
begin

text \<open>
  \<open>crates/veil-sdk/src/envelope.rs\<close> and \<open>session.rs\<close>: the envelope that carries an encrypted cell
  with the sender's ephemeral key, and the session that derives the key. The envelope is a
  \<open>strict_codec\<close>. Sealing under a session and opening with the recipient's identity are
  inverse.
\<close>

section \<open>Envelopes\<close>

definition ENVELOPE_SIZE :: nat where "ENVELOPE_SIZE = 32 + ENCRYPTED_CELL_SIZE"

datatype envelope_error = WrongLength nat nat

definition wrap :: "public_key \<Rightarrow> bytes \<Rightarrow> bytes" where
  "wrap sender_public encrypted_cell =
     (let out = replicate ENVELOPE_SIZE 0;
          out = copy_at 0 (pk_bytes sender_public) out
      in copy_at 32 encrypted_cell out)"

definition unwrap :: "bytes \<Rightarrow> (public_key \<times> bytes, envelope_error) outcome" where
  "unwrap envelope =
     (if length envelope \<noteq> ENVELOPE_SIZE then Err (WrongLength ENVELOPE_SIZE (length envelope))
      else Ok (PublicKey (take 32 envelope), drop 32 envelope))"

definition envelope_valid :: "public_key \<times> bytes \<Rightarrow> bool" where
  "envelope_valid = (\<lambda>(p, c). length (pk_bytes p) = 32 \<and> length c = ENCRYPTED_CELL_SIZE)"

lemma wrap_eq: "length (pk_bytes p) = 32 \<Longrightarrow> length c = ENCRYPTED_CELL_SIZE \<Longrightarrow> wrap p c = pk_bytes p @ c"
  by (simp add: wrap_def ENVELOPE_SIZE_def copy_at_zeros_start copy_at_zeros)

interpretation envelope_codec: strict_codec "\<lambda>(p, c). wrap p c" unwrap envelope_valid "\<lambda>_. True"
proof
  fix x :: "public_key \<times> bytes" and bs
  show "unwrap ((\<lambda>(p, c). wrap p c) x) = Ok x" if "envelope_valid x"
    using that by (cases x) (auto simp: envelope_valid_def wrap_eq unwrap_def ENVELOPE_SIZE_def)
  show "envelope_valid x \<and> (\<lambda>(p, c). wrap p c) x = bs" if "unwrap bs = Ok x"
    using that
    by (cases x) (auto simp: envelope_valid_def wrap_eq unwrap_def ENVELOPE_SIZE_def split: if_splits)
qed simp

lemma unwrap_no_panic: "unwrap bs \<noteq> Panic"
  by (simp add: unwrap_def)

section \<open>Sessions\<close>

definition SESSION_CONTEXT :: bytes where "SESSION_CONTEXT = as_bytes ''veil-sdk-session-v1''"

record session =
  s_keypair :: keypair
  s_cell_key :: bytes

definition establish :: "'r externals \<Rightarrow> public_key \<Rightarrow> 'r \<Rightarrow> (session, veil_error) outcome \<times> 'r" where
  "establish X recipient_public r =
     (let (kp, r) = generate X r;
          shared = diffie_hellman X kp recipient_public
      in (and_then (derive_key X shared SESSION_CONTEXT) (\<lambda>cell_key.
            Ok \<lparr>s_keypair = kp, s_cell_key = cell_key\<rparr>), r))"

definition session_public_key :: "session \<Rightarrow> public_key" where
  "session_public_key s = keypair_public_key (s_keypair s)"

text \<open>A session with a recipient: the key both of them derive.\<close>

definition session_with :: "'r externals \<Rightarrow> keypair \<Rightarrow> session \<Rightarrow> bool" where
  "session_with X recipient s \<longleftrightarrow>
     keypair_wf X (s_keypair s) \<and> length (s_cell_key s) = 32 \<and>
     derive_key X (diffie_hellman X recipient (session_public_key s)) SESSION_CONTEXT = Ok (s_cell_key s)"

lemma establish_ok:
  assumes "dh_ok X" "hkdf_ok X" "keypair_wf X recipient"
  shows "\<exists>s r'. establish X (public recipient) r = (Ok s, r') \<and> session_with X recipient s"
proof -
  obtain kp r' where g: "generate X r = (kp, r')" by fastforce
  have kp: "keypair_wf X kp" using generate_wf [OF assms(1), of r] g by simp
  obtain k where k: "derive_key X (diffie_hellman X kp (public recipient)) SESSION_CONTEXT = Ok k"
      "length k = 32"
    using derive_key_ok [OF assms(2)] by blast
  with g kp dh_agree [OF assms(1) kp assms(3)] show ?thesis
    by (auto simp: establish_def session_with_def session_public_key_def keypair_public_key_def)
qed

section \<open>Sealing and opening\<close>

text \<open>What the sender puts into an envelope for one cell, and what a recipient makes of an
  envelope: nothing unless size, key derivation and decryption all succeed.\<close>

definition seal_cell :: "'r externals \<Rightarrow> session \<Rightarrow> cell \<Rightarrow> 'r \<Rightarrow> (bytes, veil_error) outcome \<times> 'r" where
  "seal_cell X s cell r =
     (let (encrypted, r) = encrypt_cell X (s_cell_key s) cell r
      in (and_then encrypted (\<lambda>e. Ok (wrap (session_public_key s) e)), r))"

definition open_envelope :: "'r externals \<Rightarrow> keypair \<Rightarrow> bytes \<Rightarrow> (cell option, veil_error) outcome" where
  "open_envelope X identity raw =
     (case unwrap raw of
        Ok (sender_public, encrypted) \<Rightarrow>
          (case derive_key X (diffie_hellman X identity sender_public) SESSION_CONTEXT of
             Ok key \<Rightarrow>
               (case decrypt_cell X key encrypted of
                  Ok cell \<Rightarrow> Ok (Some cell)
                | Err _ \<Rightarrow> Ok None
                | Panic \<Rightarrow> Panic)
           | Err _ \<Rightarrow> Ok None
           | Panic \<Rightarrow> Panic)
      | Err _ \<Rightarrow> Ok None
      | Panic \<Rightarrow> Panic)"

lemma seal_open:
  assumes "rng_ok X" "dh_ok X" "aead_ok X" "session_with X recipient s" "cell_wf c"
  shows "\<exists>env r'. seal_cell X s c r = (Ok env, r') \<and> length env = ENVELOPE_SIZE \<and>
    open_envelope X recipient env = Ok (Some c)"
proof -
  have s: "length (s_cell_key s) = 32" "keypair_wf X (s_keypair s)"
      "derive_key X (diffie_hellman X recipient (session_public_key s)) SESSION_CONTEXT = Ok (s_cell_key s)"
    using assms(4) by (simp_all add: session_with_def)
  obtain frame r' where f: "encrypt_cell X (s_cell_key s) c r = (Ok frame, r')"
      "length frame = ENCRYPTED_CELL_SIZE" "decrypt_cell X (s_cell_key s) frame = Ok c"
    using encrypt_cell_roundtrip [OF assms(1,3) s(1) assms(5)] by blast
  have pk: "length (pk_bytes (session_public_key s)) = 32"
    using keypair_public_length [OF assms(2) s(2)]
    by (simp add: session_public_key_def keypair_public_key_def)
  have "unwrap (wrap (session_public_key s) frame) = Ok (session_public_key s, frame)"
    using envelope_codec.dec_enc [of "(session_public_key s, frame)"] pk f(2)
    by (simp add: envelope_valid_def)
  with f s(3) pk show ?thesis
    by (simp add: seal_cell_def open_envelope_def wrap_eq ENVELOPE_SIZE_def)
qed

lemma open_envelope_no_panic:
  assumes "hkdf_ok X" "aead_ok X"
  shows "open_envelope X identity raw \<noteq> Panic"
proof (cases "unwrap raw")
  case (Ok x)
  obtain p e where x: "x = (p, e)" by fastforce
  obtain k where k: "derive_key X (diffie_hellman X identity p) SESSION_CONTEXT = Ok k" "length k = 32"
    using derive_key_ok [OF assms(1)] by blast
  have "length e = ENCRYPTED_CELL_SIZE"
    using envelope_codec.enc_dec [OF TrueI Ok] x by (simp add: envelope_valid_def)
  from decrypt_cell_no_panic [OF assms(2) k(2) this] show ?thesis
    by (simp add: open_envelope_def Ok x k(1) split: outcome.split)
qed (simp_all add: open_envelope_def unwrap_no_panic)

lemma open_envelope_wf:
  assumes "hkdf_ok X" "aead_ok X" "open_envelope X identity raw = Ok (Some c)"
  shows "cell_wf c"
proof (cases "unwrap raw")
  case (Ok x)
  obtain p e where x: "x = (p, e)" by fastforce
  obtain k where k: "derive_key X (diffie_hellman X identity p) SESSION_CONTEXT = Ok k" "length k = 32"
    using derive_key_ok [OF assms(1)] by blast
  have "length e = ENCRYPTED_CELL_SIZE"
    using envelope_codec.enc_dec [OF TrueI Ok] x by (simp add: envelope_valid_def)
  from decrypt_cell_Ok_iff [OF assms(2) k(2) this, of c] assms(3) show ?thesis
    by (simp add: open_envelope_def Ok x k(1) split: outcome.splits)
qed (use assms(3) in \<open>simp_all add: open_envelope_def\<close>)

section \<open>Properties\<close>

text \<open>C21. A session established with a recipient's public key seals every well-formed cell into an
  envelope of exactly 572 bytes that the recipient's identity opens to that cell: the key the
  recipient derives from the envelope is the session's.\<close>

theorem session_seals_for_recipient:
  assumes "rng_ok X" "dh_ok X" "hkdf_ok X" "aead_ok X" "keypair_wf X recipient" "cell_wf c"
  shows "\<exists>s r1 env r2. establish X (keypair_public_key recipient) r0 = (Ok s, r1) \<and>
    seal_cell X s c r = (Ok env, r2) \<and> length env = 572 \<and>
    open_envelope X recipient env = Ok (Some c)"
proof -
  obtain s r1 where s: "establish X (public recipient) r0 = (Ok s, r1)" "session_with X recipient s"
    using establish_ok [OF assms(2,3,5)] by blast
  from seal_open [OF assms(1,2,4) s(2) assms(6), of r] s(1) show ?thesis
    by (auto simp: keypair_public_key_def ENVELOPE_SIZE_def encryption_consts)
qed

theorem session_seals_for_recipient_witness:
  "\<exists>s r1 env r2. establish demo (keypair_public_key (fst (generate demo 4))) 1 = (Ok s, r1) \<and>
    seal_cell demo s (fst (new_dummy demo 2)) 8 = (Ok env, r2) \<and> length env = 572 \<and>
    open_envelope demo (fst (generate demo 4)) env =
      Ok (Some (fst (new_dummy demo 2)))"
proof -
  have "cell_wf (fst (new_dummy demo 2))"
    using new_dummy_wf [OF demo_rng_ok] by (metis prod.collapse)
  from session_seals_for_recipient [OF demo_rng_ok demo_dh_ok demo_hkdf_ok demo_aead_ok
      generate_wf [OF demo_dh_ok] this]
  show ?thesis .
qed

text \<open>Unwrapping accepts exactly the byte strings of the envelope's size, gives back the key and
  the encrypted cell that were wrapped, and reports both lengths otherwise.\<close>

lemma envelope_canonical:
  "(unwrap raw = Ok (p, e) \<longleftrightarrow>
     length (pk_bytes p) = 32 \<and> length e = ENCRYPTED_CELL_SIZE \<and> raw = wrap p e) \<and>
   (is_ok (unwrap raw) \<longleftrightarrow> length raw = 572) \<and>
   (length raw = 572 \<or> unwrap raw = Err (WrongLength 572 (length raw)))"
  using envelope_codec.dec_Ok_iff [OF TrueI, of raw "(p, e)"]
  by (simp add: envelope_valid_def unwrap_def ENVELOPE_SIZE_def encryption_consts)

end
