(* ===== verification/Step_Systems.thy ===== *)
theory Step_Systems
  imports Main
begin

text \<open>
  Runs of step relations: the locale \<open>step_invariant\<close> of a property that every step keeps, and the
  locale \<open>forward_simulation\<close> of an implementation that refines a specification through an
  abstraction function, a step of the one being any number of steps of the other. The components
  interpret them on their own step relations, invariants and specifications.
\<close>

text \<open>When runs are bounded in length, some run cannot be extended.\<close>

lemma bounded_run_ends:
  assumes "\<And>n t. (step ^^ n) s t \<Longrightarrow> n \<le> k"
  shows "\<exists>n t. (step ^^ n) s t \<and> (\<nexists>u. step t u)"
proof (rule ccontr)
  assume "\<not> ?thesis"
  then have more: "\<exists>u. step t u" if "(step ^^ n) s t" for n t using that by blast
  have "\<exists>t. (step ^^ n) s t" for n
  proof (induction n)
    case (Suc n)
    then show ?case using more by (blast intro: relpowp_Suc_I)
  qed simp
  then obtain t where "(step ^^ Suc k) s t" by blast
  from assms [OF this] show False by simp
qed

locale step_invariant =
  fixes step :: "'s \<Rightarrow> 's \<Rightarrow> bool"
    and inv :: "'s \<Rightarrow> bool"
  assumes inv_step: "step s t \<Longrightarrow> inv s \<Longrightarrow> inv t"
begin

lemma inv_run: "step\<^sup>*\<^sup>* s t \<Longrightarrow> inv s \<Longrightarrow> inv t"
  by (induction rule: rtranclp_induct) (auto intro: inv_step)

end

locale forward_simulation = step_invariant step inv
  for step :: "'s \<Rightarrow> 's \<Rightarrow> bool" and inv :: "'s \<Rightarrow> bool" +
  fixes spec_step :: "'a \<Rightarrow> 'a \<Rightarrow> bool"
    and abs :: "'s \<Rightarrow> 'a"
  assumes abs_step: "step s t \<Longrightarrow> inv s \<Longrightarrow> spec_step\<^sup>*\<^sup>* (abs s) (abs t)"
begin

text \<open>A run is a run of the specification, so what all steps of the specification keep holds
  throughout.\<close>

lemma abs_run: "step\<^sup>*\<^sup>* s t \<Longrightarrow> inv s \<Longrightarrow> spec_step\<^sup>*\<^sup>* (abs s) (abs t)"
proof (induction rule: rtranclp_induct)
  case (step t u)
  then have "inv t" using inv_run by blast
  with step abs_step show ?case by (blast intro: rtranclp_trans)
qed simp

lemma spec_invariant:
  assumes "step\<^sup>*\<^sup>* s t" "inv s" "P (abs s)"
    and kept: "\<And>a b. spec_step a b \<Longrightarrow> P a \<Longrightarrow> P b"
  shows "P (abs t)"
  using abs_run [OF assms(1,2)] assms(3) by (induction rule: rtranclp_induct) (auto intro: kept)

end

end
