(* ===== verification/Node.thy ===== *)
theory Node
  imports Forwarding Keyed_Store Step_Systems
begin

text \<open>
  \<open>crates/veil-relay/src/config.rs\<close>, \<open>metrics.rs\<close> and \<open>node.rs\<close>: configuration, counters, the
  relay's state, the processing of one connection, forwarding with its pool of outbound
  connections, and the accept loop with its limit. The network is the parameter \<open>N\<close>: dialling
  an address and writing on a connection, over a state \<open>'w\<close> of its own. One iteration of the
  connection loop is one step; concurrent connections are interleavings of these steps.
\<close>

section \<open>Configuration and counters\<close>

text \<open>A socket address as the program uses it: the displayed host and the port.\<close>

record socket_addr =
  sa_host :: string
  sa_port :: u16

definition socket_addr_to_string :: "socket_addr \<Rightarrow> string" where
  "socket_addr_to_string a = sa_host a @ '':'' @ show_nat (unat (sa_port a))"

datatype relay_error = Config string | Io io_error | OnionFailure onion_error

record relay_config =
  listen_addr :: socket_addr
  relay_id :: string
  static_secret_hex :: "string option"
  max_connections :: nat

definition default_max_connections :: nat where
  "default_max_connections = 256"

text \<open>
  \<open>RelayConfig::load\<close>, with the file system's \<open>read_to_string\<close> and \<open>toml::from_str\<close> as
  parameters; the TOML parser yields the optional fields, whose defaults the derived
  \<open>Deserialize\<close> fills in.
\<close>

record raw_config =
  raw_listen_addr :: socket_addr
  raw_relay_id :: string
  raw_static_secret_hex :: "string option"
  raw_max_connections :: "nat option"

definition load_config :: "(string \<Rightarrow> (string, string) outcome) \<Rightarrow> (string \<Rightarrow> (raw_config, string) outcome)
    \<Rightarrow> string \<Rightarrow> (relay_config, relay_error) outcome" where
  "load_config read_to_string toml_from_str path =
     and_then (map_err (\<lambda>e. Config (''cannot read '' @ path @ '': '' @ e)) (read_to_string path)) (\<lambda>raw.
       and_then (map_err (\<lambda>e. Config (''invalid config: '' @ e)) (toml_from_str raw)) (\<lambda>f.
         Ok \<lparr>listen_addr = raw_listen_addr f, relay_id = raw_relay_id f,
             static_secret_hex = raw_static_secret_hex f,
             max_connections = (case raw_max_connections f of Some n \<Rightarrow> n
               | None \<Rightarrow> default_max_connections)\<rparr>))"

record metrics =
  cells_forwarded :: u64
  cells_delivered :: u64
  decrypt_failures :: u64
  connections_rejected :: u64

definition metrics_default :: metrics where
  "metrics_default = \<lparr>cells_forwarded = 0, cells_delivered = 0, decrypt_failures = 0,
     connections_rejected = 0\<rparr>"

definition snapshot :: "metrics \<Rightarrow> metrics" where
  "snapshot m = \<lparr>cells_forwarded = cells_forwarded m, cells_delivered = cells_delivered m,
     decrypt_failures = decrypt_failures m, connections_rejected = connections_rejected m\<rparr>"

section \<open>The node\<close>

text \<open>Connections are handles of the network; \<open>delivery\<close> is what was sent on the delivery channel,
  which its receiver may have closed.\<close>

type_synonym connection_pool = "(string \<times> nat) list"

record relay_node =
  node_config :: relay_config
  node_keypair :: keypair
  node_metrics :: metrics
  outbound :: connection_pool
  delivery :: "bytes list"
  delivery_open :: bool
  permits :: nat

definition node_new :: "relay_config \<Rightarrow> keypair \<Rightarrow> relay_node" where
  "node_new cfg kp = \<lparr>node_config = cfg, node_keypair = kp, node_metrics = metrics_default,
     outbound = [], delivery = [], delivery_open = True, permits = max_connections cfg\<rparr>"

record 'w net =
  net_connect :: "string \<Rightarrow> 'w \<Rightarrow> (nat, io_error) outcome \<times> 'w"
  net_write :: "nat \<Rightarrow> bytes \<Rightarrow> 'w \<Rightarrow> (unit, io_error) outcome \<times> 'w"

definition net_write_frame :: "'w net \<Rightarrow> nat \<Rightarrow> bytes \<Rightarrow> 'w \<Rightarrow> (unit, io_error) outcome \<times> 'w" where
  "net_write_frame N h b =
     then_st (net_write N h (u32_to_be_bytes (of_nat (length b)))) (\<lambda>_. net_write N h b)"

definition get_or_connect :: "'w net \<Rightarrow> string \<Rightarrow> relay_node \<times> 'w
    \<Rightarrow> (nat, relay_error) outcome \<times> relay_node \<times> 'w" where
  "get_or_connect N addr = (\<lambda>(node, w).
     case map_of (outbound node) addr of
       Some h \<Rightarrow> (Ok h, node, w)
     | None \<Rightarrow>
         (case net_connect N addr w of
            (Ok h, w) \<Rightarrow> (Ok h, node\<lparr>outbound := AList.update addr h (outbound node)\<rparr>, w)
          | (Err e, w) \<Rightarrow> (Err (Io e), node, w)
          | (Panic, w) \<Rightarrow> (Panic, node, w)))"

definition forward :: "'w net \<Rightarrow> string \<Rightarrow> bytes \<Rightarrow> relay_node \<times> 'w
    \<Rightarrow> (unit, relay_error) outcome \<times> relay_node \<times> 'w" where
  "forward N hop b =
     then_st (get_or_connect N hop) (\<lambda>h (node, w).
       case net_write_frame N h b w of
         (Ok _, w) \<Rightarrow> (Ok (), node, w)
       | (Panic, w) \<Rightarrow> (Panic, node, w)
       | (Err _, w) \<Rightarrow>
           then_st (get_or_connect N hop) (\<lambda>h (node, w).
             case net_write_frame N h b w of
               (Ok _, w) \<Rightarrow> (Ok (), node, w)
             | (Err e, w) \<Rightarrow> (Err (Io e), node, w)
             | (Panic, w) \<Rightarrow> (Panic, node, w))
           (node\<lparr>outbound := AList.delete hop (outbound node)\<rparr>, w))"

text \<open>Counters are incremented with \<open>fetch_add\<close>, which wraps.\<close>

definition count_forwarded :: "relay_node \<Rightarrow> relay_node" where
  "count_forwarded n = n\<lparr>node_metrics := (node_metrics n)\<lparr>cells_forwarded := cells_forwarded (node_metrics n) + 1\<rparr>\<rparr>"

definition count_delivered :: "relay_node \<Rightarrow> relay_node" where
  "count_delivered n = n\<lparr>node_metrics := (node_metrics n)\<lparr>cells_delivered := cells_delivered (node_metrics n) + 1\<rparr>\<rparr>"

definition count_failure :: "relay_node \<Rightarrow> relay_node" where
  "count_failure n = n\<lparr>node_metrics := (node_metrics n)\<lparr>decrypt_failures := decrypt_failures (node_metrics n) + 1\<rparr>\<rparr>"

definition count_rejected :: "relay_node \<Rightarrow> relay_node" where
  "count_rejected n = n\<lparr>node_metrics := (node_metrics n)\<lparr>connections_rejected := connections_rejected (node_metrics n) + 1\<rparr>\<rparr>"

definition send_delivery :: "bytes \<Rightarrow> relay_node \<Rightarrow> relay_node" where
  "send_delivery b n = (if delivery_open n then n\<lparr>delivery := delivery n @ [b]\<rparr> else n)"

text \<open>What is done with one frame.\<close>

definition process_frame :: "'r externals \<Rightarrow> 'w net \<Rightarrow> bytes \<Rightarrow> relay_node \<times> 'w
    \<Rightarrow> (unit, relay_error) outcome \<times> relay_node \<times> 'w" where
  "process_frame X N frame = (\<lambda>(node, w).
     case peel_onion_layer X (node_keypair node) frame of
       Err e \<Rightarrow> (Ok (), count_failure node, w)
     | Panic \<Rightarrow> (Panic, node, w)
     | Ok (Forward hop b) \<Rightarrow>
         then_st (forward N hop b) (\<lambda>_ (node, w). (Ok (), count_forwarded node, w)) (node, w)
     | Ok (Deliver b) \<Rightarrow> (Ok (), count_delivered (send_delivery b node), w))"

text \<open>One iteration of the connection's loop: the rest of the stream, or the end.\<close>

datatype progress = Continue bytes | Finished "(unit, relay_error) outcome"

definition connection_step :: "'r externals \<Rightarrow> 'w net \<Rightarrow> bytes \<Rightarrow> relay_node \<times> 'w
    \<Rightarrow> progress \<times> relay_node \<times> 'w" where
  "connection_step X N s st =
     (case read_exact 4 s of
        Ok (len_buf, s) \<Rightarrow>
          (let len = unat (u32_from_be_bytes len_buf) in
           case read_exact len s of
             Ok (frame, s) \<Rightarrow>
               (case process_frame X N frame st of
                  (Ok _, st) \<Rightarrow> (Continue s, st)
                | (Err e, st) \<Rightarrow> (Finished (Err e), st)
                | (Panic, st) \<Rightarrow> (Finished Panic, st))
           | Err e \<Rightarrow> (Finished (Err (Io e)), st)
           | Panic \<Rightarrow> (Finished Panic, st))
      | _ \<Rightarrow> (Finished (Ok ()), st))"

lemma connection_step_eq:
  "connection_step X N s st =
     (case read_frame s of
        Ok (frame, s') \<Rightarrow>
          (case process_frame X N frame st of
             (Ok _, st') \<Rightarrow> (Continue s', st')
           | (Err e, st') \<Rightarrow> (Finished (Err e), st')
           | (Panic, st') \<Rightarrow> (Finished Panic, st'))
      | _ \<Rightarrow> (Finished (if length s < 4 then Ok () else Err (Io UnexpectedEof)), st))"
  unfolding connection_step_def read_frame_def
  by (cases "length s < 4"; cases "length (drop 4 s) < unat (u32_from_be_bytes (take 4 s))")
    (simp_all add: read_exact_def Let_def)

lemma connection_step_Continue_iff:
  "connection_step X N s st = (Continue s', st') \<longleftrightarrow>
     (\<exists>frame. read_frame s = Ok (frame, s') \<and> process_frame X N frame st = (Ok (), st'))"
proof (cases "read_frame s")
  case (Ok x)
  obtain frame rest where x: "x = (frame, rest)" by fastforce
  obtain res st1 where p: "process_frame X N frame st = (res, st1)" by (rule prod.exhaust)
  show ?thesis by (cases res) (simp_all add: connection_step_eq Ok x p)
qed (simp_all add: connection_step_eq)

lemma connection_step_shorter:
  "connection_step X N s st = (Continue s', st') \<Longrightarrow> length s' < length s"
  unfolding connection_step_Continue_iff using length_read_frame by blast

function handle_connection :: "'r externals \<Rightarrow> 'w net \<Rightarrow> bytes \<Rightarrow> relay_node \<times> 'w
    \<Rightarrow> (unit, relay_error) outcome \<times> relay_node \<times> 'w" where
  "handle_connection X N s st =
     (case connection_step X N s st of
        (Continue s', st') \<Rightarrow> handle_connection X N s' st'
      | (Finished res, st') \<Rightarrow> (res, st'))"
  by pat_completeness auto
termination
  by (relation "measure (\<lambda>(_, _, s, _). length s)") (auto dest!: connection_step_shorter [OF sym])

declare handle_connection.simps [simp del]

section \<open>The accept loop\<close>

text \<open>\<open>try_acquire_owned\<close> on the limiter: a permit, or a refusal that is counted.\<close>

definition accept_connection :: "relay_node \<Rightarrow> bool \<times> relay_node" where
  "accept_connection n = (if 0 < permits n then (True, n\<lparr>permits := permits n - 1\<rparr>)
     else (False, count_rejected n))"

definition release_permit :: "relay_node \<Rightarrow> relay_node" where
  "release_permit n = n\<lparr>permits := permits n + 1\<rparr>"

text \<open>
  The running relay: its node, the network, the unread bytes of every open inbound connection,
  and, for the statements only, the frames that were read, in order, how many connections ended in
  an error after reading one, and how many were refused.
\<close>

record 'w relay_system =
  sys_node :: relay_node
  sys_net :: 'w
  sys_conns :: "bytes list"
  sys_frames :: "bytes list"
  sys_aborted :: nat
  sys_refused :: nat

definition frame_read :: "bytes \<Rightarrow> bytes list" where
  "frame_read s = (case read_frame s of Ok (frame, _) \<Rightarrow> [frame] | _ \<Rightarrow> [])"

definition remove_nth :: "nat \<Rightarrow> 'a list \<Rightarrow> 'a list" where
  "remove_nth i xs = take i xs @ drop (Suc i) xs"

inductive relay_step :: "'r externals \<Rightarrow> 'w net \<Rightarrow> 'w relay_system \<Rightarrow> 'w relay_system \<Rightarrow> bool"
  for X :: "'r externals" and N :: "'w net" where
  accepted: "accept_connection (sys_node S) = (True, node) \<Longrightarrow>
    relay_step X N S (S\<lparr>sys_node := node, sys_conns := sys_conns S @ [s]\<rparr>)"
| refused: "accept_connection (sys_node S) = (False, node) \<Longrightarrow>
    relay_step X N S (S\<lparr>sys_node := node, sys_refused := sys_refused S + 1\<rparr>)"
| progressed: "i < length (sys_conns S) \<Longrightarrow>
    connection_step X N (sys_conns S ! i) (sys_node S, sys_net S) = (Continue s, node, w) \<Longrightarrow>
    relay_step X N S (S\<lparr>sys_node := node, sys_net := w, sys_conns := (sys_conns S)[i := s],
      sys_frames := sys_frames S @ frame_read (sys_conns S ! i)\<rparr>)"
| finished: "i < length (sys_conns S) \<Longrightarrow>
    connection_step X N (sys_conns S ! i) (sys_node S, sys_net S) = (Finished res, node, w) \<Longrightarrow>
    frames = frame_read (sys_conns S ! i) \<Longrightarrow>
    relay_step X N S (S\<lparr>sys_node := release_permit node, sys_net := w,
      sys_conns := remove_nth i (sys_conns S), sys_frames := sys_frames S @ frames,
      sys_aborted := sys_aborted S + length frames\<rparr>)"

definition relay_start :: "relay_config \<Rightarrow> keypair \<Rightarrow> 'w \<Rightarrow> 'w relay_system" where
  "relay_start cfg kp w = \<lparr>sys_node = node_new cfg kp, sys_net = w, sys_conns = [],
     sys_frames = [], sys_aborted = 0, sys_refused = 0\<rparr>"

section \<open>Lemmas on forwarding\<close>

text \<open>Network calls return results and do not panic; a network is reachable when every dial gives
  a connection that takes the next frame, and reliable when no call fails at all.\<close>

definition net_total :: "'w net \<Rightarrow> bool" where
  "net_total N \<longleftrightarrow> (\<forall>a w. fst (net_connect N a w) \<noteq> Panic) \<and> (\<forall>h bs w. fst (net_write N h bs w) \<noteq> Panic)"

definition net_reachable :: "'w net \<Rightarrow> bool" where
  "net_reachable N \<longleftrightarrow>
     (\<forall>a w. \<exists>h w'. net_connect N a w = (Ok h, w') \<and> (\<forall>b. \<exists>w''. net_write_frame N h b w' = (Ok (), w'')))"

definition net_reliable :: "'w net \<Rightarrow> bool" where
  "net_reliable N \<longleftrightarrow>
     (\<forall>a w. \<exists>h w'. net_connect N a w = (Ok h, w')) \<and> (\<forall>h bs w. \<exists>w'. net_write N h bs w = (Ok (), w'))"

lemma net_reliable_write_frame: "net_reliable N \<Longrightarrow> \<exists>w'. net_write_frame N h b w = (Ok (), w')"
  unfolding net_reliable_def net_write_frame_def then_st_Ok_iff by blast

lemma net_reliable_reachable: "net_reliable N \<Longrightarrow> net_reachable N"
  unfolding net_reachable_def
proof (intro allI)
  fix a w
  assume N: "net_reliable N"
  then obtain h w' where "net_connect N a w = (Ok h, w')" unfolding net_reliable_def by blast
  with net_reliable_write_frame [OF N, of h _ w'] show
    "\<exists>h w'. net_connect N a w = (Ok h, w') \<and> (\<forall>b. \<exists>w''. net_write_frame N h b w' = (Ok (), w''))"
    by blast
qed

lemma net_reliable_total: "net_reliable N \<Longrightarrow> net_total N"
  unfolding net_reliable_def net_total_def by (metis fst_conv outcome.distinct(3))

lemma net_write_frame_no_panic: "net_total N \<Longrightarrow> fst (net_write_frame N h b w) \<noteq> Panic"
  unfolding net_write_frame_def net_total_def by (intro then_st_not_Panic) auto

lemma get_or_connect_pool:
  assumes "get_or_connect N a (node, w) = (res, node', w')"
  shows "\<exists>p. node' = node\<lparr>outbound := p\<rparr> \<and> (\<forall>k. k \<noteq> a \<longrightarrow> map_of p k = map_of (outbound node) k) \<and>
    (\<forall>h. res = Ok h \<longrightarrow> map_of p a = Some h)"
proof (cases "map_of (outbound node) a")
  case None
  obtain r w1 where "net_connect N a w = (r, w1)" by fastforce
  with None assms show ?thesis
    by (cases r) (auto simp: get_or_connect_def update_conv' intro: exI [of _ "outbound node"])
next
  case (Some h)
  with assms show ?thesis
    by (auto simp: get_or_connect_def intro: exI [of _ "outbound node"])
qed

text \<open>Forwarding touches the entry of its own next hop only.\<close>

lemma forward_pool:
  assumes "forward N hop b (node, w) = (res, node', w')"
  shows "\<exists>p. node' = node\<lparr>outbound := p\<rparr> \<and> (\<forall>k. k \<noteq> hop \<longrightarrow> map_of p k = map_of (outbound node) k)"
proof -
  obtain r1 n1 w1 where c1: "get_or_connect N hop (node, w) = (r1, n1, w1)" by (metis prod_cases3)
  from get_or_connect_pool [OF c1] obtain p1 where p1: "n1 = node\<lparr>outbound := p1\<rparr>"
      "\<forall>k. k \<noteq> hop \<longrightarrow> map_of p1 k = map_of (outbound node) k" by blast
  show ?thesis
  proof (cases r1)
    case (Ok h)
    obtain r2 w2 where wr: "net_write_frame N h b w1 = (r2, w2)" by fastforce
    let ?n = "n1\<lparr>outbound := AList.delete hop (outbound n1)\<rparr>"
    obtain r3 n3 w3 where c3: "get_or_connect N hop (?n, w2) = (r3, n3, w3)" by (metis prod_cases3)
    from get_or_connect_pool [OF c3] obtain p3 where p3: "n3 = node\<lparr>outbound := p3\<rparr>"
        "\<forall>k. k \<noteq> hop \<longrightarrow> map_of p3 k = map_of (outbound node) k"
      using p1 by (auto simp: delete_conv')
    have "node' = n1 \<or> node' = n3"
      using assms c1 Ok wr c3
      by (cases r2; cases r3) (auto simp: forward_def split: prod.splits outcome.splits)
    with p1 p3 show ?thesis by blast
  qed (use assms c1 p1 in \<open>auto simp: forward_def\<close>)
qed

lemma forward_reachable:
  assumes "net_total N" "net_reachable N"
  shows "\<exists>node' w' h w0. forward N hop b (node, w) = (Ok (), node', w') \<and>
    map_of (outbound node') hop = Some h \<and> net_write_frame N h b w0 = (Ok (), w')"
proof -
  have fresh: "\<exists>h w1 w2. get_or_connect N hop (n, w) = (Ok h, n\<lparr>outbound := AList.update hop h (outbound n)\<rparr>, w1) \<and>
      net_write_frame N h b w1 = (Ok (), w2)" if "map_of (outbound n) hop = None" for n w
  proof -
    obtain h w1 where c: "net_connect N hop w = (Ok h, w1)" "\<exists>w2. net_write_frame N h b w1 = (Ok (), w2)"
      using assms(2) unfolding net_reachable_def by blast
    with that have "get_or_connect N hop (n, w) = (Ok h, n\<lparr>outbound := AList.update hop h (outbound n)\<rparr>, w1)"
      by (simp add: get_or_connect_def)
    with c(2) show ?thesis by blast
  qed
  show ?thesis
  proof (cases "map_of (outbound node) hop")
    case None
    from fresh [OF None, of w] show ?thesis
      by (auto simp: forward_def update_conv')
  next
    case (Some h)
    obtain r2 w2 where wr: "net_write_frame N h b w = (r2, w2)" by fastforce
    let ?n = "node\<lparr>outbound := AList.delete hop (outbound node)\<rparr>"
    have "map_of (outbound ?n) hop = None" by (simp add: delete_conv')
    from fresh [OF this, of w2] show ?thesis
      using Some wr net_write_frame_no_panic [OF assms(1), of h b w]
      by (cases r2) (auto simp: forward_def get_or_connect_def [of N hop] update_conv'
          split: option.splits)
  qed
qed

section \<open>Lemmas on processing\<close>

text \<open>The number of frames a node has accounted for, modulo 2^64.\<close>

lemmas counters = count_forwarded_def count_delivered_def count_failure_def count_rejected_def
  send_delivery_def release_permit_def

text \<open>The bodies the exit role of a key delivers from a sequence of frames, what it forwards, and
  the frames it cannot peel.\<close>

fun deliveries :: "'r externals \<Rightarrow> keypair \<Rightarrow> bytes list \<Rightarrow> bytes list" where
  "deliveries X kp [] = []"
| "deliveries X kp (f # fs) =
     (case peel_onion_layer X kp f of Ok (Deliver b) \<Rightarrow> b # deliveries X kp fs | _ \<Rightarrow> deliveries X kp fs)"

fun forwards :: "'r externals \<Rightarrow> keypair \<Rightarrow> bytes list \<Rightarrow> (string \<times> bytes) list" where
  "forwards X kp [] = []"
| "forwards X kp (f # fs) =
     (case peel_onion_layer X kp f of Ok (Forward h b) \<Rightarrow> (h, b) # forwards X kp fs | _ \<Rightarrow> forwards X kp fs)"

definition unpeelable :: "'r externals \<Rightarrow> keypair \<Rightarrow> bytes list \<Rightarrow> bytes list" where
  "unpeelable X kp frames = filter (\<lambda>f. \<not> is_ok (peel_onion_layer X kp f)) frames"

lemma deliveries_append: "deliveries X kp (xs @ ys) = deliveries X kp xs @ deliveries X kp ys"
  by (induction xs) (auto split: outcome.splits onion_payload.splits)

lemma forwards_append: "forwards X kp (xs @ ys) = forwards X kp xs @ forwards X kp ys"
  by (induction xs) (auto split: outcome.splits onion_payload.splits)

lemma unpeelable_append: "unpeelable X kp (xs @ ys) = unpeelable X kp xs @ unpeelable X kp ys"
  by (simp add: unpeelable_def)

lemmas frames_append = deliveries_append forwards_append unpeelable_append

text \<open>What processing frames never changes.\<close>

definition same_setup :: "relay_node \<Rightarrow> relay_node \<Rightarrow> bool" where
  "same_setup m n \<longleftrightarrow> node_config m = node_config n \<and> node_keypair m = node_keypair n \<and>
     permits m = permits n \<and> delivery_open m = delivery_open n \<and>
     connections_rejected (node_metrics m) = connections_rejected (node_metrics n)"

text \<open>What frames leave in a node's counters, from what was there before; \<open>k\<close> of them could not be
  forwarded.\<close>

definition tallies :: "'r externals \<Rightarrow> bytes list \<Rightarrow> nat \<Rightarrow> relay_node \<Rightarrow> relay_node \<Rightarrow> bool" where
  "tallies X frames k m n \<longleftrightarrow> (let kp = node_keypair m in
     cells_delivered (node_metrics n) = cells_delivered (node_metrics m) + of_nat (length (deliveries X kp frames)) \<and>
     cells_forwarded (node_metrics n) + of_nat k =
       cells_forwarded (node_metrics m) + of_nat (length (forwards X kp frames)) \<and>
     decrypt_failures (node_metrics n) = decrypt_failures (node_metrics m) + of_nat (length (unpeelable X kp frames)))"

lemma process_frame_effect:
  assumes "process_frame X N frame (node, w) = (res, node', w')"
  shows "same_setup node' node \<and> tallies X [frame] (if is_ok res then 0 else 1) node node' \<and>
    delivery node' = delivery node @ (if delivery_open node then deliveries X (node_keypair node) [frame] else [])"
proof (cases "peel_onion_layer X (node_keypair node) frame")
  case (Ok p)
  show ?thesis
  proof (cases p)
    case (Forward hop b)
    obtain r n1 w1 where f: "forward N hop b (node, w) = (r, n1, w1)" by (metis prod_cases3)
    from forward_pool [OF f] obtain q where "n1 = node\<lparr>outbound := q\<rparr>" by blast
    with assms f Ok Forward show ?thesis
      by (cases r) (auto simp: process_frame_def counters same_setup_def tallies_def unpeelable_def)
  qed (use assms Ok in \<open>auto simp: process_frame_def counters same_setup_def tallies_def unpeelable_def split: if_splits\<close>)
qed (use assms in \<open>auto simp: process_frame_def counters same_setup_def tallies_def unpeelable_def peel_no_panic\<close>)

lemma connection_step_effect:
  assumes "connection_step X N s (node, w) = (pr, node', w')"
  shows "same_setup node' node \<and>
    tallies X (frame_read s) (case pr of Continue _ \<Rightarrow> 0 | Finished _ \<Rightarrow> length (frame_read s)) node node' \<and>
    delivery node' = delivery node @ (if delivery_open node then deliveries X (node_keypair node) (frame_read s) else [])"
proof (cases "read_frame s")
  case (Ok x)
  obtain frame rest where x: "x = (frame, rest)" by fastforce
  obtain r n1 w1 where p: "process_frame X N frame (node, w) = (r, n1, w1)" by (metis prod_cases3)
  from process_frame_effect [OF p] assms show ?thesis
    by (cases r) (auto simp: connection_step_eq frame_read_def Ok x p)
qed (use assms in \<open>auto simp: connection_step_eq same_setup_def frame_read_def tallies_def unpeelable_def\<close>)

lemma tallies_append:
  assumes "tallies X xs j l m" "tallies X ys k m n" "node_keypair m = node_keypair l"
  shows "tallies X (xs @ ys) (j + k) l n"
proof -
  have sum: "c + (of_nat j + of_nat k) = a + (x + y)" if "b + of_nat j = a + x" "c + of_nat k = b + y" for a b c x y :: u64
  proof -
    have "c + (of_nat j + of_nat k) = (c + of_nat k) + of_nat j" by (simp add: add.commute add.left_commute)
    also have "\<dots> = (b + of_nat j) + y" unfolding that(2) by (simp add: add.commute add.left_commute)
    finally show ?thesis unfolding that(1) by (simp add: add.assoc)
  qed
  show ?thesis
    using assms(1,2) unfolding tallies_def Let_def assms(3) frames_append
    by (auto simp: add.assoc intro: sum)
qed

lemma tallies_permits [simp]: "tallies X frames k m (n\<lparr>permits := p\<rparr>) = tallies X frames k m n"
  by (simp add: tallies_def)

lemma length_remove_nth: "i < length xs \<Longrightarrow> length (remove_nth i xs) = length xs - 1"
  by (simp add: remove_nth_def)

text \<open>The invariant of the running relay; \<open>taken\<close> is what has been taken out of its delivery channel.\<close>

definition relay_inv :: "'r externals \<Rightarrow> relay_config \<Rightarrow> keypair \<Rightarrow> bytes list \<Rightarrow> 'w relay_system \<Rightarrow> bool" where
  "relay_inv X cfg kp taken S \<longleftrightarrow>
     node_config (sys_node S) = cfg \<and> node_keypair (sys_node S) = kp \<and> delivery_open (sys_node S) \<and>
     permits (sys_node S) + length (sys_conns S) = max_connections cfg \<and>
     connections_rejected (node_metrics (sys_node S)) = of_nat (sys_refused S) \<and>
     taken @ delivery (sys_node S) = deliveries X kp (sys_frames S) \<and>
     tallies X (sys_frames S) (sys_aborted S) (node_new cfg kp) (sys_node S)"

lemma relay_inv_start: "relay_inv X cfg kp [] (relay_start cfg kp w)"
  by (simp add: relay_inv_def relay_start_def node_new_def tallies_def metrics_default_def unpeelable_def)

lemma node_new_setup [simp]:
  "node_keypair (node_new cfg kp) = kp" "delivery_open (node_new cfg kp)" "node_config (node_new cfg kp) = cfg"
  by (simp_all add: node_new_def)

lemma relay_inv_step:
  assumes "relay_step X N S T" "relay_inv X cfg kp taken S"
  shows "relay_inv X cfg kp taken T"
  using assms
proof (induction rule: relay_step.induct)
  case (accepted S node s)
  then show ?case
    by (auto simp: relay_inv_def accept_connection_def tallies_def split: if_splits)
next
  case (refused S node)
  then show ?case
    by (auto simp: relay_inv_def accept_connection_def counters tallies_def split: if_splits)
next
  case (progressed i S s node w)
  from connection_step_effect [OF progressed(2)] progressed(3) tallies_append [of X "sys_frames S" "sys_aborted S" "node_new cfg kp" "sys_node S"
      "frame_read (sys_conns S ! i)" 0 node] show ?case
    by (auto simp: relay_inv_def same_setup_def deliveries_append simp flip: append_assoc)
next
  case (finished i S res node w frames)
  from connection_step_effect [OF finished(2)] finished(1,3,4) tallies_append [of X "sys_frames S" "sys_aborted S" "node_new cfg kp" "sys_node S"
      frames "length frames" node] show ?case
    by (auto simp: relay_inv_def same_setup_def release_permit_def length_remove_nth deliveries_append simp flip: append_assoc)
qed

interpretation relay_runs: step_invariant "relay_step X N" "relay_inv X cfg kp taken" for X N cfg kp taken
  by unfold_locales (rule relay_inv_step)

section \<open>Lemmas on a whole connection\<close>

lemma handle_connection_frame:
  assumes "length frame < 4294967296" "process_frame X N frame st = (Ok (), st')"
  shows "handle_connection X N (write_frame frame @ s) st = handle_connection X N s st'"
  using assms
  by (subst handle_connection.simps) (simp add: connection_step_eq read_write_frame)

lemma handle_connection_end: "length s < 4 \<Longrightarrow> handle_connection X N s st = (Ok (), st)"
  by (subst handle_connection.simps) (simp add: connection_step_def read_exact_def)

lemma process_frame_reachable:
  assumes "net_total N" "net_reachable N"
  shows "\<exists>node' w'. process_frame X N frame (node, w) = (Ok (), node', w') \<and>
    node_keypair node' = node_keypair node \<and> delivery_open node' = delivery_open node \<and>
    delivery node' = delivery node @ (if delivery_open node then deliveries X (node_keypair node) [frame] else []) \<and>
    cells_delivered (node_metrics node') = cells_delivered (node_metrics node) +
      of_nat (length (deliveries X (node_keypair node) [frame])) \<and>
    cells_forwarded (node_metrics node') = cells_forwarded (node_metrics node) +
      of_nat (length (forwards X (node_keypair node) [frame]))"
proof (cases "peel_onion_layer X (node_keypair node) frame")
  case (Ok p)
  show ?thesis
  proof (cases p)
    case (Forward hop b)
    obtain n1 w1 where f: "forward N hop b (node, w) = (Ok (), n1, w1)"
      using forward_reachable [OF assms] by blast
    from forward_pool [OF f] obtain q where "n1 = node\<lparr>outbound := q\<rparr>" by blast
    with f Ok Forward show ?thesis by (auto simp: process_frame_def counters)
  qed (auto simp: process_frame_def counters Ok)
qed (auto simp: process_frame_def counters peel_no_panic)

lemma handle_connection_frames:
  assumes "net_total N" "net_reachable N" "list_all (\<lambda>f. length f < 4294967296) frames" "length rest < 4"
  shows "\<exists>node' w'. handle_connection X N (concat (map write_frame frames) @ rest) (node, w) = (Ok (), node', w') \<and>
    delivery node' = delivery node @ (if delivery_open node then deliveries X (node_keypair node) frames else []) \<and>
    cells_delivered (node_metrics node') = cells_delivered (node_metrics node) +
      of_nat (length (deliveries X (node_keypair node) frames)) \<and>
    cells_forwarded (node_metrics node') = cells_forwarded (node_metrics node) +
      of_nat (length (forwards X (node_keypair node) frames))"
  using assms(3)
proof (induction frames arbitrary: node w)
  case Nil
  then show ?case using assms(4) by (simp add: handle_connection_end)
next
  case (Cons f frames)
  obtain n1 w1 where p: "process_frame X N f (node, w) = (Ok (), n1, w1)"
      "node_keypair n1 = node_keypair node" "delivery_open n1 = delivery_open node"
      "delivery n1 = delivery node @ (if delivery_open node then deliveries X (node_keypair node) [f] else [])"
      "cells_delivered (node_metrics n1) = cells_delivered (node_metrics node) +
        of_nat (length (deliveries X (node_keypair node) [f]))"
      "cells_forwarded (node_metrics n1) = cells_forwarded (node_metrics node) +
        of_nat (length (forwards X (node_keypair node) [f]))"
    using process_frame_reachable [OF assms(1,2)] by blast
  have split: "deliveries X kp (f # frames) = deliveries X kp [f] @ deliveries X kp frames"
    "forwards X kp (f # frames) = forwards X kp [f] @ forwards X kp frames" for kp
    using deliveries_append [of X kp "[f]" frames] forwards_append [of X kp "[f]" frames]
    by (simp_all only: append_Cons append_Nil)
  have "handle_connection X N (concat (map write_frame (f # frames)) @ rest) (node, w) =
      handle_connection X N (concat (map write_frame frames) @ rest) (n1, w1)"
    using handle_connection_frame [OF _ p(1)] Cons.prems by simp
  with Cons.IH [of n1 w1] Cons.prems p(2-) show ?case
    by (auto simp: split add.assoc simp del: deliveries.simps forwards.simps)
qed

section \<open>Properties\<close>

text \<open>C11. Whatever the order in which connections arrive, progress and end, a running relay never
  serves more than \<open>max_connections\<close> at a time, holds exactly one permit per open connection, and
  counts right, modulo 2^64: its counters are the numbers of refused connections, of the frames it
  read that were for it, that did not peel, and that were for another relay, except those whose
  forwarding failed and ended their connection. What it has delivered are the bodies of the frames
  for it, in the order in which they were read; identity and configuration never change.\<close>

theorem relay_limits_and_accounts:
  assumes "(relay_step X N)\<^sup>*\<^sup>* (relay_start cfg kp w) S"
  shows "length (sys_conns S) \<le> max_connections cfg \<and>
    permits (sys_node S) = max_connections cfg - length (sys_conns S) \<and>
    delivery (sys_node S) = deliveries X kp (sys_frames S) \<and>
    cells_delivered (node_metrics (sys_node S)) = of_nat (length (deliveries X kp (sys_frames S))) \<and>
    cells_forwarded (node_metrics (sys_node S)) + of_nat (sys_aborted S) =
      of_nat (length (forwards X kp (sys_frames S))) \<and>
    decrypt_failures (node_metrics (sys_node S)) = of_nat (length (unpeelable X kp (sys_frames S))) \<and>
    connections_rejected (node_metrics (sys_node S)) = of_nat (sys_refused S) \<and>
    node_keypair (sys_node S) = kp \<and> node_config (sys_node S) = cfg"
  using relay_runs.inv_run [OF assms relay_inv_start]
  by (auto simp: relay_inv_def tallies_def node_new_def metrics_default_def)

text \<open>C14. Over a network in which a fresh dial works, forwarding always succeeds: a stale pooled
  connection is dropped and replaced, the whole frame is written last on the connection the pool
  then holds for the next hop, no other entry of the pool changes and nothing else in the node.\<close>

theorem forward_recovers:
  assumes "net_total N" "net_reachable N"
  shows "\<exists>pool w' h w0. forward N hop b (node, w) = (Ok (), node\<lparr>outbound := pool\<rparr>, w') \<and>
    map_of pool hop = Some h \<and> net_write_frame N h b w0 = (Ok (), w') \<and>
    (\<forall>a. a \<noteq> hop \<longrightarrow> map_of pool a = map_of (outbound node) a)"
proof -
  obtain node' w' h w0 where f: "forward N hop b (node, w) = (Ok (), node', w')"
      "map_of (outbound node') hop = Some h" "net_write_frame N h b w0 = (Ok (), w')"
    using forward_reachable [OF assms] by blast
  from forward_pool [OF f(1)] obtain pool where "node' = node\<lparr>outbound := pool\<rparr>"
      "\<forall>a. a \<noteq> hop \<longrightarrow> map_of pool a = map_of (outbound node) a" by blast
  with f show ?thesis by (intro exI [of _ pool] exI [of _ w'] exI [of _ h] exI [of _ w0]) simp
qed


text \<open>A network that records what is written to whom, and whose first connection is stale.\<close>

definition sample_net :: "(nat \<times> (nat \<times> bytes) list) net" where
  "sample_net = \<lparr>net_connect = (\<lambda>a (n, log). (Ok (Suc n), Suc n, log)),
     net_write = (\<lambda>h bs (n, log). if h = 0 then (Err WriteFailed, n, log) else (Ok (), n, log @ [(h, bs)]))\<rparr>"

lemma sample_net_total: "net_total sample_net"
  by (auto simp: net_total_def sample_net_def)

lemma sample_net_reachable: "net_reachable sample_net"
  by (auto simp: net_reachable_def sample_net_def net_write_frame_def then_st_def)

definition sample_node :: relay_node where
  "sample_node = (node_new \<lparr>listen_addr = \<lparr>sa_host = ''127.0.0.1'', sa_port = 9001\<rparr>, relay_id = ''r'',
     static_secret_hex = None, max_connections = 1\<rparr> (fst (generate demo 1)))\<lparr>outbound := [(''a:1'', 0)]\<rparr>"

theorem forward_recovers_witness:
  "\<exists>w' h. map_of (outbound sample_node) ''a:1'' = Some 0 \<and> h \<noteq> 0 \<and>
     forward sample_net ''a:1'' [5] (sample_node, 0, []) = (Ok (), sample_node\<lparr>outbound := [(''a:1'', h)]\<rparr>, w')"
proof -
  from forward_recovers [OF sample_net_total sample_net_reachable, of "''a:1''" "[5]" sample_node "(0, [])"]
  obtain pool w' where "forward sample_net ''a:1'' [5] (sample_node, 0, []) = (Ok (), sample_node\<lparr>outbound := pool\<rparr>, w')"
    by blast
  then show ?thesis
    by (auto simp: forward_def get_or_connect_def sample_node_def node_new_def sample_net_def
        net_write_frame_def then_st_def)
qed


theorem relay_limits_and_accounts_witness:
  "\<exists>S :: (nat \<times> (nat \<times> bytes) list) relay_system. length (sys_conns S) = 1 \<and>
     permits (sys_node S) = max_connections (node_config sample_node) - length (sys_conns S) \<and>
     node_keypair (sys_node S) = fst (generate demo 1)"
proof -
  let ?cfg = "node_config sample_node" and ?kp = "fst (generate demo 1)"
  let ?S = "relay_start ?cfg ?kp (0, []) :: (nat \<times> (nat \<times> bytes) list) relay_system"
  obtain node where a: "accept_connection (sys_node ?S) = (True, node)"
    by (simp add: accept_connection_def relay_start_def node_new_def sample_node_def)
  let ?T = "?S\<lparr>sys_node := node, sys_conns := sys_conns ?S @ [[]]\<rparr>"
  have "(relay_step demo sample_net)\<^sup>*\<^sup>* ?S ?T"
    by (rule r_into_rtranclp) (rule relay_step.accepted [OF a])
  from relay_limits_and_accounts [OF this] show ?thesis
    by (intro exI [of _ ?T]) (simp add: relay_start_def)
qed

end
