(* ===== verification/Fragmentation.thy ===== *)
theory Fragmentation
  imports Cell
begin

text \<open>
  \<open>crates/veil-core/src/fragmentation.rs\<close>: splitting a message into cells. The lemmas show that
  the sequence counter never wraps, that every produced cell is well formed, and that the cells
  carry the message in order (\<open>fragments_of\<close>, the interface the reassembler is proved against).
\<close>

section \<open>Definitions\<close>

definition MAX_MESSAGE_SIZE :: nat where
  "MAX_MESSAGE_SIZE = PAYLOAD_CAPACITY * 65535"

text \<open>\<open>usize::div_ceil\<close> and \<open>slice::chunks\<close> of the standard library.\<close>

definition div_ceil :: "nat \<Rightarrow> nat \<Rightarrow> nat" where
  "div_ceil a b = (a + b - 1) div b"

function chunks :: "nat \<Rightarrow> 'a list \<Rightarrow> 'a list list" where
  "chunks n xs = (if n = 0 \<or> xs = [] then [] else take n xs # chunks n (drop n xs))"
  by pat_completeness auto
termination
  by (relation "measure (\<lambda>(n, xs). length xs)") auto

declare chunks.simps [simp del]

text \<open>The \<open>for (i, chunk) in message.chunks(..).enumerate()\<close> loop with its \<open>?\<close>.\<close>

fun fragment_loop :: "message_id \<Rightarrow> u16 \<Rightarrow> nat \<Rightarrow> bytes list \<Rightarrow> cell list
    \<Rightarrow> (cell list, veil_error) outcome" where
  "fragment_loop message_id seq_total i [] cells = Ok cells"
| "fragment_loop message_id seq_total i (chunk # rest) cells =
     and_then (new_data message_id (of_nat i) seq_total chunk) (\<lambda>cell.
       fragment_loop message_id seq_total (Suc i) rest (cells @ [cell]))"

definition fragment_message :: "'r externals \<Rightarrow> bytes \<Rightarrow> 'r
    \<Rightarrow> (cell list, veil_error) outcome \<times> 'r" where
  "fragment_message X message r =
     (if message = [] then (Err (MessageTooLarge 0 MAX_MESSAGE_SIZE), r)
      else if length message > MAX_MESSAGE_SIZE
      then (Err (MessageTooLarge (length message) MAX_MESSAGE_SIZE), r)
      else
        let (message_id, r') = fill_bytes X 16 r;
            total_cells = div_ceil (length message) PAYLOAD_CAPACITY;
            seq_total = of_nat total_cells
        in (fragment_loop message_id seq_total 0 (chunks PAYLOAD_CAPACITY message) [], r'))"

section \<open>Chunks\<close>

lemma chunks_Nil [simp]: "chunks n [] = []"
  by (simp add: chunks.simps)

lemma chunks_step: "0 < n \<Longrightarrow> xs \<noteq> [] \<Longrightarrow> chunks n xs = take n xs # chunks n (drop n xs)"
  by (simp add: chunks.simps [of n xs])

lemma concat_chunks: "0 < n \<Longrightarrow> concat (chunks n xs) = xs"
proof (induction n xs rule: chunks.induct)
  case (1 n xs)
  then show ?case by (cases "xs = []") (simp_all add: chunks_step)
qed

lemma div_ceil_pos: "0 < b \<Longrightarrow> 0 < a \<Longrightarrow> div_ceil a b = Suc ((a - 1) div b)"
proof -
  assume "0 < b" "0 < a"
  then have "a + b - 1 = (a - 1) + b" by simp
  then show ?thesis using \<open>0 < b\<close> by (simp only: div_ceil_def div_add_self2)
qed

lemma div_ceil_0: "0 < b \<Longrightarrow> div_ceil 0 b = 0"
  by (simp add: div_ceil_def)

lemma div_ceil_step:
  assumes "0 < b" "0 < a"
  shows "div_ceil a b = Suc (div_ceil (a - b) b)"
proof (cases "a \<le> b")
  case True
  with assms show ?thesis by (simp add: div_ceil_pos div_ceil_0)
next
  case False
  then have "a - 1 = (a - b - 1) + b" by simp
  then have "(a - 1) div b = Suc ((a - b - 1) div b)"
    using assms(1) by (simp only: div_add_self2)
  with assms False show ?thesis by (simp only: div_ceil_pos zero_less_diff not_le)
qed

lemma length_chunks: "0 < n \<Longrightarrow> length (chunks n xs) = div_ceil (length xs) n"
proof (induction n xs rule: chunks.induct)
  case (1 n xs)
  then show ?case
    by (cases "xs = []") (simp_all add: chunks_step div_ceil_step [of n "length xs"] div_ceil_0)
qed

lemma chunks_length_le: "0 < n \<Longrightarrow> c \<in> set (chunks n xs) \<Longrightarrow> length c \<le> n \<and> c \<noteq> []"
proof (induction n xs rule: chunks.induct)
  case (1 n xs)
  then show ?case by (cases "xs = []") (auto simp: chunks_step)
qed

lemma div_ceil_le: "0 < b \<Longrightarrow> a \<le> b * k \<Longrightarrow> div_ceil a b \<le> k"
proof -
  assume b: "0 < b" and le: "a \<le> b * k"
  then have "a + b - 1 < (Suc k) * b" by (simp add: algebra_simps)
  with b have "(a + b - 1) div b < Suc k" by (simp add: div_less_iff_less_mult)
  then show ?thesis by (simp add: div_ceil_def)
qed

lemma le_div_ceil: "0 < b \<Longrightarrow> a \<le> b * div_ceil a b"
proof -
  assume b: "0 < b"
  have "b * div_ceil a b + (a + b - 1) mod b = a + b - 1" by (simp add: div_ceil_def)
  moreover have "(a + b - 1) mod b < b" using b by simp
  ultimately show ?thesis by linarith
qed

section \<open>The loop\<close>

text \<open>Cell \<open>i\<close> of a fragmented message: well formed data with the right identifier and counters.\<close>

definition fragment_at :: "message_id \<Rightarrow> nat \<Rightarrow> nat \<Rightarrow> cell \<Rightarrow> bool" where
  "fragment_at mid tot i c \<longleftrightarrow>
     cell_wf c \<and> cell_type_of c = Data \<and> message_id_of c = mid \<and>
     unat (seq_index_of c) = i \<and> unat (seq_total_of c) = tot"

definition fragments_of :: "message_id \<Rightarrow> bytes \<Rightarrow> cell list \<Rightarrow> bool" where
  "fragments_of mid message cells \<longleftrightarrow>
     cells \<noteq> [] \<and> length cells < 65536 \<and> concat (map payload_of cells) = message \<and>
     (\<forall>i < length cells. fragment_at mid (length cells) i (cells ! i))"

lemma fragment_cell:
  assumes "length mid = 16" "i < tot" "tot < 65536" "length chunk \<le> PAYLOAD_CAPACITY"
  obtains c where "new_data mid (of_nat i) (of_nat tot) chunk = Ok c"
    "fragment_at mid tot i c" "payload_of c = chunk"
proof -
  have "unat (of_nat i :: u16) = i" "unat (of_nat tot :: u16) = tot"
    using assms by (simp_all add: unat_of_nat_u16)
  moreover from this have "(of_nat i :: u16) < of_nat tot"
    using assms(2) by (simp add: word_less_nat_alt)
  then obtain c where c: "new_data mid (of_nat i) (of_nat tot) chunk = Ok c"
    using assms(4) by (auto simp: new_data_Ok_iff)
  ultimately have "fragment_at mid tot i c"
    using new_data_wf [OF c assms(1)] new_data_fields [OF c] by (simp add: fragment_at_def)
  with c new_data_payload [OF c] that show thesis by blast
qed

lemma fragment_loop_ok:
  assumes "length mid = 16" "i + length cs \<le> tot" "tot < 65536"
    "\<forall>c \<in> set cs. length c \<le> PAYLOAD_CAPACITY"
  shows "\<exists>cells. fragment_loop mid (of_nat tot) i cs acc = Ok (acc @ cells) \<and>
    map payload_of cells = cs \<and> (\<forall>k < length cells. fragment_at mid tot (i + k) (cells ! k))"
  using assms
proof (induction cs arbitrary: i acc)
  case (Cons ch cs)
  obtain c where c: "new_data mid (of_nat i) (of_nat tot) ch = Ok c"
      "fragment_at mid tot i c" "payload_of c = ch"
    using fragment_cell [of mid i tot ch] Cons.prems by auto
  obtain cells where cells: "fragment_loop mid (of_nat tot) (Suc i) cs (acc @ [c]) =
      Ok ((acc @ [c]) @ cells)" "map payload_of cells = cs"
      "\<forall>k < length cells. fragment_at mid tot (Suc i + k) (cells ! k)"
    using Cons.IH [of "Suc i" "acc @ [c]"] Cons.prems by auto
  have "\<forall>k < length (c # cells). fragment_at mid tot (i + k) ((c # cells) ! k)"
    using c(2) cells(3) by (auto simp: nth_Cons split: nat.splits)
  with c cells show ?case by (intro exI [of _ "c # cells"]) simp
qed simp

lemma fragments_ofI:
  assumes "fragment_loop mid (of_nat (length cs)) 0 cs [] = Ok cells" "length mid = 16"
    "cs \<noteq> []" "length cs < 65536" "\<forall>c \<in> set cs. length c \<le> PAYLOAD_CAPACITY"
  shows "fragments_of mid (concat cs) cells \<and> map payload_of cells = cs"
proof -
  obtain ds where ds: "fragment_loop mid (of_nat (length cs)) 0 cs [] = Ok ([] @ ds)"
      "map payload_of ds = cs" "\<forall>k < length ds. fragment_at mid (length cs) (0 + k) (ds ! k)"
    using fragment_loop_ok [of mid 0 cs "length cs" "[]"] assms by auto
  with assms(1) have "cells = ds" by simp
  moreover have "length ds = length cs" using ds(2) by (metis length_map)
  ultimately show ?thesis using ds assms by (auto simp: fragments_of_def)
qed

lemma fragment_message_total:
  assumes "rng_ok X" "message \<noteq> []" "length message \<le> MAX_MESSAGE_SIZE"
    "fill_bytes X 16 r = (mid, r')"
  shows "\<exists>cells. fragment_message X message r = (Ok cells, r') \<and> fragments_of mid message cells \<and>
    map payload_of cells = chunks PAYLOAD_CAPACITY message"
proof -
  let ?cs = "chunks PAYLOAD_CAPACITY message"
  have cap: "0 < PAYLOAD_CAPACITY" by (simp add: cell_consts)
  have mid: "length mid = 16" by (rule fill_bytes_length_eq [OF assms(1,4)])
  have n: "length ?cs = div_ceil (length message) PAYLOAD_CAPACITY"
    by (rule length_chunks [OF cap])
  have small: "length ?cs < 65536"
    using div_ceil_le [OF cap, of "length message" 65535] assms(3) n
    by (simp add: MAX_MESSAGE_SIZE_def)
  have fits: "\<forall>c \<in> set ?cs. length c \<le> PAYLOAD_CAPACITY"
    using chunks_length_le [OF cap] by blast
  have ne: "?cs \<noteq> []" using assms(2) cap by (simp add: chunks_step)
  obtain cells where "fragment_loop mid (of_nat (length ?cs)) 0 ?cs [] = Ok cells"
    using fragment_loop_ok [of mid 0 ?cs "length ?cs" "[]"] mid small fits by auto
  moreover from fragments_ofI [OF this mid ne small fits]
  have "fragments_of mid message cells \<and> map payload_of cells = ?cs"
    by (simp add: concat_chunks [OF cap])
  ultimately show ?thesis
    using assms by (auto simp: fragment_message_def n)
qed

section \<open>Properties\<close>

text \<open>C9. Fragmenting a message of admissible size succeeds: the cells carry the message in order in
  488-byte pieces, there are as few of them as the capacity allows, all of them are well-formed data
  cells under one fresh identifier, and their 16-bit counters are the true position and count.\<close>

theorem fragment_message_correct:
  assumes "rng_ok X" "message \<noteq> []" "length message \<le> MAX_MESSAGE_SIZE"
  shows "\<exists>cells. fst (fragment_message X message r) = Ok cells \<and>
    fragments_of (fst (fill_bytes X 16 r)) message cells \<and>
    length cells = div_ceil (length message) PAYLOAD_CAPACITY \<and> length cells \<le> 65535"
proof -
  obtain mid r' where f: "fill_bytes X 16 r = (mid, r')" by fastforce
  obtain cells where "fragment_message X message r = (Ok cells, r')"
      "fragments_of mid message cells" "map payload_of cells = chunks PAYLOAD_CAPACITY message"
    using fragment_message_total [OF assms f] by blast
  moreover from this(3) have "length cells = div_ceil (length message) PAYLOAD_CAPACITY"
    by (metis length_chunks length_map cell_consts(3) PAYLOAD_CAPACITY_eq zero_less_numeral)
  ultimately show ?thesis by (auto simp: f fragments_of_def)
qed

theorem fragment_message_correct_witness:
  "\<exists>cells. fst (fragment_message demo (replicate 1000 5) 2) = Ok cells \<and> length cells = 3"
proof -
  have "replicate 1000 (5::byte) \<noteq> []" by (simp only: replicate_empty)
  moreover have "length (replicate 1000 (5::byte)) \<le> MAX_MESSAGE_SIZE"
    by (simp add: MAX_MESSAGE_SIZE_def cell_consts)
  ultimately show ?thesis
    using fragment_message_correct [OF demo_rng_ok, of "replicate 1000 5" 2]
    by (auto simp: div_ceil_def cell_consts)
qed

text \<open>C33. Fragmentation fails exactly on an empty message and on one above the maximum, with
  \<open>MessageTooLarge\<close> in both cases, without drawing randomness; it never panics and never reports an
  invalid sequence.\<close>

theorem fragment_message_error_iff:
  assumes "rng_ok X"
  shows "(fragment_message X message r = (Err e, r') \<longleftrightarrow>
      (message = [] \<or> MAX_MESSAGE_SIZE < length message) \<and>
      e = MessageTooLarge (length message) MAX_MESSAGE_SIZE \<and> r' = r) \<and>
    fst (fragment_message X message r) \<noteq> Panic"
proof -
  obtain mid r0 where f: "fill_bytes X 16 r = (mid, r0)" by fastforce
  have ok: "\<exists>cells. fragment_message X message r = (Ok cells, r0)"
    if "message \<noteq> []" "length message \<le> MAX_MESSAGE_SIZE"
    using fragment_message_total [OF assms that f] by blast
  show ?thesis
    using ok by (cases "message \<noteq> [] \<and> length message \<le> MAX_MESSAGE_SIZE")
      (auto simp: fragment_message_def)
qed

theorem fragment_message_error_iff_witness:
  "fragment_message demo [] 4 = (Err (MessageTooLarge 0 31981080), 4)"
  using fragment_message_error_iff [OF demo_rng_ok, of "[]" 4 "MessageTooLarge 0 31981080" 4]
  by (simp add: MAX_MESSAGE_SIZE_def cell_consts)

end
