(* ===== verification/Dummy_Traffic.thy ===== *)
theory Dummy_Traffic
  imports Cell
begin

text \<open>
  \<open>crates/veil-routing/src/dummy_traffic.rs\<close>: the randomised interval before each dummy cell.
  A \<open>Duration\<close> is a number of nanoseconds up to its maximum; adding durations panics above it,
  \<open>saturating_sub\<close> stops at zero, and the cast of the span to 64 bits wraps.
\<close>

section \<open>Definitions\<close>

type_synonym duration = nat

definition MILLI :: nat where "MILLI = 1000000"

definition duration_max :: duration where
  "duration_max = (2 ^ 64 - 1) * 1000000000 + 999999999"

definition as_millis :: "duration \<Rightarrow> nat" where
  "as_millis d = d div MILLI"

definition from_millis :: "u64 \<Rightarrow> duration" where
  "from_millis n = unat n * MILLI"

definition duration_add :: "duration \<Rightarrow> duration \<Rightarrow> (duration, 'e) outcome" where
  "duration_add a b = (if a + b \<le> duration_max then Ok (a + b) else Panic)"

record dummy_traffic_generator =
  min_interval :: duration
  max_interval :: duration

definition generator_new :: "duration \<Rightarrow> duration \<Rightarrow> dummy_traffic_generator" where
  "generator_new lo hi = \<lparr>min_interval = lo, max_interval = hi\<rparr>"

text \<open>The time slept before the cell, and the cell; the remainder by zero panics.\<close>

definition next_dummy :: "'r externals \<Rightarrow> dummy_traffic_generator \<Rightarrow> 'r
    \<Rightarrow> (duration \<times> cell, 'e) outcome \<times> 'r" where
  "next_dummy X g r =
     (let span = (of_nat (max (as_millis (max_interval g - min_interval g)) 1) :: u64);
          (v, r) = next_u64 X r
      in if span = 0 then (Panic, r)
         else let jitter = v mod span in
           case duration_add (min_interval g) (from_millis jitter) of
             Ok d \<Rightarrow> (let (c, r) = new_dummy X r in (Ok (d, c), r))
           | Err e \<Rightarrow> (Err e, r)
           | Panic \<Rightarrow> (Panic, r))"

section \<open>Lemmas\<close>

lemma unat_span:
  assumes "as_millis d < 2 ^ 64"
  shows "unat (of_nat (max (as_millis d) 1) :: u64) = max (as_millis d) 1"
  using assms by (simp add: unat_of_nat)

lemma jitter_bound:
  assumes "0 < d" "m < max (as_millis d) 1"
  shows "m * MILLI < d"
proof (cases "as_millis d = 0")
  case False
  with assms(2) have "Suc m \<le> d div MILLI" by (simp add: as_millis_def)
  then have "Suc m * MILLI \<le> d"
    by (simp add: less_eq_div_iff_mult_less_eq MILLI_def)
  then show ?thesis by (simp add: MILLI_def)
qed (use assms in simp)

lemma next_dummy_ok:
  assumes "rng_ok X" "as_millis (hi - lo) < 2 ^ 64" "lo \<le> duration_max" "hi \<le> duration_max"
  shows "\<exists>d c r'. next_dummy X (generator_new lo hi) r = (Ok (d, c), r') \<and>
    cell_wf c \<and> cell_type_of c = Dummy \<and> lo \<le> d \<and> (if lo < hi then d < hi else d = lo)"
proof -
  obtain v r1 where v: "next_u64 X r = (v, r1)" by fastforce
  obtain c r2 where c: "new_dummy X r1 = (c, r2)" by fastforce
  define span :: u64 where "span = of_nat (max (as_millis (hi - lo)) 1)"
  have span: "unat span = max (as_millis (hi - lo)) 1"
    unfolding span_def by (rule unat_span [OF assms(2)])
  then have pos: "span \<noteq> 0" by auto
  have j: "unat (v mod span) < max (as_millis (hi - lo)) 1"
    unfolding span [symmetric] using pos by (simp add: unat_mod_distrib unat_gt_0 mod_less_divisor)
  define d where "d = lo + from_millis (v mod span)"
  have d: "if lo < hi then d < hi else d = lo"
  proof (cases "lo < hi")
    case True
    with jitter_bound [OF _ j] show ?thesis by (simp add: d_def from_millis_def less_diff_conv)
  next
    case False
    with j show ?thesis by (simp add: d_def from_millis_def as_millis_def)
  qed
  then have "d \<le> duration_max" using assms(3,4) by (auto split: if_splits)
  then have "next_dummy X (generator_new lo hi) r = (Ok (d, c), r2)"
    using pos v c
    by (simp add: next_dummy_def generator_new_def Let_def duration_add_def d_def span_def)
  moreover have "cell_type_of c = Dummy"
    using c by (auto simp: new_dummy_def cell_type_of_def split: prod.splits)
  ultimately show ?thesis
    using d new_dummy_wf [OF assms(1) c]
    by (intro exI [of _ d] exI [of _ c] exI [of _ r2]) (simp add: d_def)
qed

lemma next_dummy_in_interval:
  assumes "rng_ok X" "lo < hi" "as_millis (hi - lo) < 2 ^ 64" "hi \<le> duration_max"
  shows "\<exists>d c r'. next_dummy X (generator_new lo hi) r = (Ok (d, c), r') \<and> cell_wf c \<and> lo \<le> d \<and> d < hi"
  using next_dummy_ok [OF assms(1,3), of r] assms(2,4) by auto

section \<open>Properties\<close>

text \<open>For a proper interval (shorter than 2^64 milliseconds, within the range of durations) the
  generator sleeps at least the minimum and strictly less than the maximum, and then yields a
  well-formed dummy cell; it does not panic. For an empty interval it sleeps exactly the
  minimum.\<close>

lemma next_dummy_within_interval:
  assumes "rng_ok X" "as_millis (hi - lo) < 2 ^ 64" "lo \<le> duration_max" "hi \<le> duration_max"
  shows "\<exists>d c r'. next_dummy X (generator_new lo hi) r = (Ok (d, c), r') \<and>
    cell_wf c \<and> cell_type_of c = Dummy \<and> lo \<le> d \<and> (if lo < hi then d < hi else d = lo)"
  using assms by (rule next_dummy_ok)

end
