(* ===== verification/Client.thy ===== *)
theory Client
  imports Circuit Envelope Node Fragmentation Dummy_Traffic
begin

text \<open>
  \<open>crates/veil-sdk/src/client.rs\<close> and \<open>cover_traffic.rs\<close>: sending a message as independent cells,
  and cover traffic. The network is the parameter \<open>N\<close> of \<open>Node\<close>; the state of an operation is the
  generator together with the network. A connection is dropped after its frame, so no pool is
  kept.
\<close>

section \<open>Definitions\<close>

datatype client_error = Core veil_error | Routing circuit_error | ClientIo io_error

record sent_circuit =
  exit_relay_id :: string

record veil_client =
  cl_topology :: topology
  hop_count :: nat

definition client_new :: "topology \<Rightarrow> nat \<Rightarrow> veil_client" where
  "client_new t n = \<lparr>cl_topology = t, hop_count = n\<rparr>"

text \<open>Path and onion packet for one body; \<open>path[0]\<close> and \<open>path.last().unwrap()\<close> panic on an empty
  path.\<close>

definition route_body :: "'r externals \<Rightarrow> topology \<Rightarrow> nat \<Rightarrow> bytes \<Rightarrow> 'r
    \<Rightarrow> (relay_info list \<times> bytes, circuit_error) outcome \<times> 'r" where
  "route_body X t n b =
     then_st (\<lambda>r. let (p, r) = select_diverse_path X t n r in (map_err PathSelection p, r)) (\<lambda>path.
     then_st (build_circuit X path b) (\<lambda>onion r.
       if path = [] then (Panic, r) else (Ok (path, onion), r)))"

definition prepare_cell :: "'r externals \<Rightarrow> veil_client \<Rightarrow> session \<Rightarrow> cell \<Rightarrow> 'r
    \<Rightarrow> (relay_info list \<times> bytes, client_error) outcome \<times> 'r" where
  "prepare_cell X client s cell =
     then_st (\<lambda>r. let (e, r) = seal_cell X s cell r in (map_err Core e, r)) (\<lambda>enveloped r.
       let (p, r) = route_body X (cl_topology client) (hop_count client) enveloped r
       in (map_err Routing p, r))"

text \<open>\<open>TcpStream::connect\<close> and one frame.\<close>

definition send_frame :: "'w net \<Rightarrow> string \<Rightarrow> bytes \<Rightarrow> 'w \<Rightarrow> (unit, io_error) outcome \<times> 'w" where
  "send_frame N addr b = then_st (net_connect N addr) (\<lambda>h. net_write_frame N h b)"

fun send_cells :: "'r externals \<Rightarrow> 'w net \<Rightarrow> veil_client \<Rightarrow> session \<Rightarrow> cell list \<Rightarrow> sent_circuit list
    \<Rightarrow> 'r \<times> 'w \<Rightarrow> (sent_circuit list, client_error) outcome \<times> 'r \<times> 'w" where
  "send_cells X N client s [] sent st = (Ok sent, st)"
| "send_cells X N client s (cell # cells) sent (r, w) =
     (case prepare_cell X client s cell r of
        (Ok (path, onion), r) \<Rightarrow>
          (case send_frame N (r_address (hd path)) onion w of
             (Ok _, w) \<Rightarrow> send_cells X N client s cells (sent @ [\<lparr>exit_relay_id = r_id (last path)\<rparr>]) (r, w)
           | (Err e, w) \<Rightarrow> (Err (ClientIo e), r, w)
           | (Panic, w) \<Rightarrow> (Panic, r, w))
      | (Err e, r) \<Rightarrow> (Err e, r, w)
      | (Panic, r) \<Rightarrow> (Panic, r, w))"

definition send :: "'r externals \<Rightarrow> 'w net \<Rightarrow> veil_client \<Rightarrow> session \<Rightarrow> bytes \<Rightarrow> 'r \<times> 'w
    \<Rightarrow> (sent_circuit list, client_error) outcome \<times> 'r \<times> 'w" where
  "send X N client s message = (\<lambda>(r, w).
     case fragment_message X message r of
       (Ok cells, r) \<Rightarrow> send_cells X N client s cells [] (r, w)
     | (Err e, r) \<Rightarrow> (Err (Core e), r, w)
     | (Panic, r) \<Rightarrow> (Panic, r, w))"

section \<open>Lemmas on routing\<close>

text \<open>The relays of a topology hold the secrets \<open>K\<close> gives for their addresses.\<close>

definition relays_ready :: "'r externals \<Rightarrow> (string \<Rightarrow> keypair option) \<Rightarrow> topology \<Rightarrow> bool" where
  "relays_ready X K t \<longleftrightarrow>
     (\<forall>i p. topology_get t i = Some p \<longrightarrow> valid_str (r_address p) \<and> length (r_address p) < 65536 \<and>
        (\<exists>kp. K (r_address p) = Some kp \<and> keypair_wf X kp \<and> public kp = r_public_key p))"

definition path_keys :: "(string \<Rightarrow> keypair option) \<Rightarrow> relay_info list \<Rightarrow> keypair list" where
  "path_keys K path = map (\<lambda>p. the (K (r_address p))) path"

lemma ready_path:
  assumes "relays_ready X K t" "valid_path t path"
  shows "keys_for X path (path_keys K path)" "addresses_ok path"
    "\<forall>p \<in> set path. K (r_address p) \<noteq> None"
  using assms unfolding relays_ready_def valid_path_def keys_for_def path_keys_def addresses_ok_def
  by (fastforce simp: list_all2_conv_all_nth in_set_conv_nth)+

lemma circuit_size_bound:
  "path \<noteq> [] \<Longrightarrow> addresses_ok path \<Longrightarrow> circuit_size path n \<le> length path * 65600 + n"
proof (induction path n rule: circuit_size.induct)
  case (3 hop s path n)
  then show ?case by (simp add: addresses_ok_def)
qed simp_all

text \<open>A bound on the circuit length that keeps every packet within the cipher's limit and the
  frame's 32-bit length.\<close>

definition max_hops :: nat where "max_hops = 65000"

lemma circuit_fits:
  assumes "path \<noteq> []" "addresses_ok path" "length path \<le> max_hops" "n \<le> 4096"
  shows "circuit_size path n < aead_max" "circuit_size path n < 4294967296"
proof -
  have "length path * 65600 \<le> 65000 * 65600" using assms(3) by (simp add: max_hops_def)
  with circuit_size_bound [OF assms(1,2), of n] assms(4)
  show "circuit_size path n < 4294967296" by simp
  then show "circuit_size path n < aead_max" by (simp add: aead_max_def)
qed

lemma route_body_ok:
  assumes laws: "rng_ok X" "dh_ok X" "hkdf_ok X" "aead_ok X" "order_ok X"
    and t: "topology_inv t" "relays_ready X K t"
    and n: "1 \<le> n" "n \<le> topology_len t" "n \<le> max_hops" and b: "length b \<le> 4096"
  shows "\<exists>path onion r'. route_body X t n b r = (Ok (path, onion), r') \<and> valid_path t path \<and>
    length path = n \<and> layer_from X path (path_keys K path) b 0 onion \<and> length onion < 4294967296"
proof -
  obtain path r1 where p: "select_diverse_path X t n r = (Ok path, r1)" "length path = n" "valid_path t path"
    using diverse_path.enough [OF laws(5) t(1) n(2)] by blast
  have ne: "path \<noteq> []" using n(1) p(2) by auto
  note ready = ready_path [OF t(2) p(3)]
  note fits = circuit_fits [OF ne ready(2), of "length b"]
  obtain onion r2 where o: "build_circuit X path b r1 = (Ok onion, r2)"
      "layer_from X path (path_keys K path) b 0 onion"
    using build_circuit_ok [OF laws(1-4) ready(1,2) _ ne] fits n(3) p(2) b by blast
  moreover have "length onion < 4294967296"
    using o(2) fits n(3) p(2) b by (simp add: layer_from_def)
  ultimately show ?thesis using p ne by (simp add: route_body_def)
qed

lemma prepare_cell_ok:
  assumes laws: "rng_ok X" "dh_ok X" "hkdf_ok X" "aead_ok X" "order_ok X"
    and t: "topology_inv (cl_topology client)" "relays_ready X K (cl_topology client)"
    and n: "1 \<le> hop_count client" "hop_count client \<le> topology_len (cl_topology client)"
      "hop_count client \<le> max_hops"
    and s: "session_with X recipient s" "cell_wf c"
  shows "\<exists>path onion env r'. prepare_cell X client s c r = (Ok (path, onion), r') \<and>
    valid_path (cl_topology client) path \<and> length path = hop_count client \<and>
    layer_from X path (path_keys K path) env 0 onion \<and> length onion < 4294967296 \<and>
    open_envelope X recipient env = Ok (Some c)"
proof -
  obtain env r1 where e: "seal_cell X s c r = (Ok env, r1)" "length env = ENVELOPE_SIZE"
      "open_envelope X recipient env = Ok (Some c)"
    using seal_open [OF laws(1,2,4) s] by blast
  have "length env \<le> 4096" using e(2) by (simp add: ENVELOPE_SIZE_def encryption_consts)
  from route_body_ok [OF laws t n this, of r1] obtain path onion r' where
      "route_body X (cl_topology client) (hop_count client) env r1 = (Ok (path, onion), r')"
      "valid_path (cl_topology client) path" "length path = hop_count client"
      "layer_from X path (path_keys K path) env 0 onion" "length onion < 4294967296"
    by blast
  with e show ?thesis
    by (simp add: prepare_cell_def) blast
qed

section \<open>The wire\<close>

text \<open>A network that keeps, for every connection opened, its address and the bytes written on it.\<close>

definition wire_net :: "(string \<times> bytes) list net" where
  "wire_net = \<lparr>net_connect = (\<lambda>a w. (Ok (length w), w @ [(a, [])])),
     net_write = (\<lambda>h bs w. (Ok (), w[h := (fst (w ! h), snd (w ! h) @ bs)]))\<rparr>"

lemma send_frame_wire: "send_frame wire_net a b w = (Ok (), w @ [(a, write_frame b)])"
  by (simp add: send_frame_def wire_net_def net_write_frame_def then_st_def write_frame_def)

text \<open>A connection that carries one cell: its frame is an onion packet to the first relay of a
  path of the client's length, the relays of the path hand it on to its exit, and the recipient
  opens what the exit delivers.\<close>

definition dispatched :: "'r externals \<Rightarrow> (string \<Rightarrow> keypair option) \<Rightarrow> veil_client \<Rightarrow> keypair \<Rightarrow> cell
    \<Rightarrow> sent_circuit \<times> string \<times> bytes \<Rightarrow> bool" where
  "dispatched X K client recipient c = (\<lambda>(sent, addr, out).
     \<exists>path onion env. valid_path (cl_topology client) path \<and> length path = hop_count client \<and> path \<noteq> [] \<and>
       exit_relay_id sent = r_id (last path) \<and> addr = r_address (hd path) \<and> out = write_frame onion \<and>
       length onion < 4294967296 \<and>
       layer_from X path (path_keys K path) env 0 onion \<and> open_envelope X recipient env = Ok (Some c))"

lemma send_cells_ok:
  assumes laws: "rng_ok X" "dh_ok X" "hkdf_ok X" "aead_ok X" "order_ok X"
    and t: "topology_inv (cl_topology client)" "relays_ready X K (cl_topology client)"
    and n: "1 \<le> hop_count client" "hop_count client \<le> topology_len (cl_topology client)"
      "hop_count client \<le> max_hops"
    and s: "session_with X recipient s" and cells: "list_all cell_wf cells"
  shows "\<exists>sent log r'. send_cells X wire_net client s cells acc (r, w) = (Ok (acc @ sent), r', w @ log) \<and>
    length sent = length log \<and> list_all2 (dispatched X K client recipient) cells (zip sent log)"
  using cells
proof (induction cells arbitrary: acc r w)
  case Nil
  show ?case by (intro exI [of _ "[]"]) simp
next
  case (Cons c cells)
  obtain path onion env r1 where p: "prepare_cell X client s c r = (Ok (path, onion), r1)"
      "valid_path (cl_topology client) path" "length path = hop_count client"
      "layer_from X path (path_keys K path) env 0 onion" "length onion < 4294967296"
      "open_envelope X recipient env = Ok (Some c)"
    using prepare_cell_ok [OF laws t n s, of c r] Cons.prems by auto
  let ?sc = "\<lparr>exit_relay_id = r_id (last path)\<rparr>" and ?out = "(r_address (hd path), write_frame onion)"
  obtain sent log r' where IH: "send_cells X wire_net client s cells (acc @ [?sc]) (r1, w @ [?out]) =
      (Ok ((acc @ [?sc]) @ sent), r', (w @ [?out]) @ log)"
      "length sent = length log" "list_all2 (dispatched X K client recipient) cells (zip sent log)"
    using Cons.IH [of "acc @ [?sc]" r1 "w @ [?out]"] Cons.prems by auto
  have "dispatched X K client recipient c (?sc, ?out)"
    unfolding dispatched_def prod.case
    by (rule exI [of _ path], rule exI [of _ onion], rule exI [of _ env]) (use p n(1) in auto)
  with IH p(1) show ?case
    by (intro exI [of _ "?sc # sent"] exI [of _ "?out # log"] exI [of _ r'])
      (simp add: send_frame_wire)
qed

lemma fragments_wf: "fragments_of mid message cells \<Longrightarrow> list_all cell_wf cells"
  by (auto simp: fragments_of_def fragment_at_def list_all_length)

lemma send_ok:
  assumes laws: "rng_ok X" "dh_ok X" "hkdf_ok X" "aead_ok X" "order_ok X"
    and t: "topology_inv (cl_topology client)" "relays_ready X K (cl_topology client)"
    and n: "1 \<le> hop_count client" "hop_count client \<le> topology_len (cl_topology client)"
      "hop_count client \<le> max_hops"
    and s: "session_with X recipient s"
    and m: "message \<noteq> []" "length message \<le> MAX_MESSAGE_SIZE"
  shows "\<exists>cells sent log r'. send X wire_net client s message (r, w) = (Ok sent, r', w @ log) \<and>
    fragments_of (fst (fill_bytes X 16 r)) message cells \<and>
    map payload_of cells = chunks PAYLOAD_CAPACITY message \<and> length sent = length log \<and>
    list_all2 (dispatched X K client recipient) cells (zip sent log)"
proof -
  obtain mid r1 where f: "fill_bytes X 16 r = (mid, r1)" by fastforce
  obtain cells where c: "fragment_message X message r = (Ok cells, r1)" "fragments_of mid message cells"
      "map payload_of cells = chunks PAYLOAD_CAPACITY message"
    using fragment_message_total [OF laws(1) m f] by blast
  from send_cells_ok [OF laws t n s fragments_wf [OF c(2)], of "[]" r1 w] c f show ?thesis
    by (simp add: send_def) blast
qed

section \<open>Cover traffic\<close>

text \<open>One round of the endless loop: the time slept, and what was sent. Every \<open>continue\<close> and every
  ignored network error ends the round without an error.\<close>

definition cover_round :: "'r externals \<Rightarrow> 'w net \<Rightarrow> topology \<Rightarrow> nat \<Rightarrow> dummy_traffic_generator
    \<Rightarrow> 'r \<times> 'w \<Rightarrow> (duration, unit) outcome \<times> 'r \<times> 'w" where
  "cover_round X N t hops g = (\<lambda>(r, w).
     case next_dummy X g r of
       (Ok (slept, dummy_cell), r) \<Rightarrow>
         (let (throwaway_key, r) = fill_bytes X 32 r in
          case encrypt_cell X throwaway_key dummy_cell r of
            (Ok encrypted, r) \<Rightarrow>
              (let (fake_sender_bytes, r) = fill_bytes X 32 r;
                   enveloped = wrap (PublicKey fake_sender_bytes) encrypted
               in case route_body X t hops enveloped r of
                    (Ok (path, onion), r) \<Rightarrow>
                      (let (_, w) = send_frame N (r_address (hd path)) onion w in (Ok slept, r, w))
                  | (Err _, r) \<Rightarrow> (Ok slept, r, w)
                  | (Panic, r) \<Rightarrow> (Panic, r, w))
          | (Err _, r) \<Rightarrow> (Ok slept, r, w)
          | (Panic, r) \<Rightarrow> (Panic, r, w))
     | (Err e, r) \<Rightarrow> (Err e, r, w)
     | (Panic, r) \<Rightarrow> (Panic, r, w))"

definition spawn_cover_traffic :: "'r externals \<Rightarrow> 'w net \<Rightarrow> veil_client \<Rightarrow> duration \<Rightarrow> duration
    \<Rightarrow> 'r \<times> 'w \<Rightarrow> (duration, unit) outcome \<times> 'r \<times> 'w" where
  "spawn_cover_traffic X N client lo hi =
     cover_round X N (cl_topology client) (hop_count client) (generator_new lo hi)"

lemma cover_round_ok:
  assumes laws: "rng_ok X" "dh_ok X" "hkdf_ok X" "aead_ok X" "order_ok X"
    and t: "topology_inv t" "relays_ready X K t"
    and n: "1 \<le> n" "n \<le> topology_len t" "n \<le> max_hops"
    and g: "next_dummy X g r = (Ok (slept, c) :: (duration \<times> cell, unit) outcome, r0)" "cell_wf c"
  shows "\<exists>path onion env r'. cover_round X wire_net t n g (r, w) =
      (Ok slept, r', w @ [(r_address (hd path), write_frame onion)]) \<and>
    valid_path t path \<and> length path = n \<and> layer_from X path (path_keys K path) env 0 onion \<and>
    length env = ENVELOPE_SIZE"
proof -
  obtain key r1 where key: "fill_bytes X 32 r0 = (key, r1)" by fastforce
  obtain enc r2 where enc: "encrypt_cell X key c r1 = (Ok enc, r2)" "length enc = ENCRYPTED_CELL_SIZE"
    using encrypt_cell_roundtrip [OF laws(1,4) fill_bytes_length_eq [OF laws(1) key] g(2)] by blast
  obtain fake r3 where fake: "fill_bytes X 32 r2 = (fake, r3)" by fastforce
  let ?env = "wrap (PublicKey fake) enc"
  have env: "length ?env = ENVELOPE_SIZE"
    using fill_bytes_length_eq [OF laws(1) fake] enc(2) by (simp add: wrap_eq ENVELOPE_SIZE_def)
  then have "length ?env \<le> 4096" by (simp add: ENVELOPE_SIZE_def encryption_consts)
  from route_body_ok [OF laws t n this, of r3] obtain path onion r' where
      "route_body X t n ?env r3 = (Ok (path, onion), r')" "valid_path t path" "length path = n"
      "layer_from X path (path_keys K path) ?env 0 onion"
    by blast
  with g(1) key enc fake env show ?thesis
    by (simp add: cover_round_def send_frame_wire) blast
qed

section \<open>Properties\<close>

text \<open>C10. Sending a message succeeds whenever the topology has enough ready relays: every fragment
  goes out on its own connection, as one onion packet to the first relay of its own valid path
  with the client's number of hops, is handed along exactly that path to the exit that is
  reported, and what the exit delivers opens, for the recipient, to that fragment.\<close>

theorem send_dispatches_every_fragment:
  assumes "rng_ok X" "dh_ok X" "hkdf_ok X" "aead_ok X" "order_ok X"
    and "topology_inv t" "relays_ready X K t" "1 \<le> n" "n \<le> topology_len t" "n \<le> max_hops"
    and "session_with X recipient s" "message \<noteq> []" "length message \<le> MAX_MESSAGE_SIZE"
  shows "\<exists>cells sent log r'. send X wire_net (client_new t n) s message (r, []) = (Ok sent, r', log) \<and>
    fragments_of (fst (fill_bytes X 16 r)) message cells \<and>
    length sent = length cells \<and> length log = length cells \<and>
    (\<forall>i < length cells. \<exists>path onion ps env.
       log ! i = (r_address (hd path), write_frame onion) \<and> exit_relay_id (sent ! i) = r_id (last path) \<and>
       length path = n \<and> valid_path t path \<and>
       journey X (path_keys K path) onion = ps @ [Deliver env] \<and>
       list_all2 (\<lambda>p succ. \<exists>inner. p = Forward (r_address succ) inner) ps (tl path) \<and>
       open_envelope X recipient env = Ok (Some (cells ! i)))"
proof -
  let ?c = "client_new t n"
  have c: "cl_topology ?c = t" "hop_count ?c = n" by (simp_all add: client_new_def)
  obtain cells sent log r' where s: "send X wire_net ?c s message (r, []) = (Ok sent, r', [] @ log)"
      "fragments_of (fst (fill_bytes X 16 r)) message cells" "length sent = length log"
      "list_all2 (dispatched X K ?c recipient) cells (zip sent log)"
    using send_ok [OF assms(1-5), of ?c K recipient s message r "[]"] assms(6-) c by auto
  have len: "length log = length cells" using list_all2_lengthD [OF s(4)] s(3) by simp
  have "\<exists>path onion ps env.
       log ! i = (r_address (hd path), write_frame onion) \<and> exit_relay_id (sent ! i) = r_id (last path) \<and>
       length path = n \<and> valid_path t path \<and>
       journey X (path_keys K path) onion = ps @ [Deliver env] \<and>
       list_all2 (\<lambda>p succ. \<exists>inner. p = Forward (r_address succ) inner) ps (tl path) \<and>
       open_envelope X recipient env = Ok (Some (cells ! i))" if "i < length cells" for i
    using list_all2_nthD [OF s(4) that] that len s(3)
    by (cases "log ! i") (fastforce simp: dispatched_def layer_from_def drop_Suc c)
  with s len show ?thesis
    by (intro exI [of _ cells] exI [of _ sent] exI [of _ log] exI [of _ r']) simp
qed

text \<open>A sample fleet of relays for the witnesses.\<close>

definition sample_fleet :: "nat list \<Rightarrow> topology" where
  "sample_fleet ns = foldl add_relay topology_new (map (fst \<circ> sample_relay) ns)"

definition sample_keys :: "nat list \<Rightarrow> string \<Rightarrow> keypair option" where
  "sample_keys ns = map_of (map (\<lambda>n. (r_address (fst (sample_relay n)), snd (sample_relay n))) ns)"

lemma sample_address_inject: "r_address (fst (sample_relay m)) = r_address (fst (sample_relay n)) \<longleftrightarrow> m = n"
  by (simp add: sample_relay_def Let_def show_nat_inject)

lemma sample_fleet_inv: "topology_inv (sample_fleet ns)"
  unfolding sample_fleet_def using topo.inv_add_all [OF topo.inv_empty] by (simp only: topo.add_all_def)

lemma sample_fleet_len: "distinct ns \<Longrightarrow> topology_len (sample_fleet ns) = length ns"
proof -
  assume "distinct ns"
  moreover have "r_id ` set (map (fst \<circ> sample_relay) ns) = (\<lambda>n. ''r'' @ show_nat n) ` set ns"
    by (force simp: sample_relay_def Let_def)
  moreover have "inj (\<lambda>n. ''r'' @ show_nat n)" by (simp add: inj_def show_nat_inject)
  ultimately show ?thesis
    using topo.size_add_all [of "map (fst \<circ> sample_relay) ns"]
    by (simp add: sample_fleet_def topo.add_all_def card_image inj_on_subset distinct_card)
qed

lemma sample_keys_at: "n \<in> set ns \<Longrightarrow> sample_keys ns (r_address (fst (sample_relay n))) = Some (snd (sample_relay n))"
  unfolding sample_keys_def by (induction ns) (auto simp: sample_address_inject)

lemma sample_fleet_ready:
  assumes "\<forall>n \<in> set ns. n < 1000"
  shows "relays_ready demo (sample_keys ns) (sample_fleet ns)"
  unfolding relays_ready_def
proof (intro allI impI)
  fix i p
  assume "topology_get (sample_fleet ns) i = Some p"
  then have "p \<in> set (map (fst \<circ> sample_relay) ns)"
    unfolding sample_fleet_def topo.add_all_def [symmetric] by (rule topo.get_add_all_mem)
  then obtain n where n: "n \<in> set ns" "p = fst (sample_relay n)" by auto
  have "addresses_ok [p]"
    using sample_relay_addresses [of "[n]"] n assms by simp
  moreover have "keypair_wf demo (snd (sample_relay n)) \<and> public (snd (sample_relay n)) = r_public_key p"
    using sample_relay_keys [of "[n]"] n by (simp add: keys_for_def)
  ultimately show "valid_str (r_address p) \<and> length (r_address p) < 65536 \<and>
      (\<exists>kp. sample_keys ns (r_address p) = Some kp \<and> keypair_wf demo kp \<and> public kp = r_public_key p)"
    using sample_keys_at [OF n(1)] n(2) by (simp add: addresses_ok_def)
qed

theorem send_dispatches_every_fragment_witness:
  "\<exists>s sent r' log. session_with demo (fst (generate demo 9)) s \<and>
     send demo wire_net (client_new (sample_fleet [1, 2, 3, 4]) 3) s (replicate 600 5) (20, []) = (Ok sent, r', log) \<and>
     length log = length sent \<and> sent \<noteq> []"
proof -
  obtain s where s: "session_with demo (fst (generate demo 9)) s"
    using establish_ok [OF demo_dh_ok demo_hkdf_ok generate_wf [OF demo_dh_ok]] by blast
  have ready: "relays_ready demo (sample_keys [1, 2, 3, 4]) (sample_fleet [1, 2, 3, 4])"
    by (rule sample_fleet_ready) simp
  have len: "3 \<le> topology_len (sample_fleet [1, 2, 3, 4])" by (simp add: sample_fleet_len)
  have m: "replicate 600 (5 :: byte) \<noteq> []" "length (replicate 600 (5 :: byte)) \<le> MAX_MESSAGE_SIZE"
    by (simp_all only: replicate_empty) (simp_all add: MAX_MESSAGE_SIZE_def cell_consts)
  obtain cells sent log r' where
      "send demo wire_net (client_new (sample_fleet [1, 2, 3, 4]) 3) s (replicate 600 5) (20, []) = (Ok sent, r', log)"
      "fragments_of (fst (fill_bytes demo 16 20)) (replicate 600 5) cells"
      "length sent = length cells" "length log = length cells"
    using send_dispatches_every_fragment [OF demo_rng_ok demo_dh_ok demo_hkdf_ok demo_aead_ok demo_order_ok
        sample_fleet_inv ready _ len _ s m, of 20]
    by (auto simp: max_hops_def)
  moreover from this(2) m(1) have "cells \<noteq> []" by (auto simp: fragments_of_def)
  moreover from calculation have "length log = length sent" "sent \<noteq> []" by auto
  ultimately show ?thesis using s by blast
qed

text \<open>C24. A round of cover traffic looks like a real send: after sleeping within the interval it
  opens one connection and sends one onion packet along a valid path of the client's number of
  hops, of the size a real cell would give on that path, and the exit delivers an envelope of
  exactly the size of a real one.\<close>

theorem cover_traffic_uniform:
  assumes "rng_ok X" "dh_ok X" "hkdf_ok X" "aead_ok X" "order_ok X"
    and "topology_inv t" "relays_ready X K t" "1 \<le> n" "n \<le> topology_len t" "n \<le> max_hops"
    and "lo < hi" "as_millis (hi - lo) < 2 ^ 64" "hi \<le> duration_max"
  shows "\<exists>slept path onion ps env r'.
    spawn_cover_traffic X wire_net (client_new t n) lo hi (r, w) =
      (Ok slept, r', w @ [(r_address (hd path), write_frame onion)]) \<and>
    lo \<le> slept \<and> slept < hi \<and> valid_path t path \<and> length path = n \<and>
    length onion = circuit_size path ENVELOPE_SIZE \<and>
    journey X (path_keys K path) onion = ps @ [Deliver env] \<and> length env = ENVELOPE_SIZE"
proof -
  obtain slept c r0 where d: "next_dummy X (generator_new lo hi) r = (Ok (slept, c) :: (duration \<times> cell, unit) outcome, r0)"
      "cell_wf c" "lo \<le> slept" "slept < hi"
    using next_dummy_in_interval [OF assms(1) assms(11-13)] by blast
  from cover_round_ok [OF assms(1-10) d(1,2), of w] obtain path onion env r' where
      "cover_round X wire_net t n (generator_new lo hi) (r, w) =
        (Ok slept, r', w @ [(r_address (hd path), write_frame onion)])"
      "valid_path t path" "length path = n" "layer_from X path (path_keys K path) env 0 onion"
      "length env = ENVELOPE_SIZE"
    by blast
  with d(3,4) show ?thesis
    by (simp add: spawn_cover_traffic_def client_new_def layer_from_def) blast
qed

theorem cover_traffic_uniform_witness:
  "\<exists>slept out r'. spawn_cover_traffic demo wire_net (client_new (sample_fleet [1, 2]) 2) 10000000 30000000 (5, []) =
     (Ok slept, r', [out]) \<and> 10000000 \<le> slept \<and> slept < 30000000"
proof -
  have ready: "relays_ready demo (sample_keys [1, 2]) (sample_fleet [1, 2])"
    by (rule sample_fleet_ready) simp
  have len: "2 \<le> topology_len (sample_fleet [1, 2])" by (simp add: sample_fleet_len)
  show ?thesis
    using cover_traffic_uniform [OF demo_rng_ok demo_dh_ok demo_hkdf_ok demo_aead_ok demo_order_ok
        sample_fleet_inv ready _ len, of 10000000 30000000 5 "[]"]
    by (fastforce simp: max_hops_def as_millis_def MILLI_def duration_max_def)
qed

text \<open>A client whose number of hops exceeds the topology, or is zero, fails with the routing
  error on the first fragment, before any connection is opened, and does not panic on the empty
  path.\<close>

lemma send_refuses_bad_hop_count:
  assumes "rng_ok X" "dh_ok X" "hkdf_ok X" "aead_ok X" "order_ok X" "topology_inv t"
    and "session_with X recipient s" "message \<noteq> []" "length message \<le> MAX_MESSAGE_SIZE"
  shows "(topology_len t < n \<longrightarrow> (\<exists>r'. send X N (client_new t n) s message (r, w) =
      (Err (Routing (PathSelection (InsufficientRelays n (topology_len t)))), r', w))) \<and>
    (\<exists>r'. send X N (client_new t 0) s message (r, w) = (Err (Routing EmptyPath), r', w))"
proof -
  obtain mid r1 where f: "fill_bytes X 16 r = (mid, r1)" by fastforce
  obtain cells where c: "fragment_message X message r = (Ok cells, r1)" "fragments_of mid message cells"
    using fragment_message_total [OF assms(1,8,9) f] by blast
  then obtain d ds where cells: "cells = d # ds" "cell_wf d"
    using assms(8) fragments_wf [OF c(2)] by (cases cells) (auto simp: fragments_of_def)
  obtain env r2 where e: "seal_cell X s d r1 = (Ok env, r2)"
    using seal_open [OF assms(1,2,4,7) cells(2)] by blast
  have few: "select_diverse_path X t n r2 = (Err (InsufficientRelays n (topology_len t)), r2)"
    if "topology_len t < n"
    using diverse_path.too_few [OF assms(5,6) that] .
  obtain r3 where none: "select_diverse_path X t 0 r2 = (Ok [], r3)"
    using diverse_path.enough [OF assms(5,6), of 0 r2] by auto
  show ?thesis
    using few none
    by (auto simp: send_def c(1) cells(1) prepare_cell_def e client_new_def route_body_def then_st_def
        build_circuit_def)
qed

end
