(* ===== verification/Reassembly.thy ===== *)
theory Reassembly
  imports Fragmentation "HOL-Library.AList"
begin

text \<open>
  \<open>crates/veil-core/src/reassembly.rs\<close>: the reassembler, a hash map from message identifiers to
  partially received messages. The hash map is an association list with distinct keys. The lemmas
  give its invariant, that inserting well-formed cells never panics, that an insertion acts on
  the entry of its own message only, the refinement of an abstract specification, and that the
  cells of a fragmented message rebuild it in any order and under any interleaving.
\<close>

section \<open>Definitions\<close>

record partial_message =
  p_seq_total :: u16
  p_received :: nat
  p_fragments :: "bytes option list"

record reassembler =
  in_flight :: "(message_id \<times> partial_message) list"

definition reassembler_new :: reassembler where
  "reassembler_new = \<lparr>in_flight = []\<rparr>"

definition lookup :: "reassembler \<Rightarrow> message_id \<Rightarrow> partial_message option" where
  "lookup R mid = map_of (in_flight R) mid"

definition store :: "message_id \<Rightarrow> partial_message \<Rightarrow> reassembler \<Rightarrow> reassembler" where
  "store mid p R = R\<lparr>in_flight := AList.update mid p (in_flight R)\<rparr>"

definition evict :: "reassembler \<Rightarrow> message_id \<Rightarrow> reassembler" where
  "evict R mid = R\<lparr>in_flight := AList.delete mid (in_flight R)\<rparr>"

definition pending_count :: "reassembler \<Rightarrow> nat" where
  "pending_count R = length (in_flight R)"

text \<open>The loop that appends every fragment; \<open>expect\<close> panics on a missing one.\<close>

fun join_fragments :: "bytes option list \<Rightarrow> bytes \<Rightarrow> (bytes, veil_error) outcome" where
  "join_fragments [] message = Ok message"
| "join_fragments (f # fs) message =
     and_then (expect f) (\<lambda>b. join_fragments fs (message @ b))"

definition fresh_entry :: "u16 \<Rightarrow> partial_message" where
  "fresh_entry seq_total =
     \<lparr>p_seq_total = seq_total, p_received = 0, p_fragments = replicate (unat seq_total) None\<rparr>"

definition fill_slot :: "nat \<Rightarrow> bytes \<Rightarrow> partial_message \<Rightarrow> partial_message" where
  "fill_slot i b p =
     (if p_fragments p ! i = None
      then p\<lparr>p_fragments := (p_fragments p)[i := Some b], p_received := p_received p + 1\<rparr>
      else p)"

definition insert_cell :: "reassembler \<Rightarrow> cell
    \<Rightarrow> (bytes option, veil_error) outcome \<times> reassembler" where
  "insert_cell R cell =
     (let mid = message_id_of cell;
          seq_total = seq_total_of cell;
          seq_index = unat (seq_index_of cell);
          entry = (case lookup R mid of Some p \<Rightarrow> p | None \<Rightarrow> fresh_entry seq_total);
          R = store mid entry R
      in if p_seq_total entry \<noteq> seq_total then (Err MismatchedMessageId, R)
         else if seq_index \<ge> length (p_fragments entry) then (Panic, R)
         else
           let entry = fill_slot seq_index (payload_of cell) entry;
               R = store mid entry R
           in if p_received entry = unat (p_seq_total entry)
              then (and_then (join_fragments (p_fragments entry) []) (\<lambda>m. Ok (Some m)), evict R mid)
              else (Ok None, R))"

text \<open>A sequence of insertions, with the result of each.\<close>

fun insert_all :: "reassembler \<Rightarrow> cell list
    \<Rightarrow> (bytes option, veil_error) outcome list \<times> reassembler" where
  "insert_all R [] = ([], R)"
| "insert_all R (c # cs) =
     (let (res, R1) = insert_cell R c; (rs, R2) = insert_all R1 cs in (res # rs, R2))"

section \<open>The map\<close>

lemma lookup_store: "lookup (store mid p R) k = (if k = mid then Some p else lookup R k)"
  by (simp add: lookup_def store_def update_conv')

lemma update_same: "map_of xs k = Some v \<Longrightarrow> AList.update k v xs = xs"
  by (induction xs) (auto split: if_splits)

lemma in_flight_new [simp]: "in_flight reassembler_new = []"
  by (simp add: reassembler_new_def)

lemma lookup_new [simp]: "lookup reassembler_new k = None"
  by (simp add: lookup_def)

lemma lookup_evict: "lookup (evict R mid) k = (if k = mid then None else lookup R k)"
  by (simp add: lookup_def evict_def delete_conv')

section \<open>One insertion seen from its own entry\<close>

definition step_entry :: "partial_message option \<Rightarrow> cell
    \<Rightarrow> (bytes option, veil_error) outcome \<times> partial_message option" where
  "step_entry e cell =
     (let entry = (case e of Some p \<Rightarrow> p | None \<Rightarrow> fresh_entry (seq_total_of cell))
      in if p_seq_total entry \<noteq> seq_total_of cell then (Err MismatchedMessageId, Some entry)
         else if unat (seq_index_of cell) \<ge> length (p_fragments entry) then (Panic, Some entry)
         else
           let entry = fill_slot (unat (seq_index_of cell)) (payload_of cell) entry
           in if p_received entry = unat (p_seq_total entry)
              then (and_then (join_fragments (p_fragments entry) []) (\<lambda>m. Ok (Some m)), None)
              else (Ok None, Some entry))"

lemma insert_cell_step:
  "fst (insert_cell R c) = fst (step_entry (lookup R (message_id_of c)) c)"
  "lookup (snd (insert_cell R c)) k =
     (if k = message_id_of c then snd (step_entry (lookup R (message_id_of c)) c) else lookup R k)"
  by (simp_all add: insert_cell_def step_entry_def Let_def lookup_store lookup_evict)

section \<open>Invariant\<close>

definition present :: "bytes option list \<Rightarrow> nat" where
  "present fs = length (filter (\<lambda>f. f \<noteq> None) fs)"

definition pm_wf :: "partial_message \<Rightarrow> bool" where
  "pm_wf p \<longleftrightarrow>
     length (p_fragments p) = unat (p_seq_total p) \<and> p_received p = present (p_fragments p) \<and>
     0 < p_received p \<and> p_received p < unat (p_seq_total p)"

definition reassembler_inv :: "reassembler \<Rightarrow> bool" where
  "reassembler_inv R \<longleftrightarrow>
     distinct (map fst (in_flight R)) \<and> (\<forall>mid p. lookup R mid = Some p \<longrightarrow> pm_wf p)"

lemma present_update:
  "i < length fs \<Longrightarrow> fs ! i = None \<Longrightarrow> present (fs[i := Some b]) = Suc (present fs)"
proof (induction fs arbitrary: i)
  case (Cons f fs)
  then show ?case by (cases i) (auto simp: present_def)
qed simp

lemma present_replicate [simp]: "present (replicate n None) = 0"
  by (simp add: present_def)

lemma present_le: "present fs \<le> length fs"
  by (simp add: present_def)

lemma present_full: "present fs = length fs \<longleftrightarrow> None \<notin> set fs"
  unfolding present_def
  by (metis (mono_tags, lifting) filter_True length_filter_less less_irrefl)

lemma present_pos: "i < length fs \<Longrightarrow> fs ! i \<noteq> None \<Longrightarrow> 0 < present fs"
  unfolding present_def by (metis (mono_tags, lifting) filter_empty_conv length_greater_0_conv nth_mem)

lemma join_fragments_full:
  "None \<notin> set fs \<Longrightarrow> join_fragments fs acc = Ok (acc @ concat (map the fs))"
proof (induction fs arbitrary: acc)
  case (Cons f fs)
  then show ?case by (cases f) auto
qed simp

text \<open>Filling a slot keeps the entry's shape, counts it and makes it present.\<close>

lemma fill_slot_wf:
  assumes "length (p_fragments p) = unat (p_seq_total p)" "p_received p = present (p_fragments p)"
    and "i < length (p_fragments p)" and "q = fill_slot i b p"
  shows "p_seq_total q = p_seq_total p \<and> length (p_fragments q) = unat (p_seq_total q) \<and>
    p_received q = present (p_fragments q) \<and> 0 < p_received q \<and> p_received q \<le> unat (p_seq_total q)"
proof -
  have shape: "p_seq_total q = p_seq_total p" "length (p_fragments q) = unat (p_seq_total q)"
    "p_received q = present (p_fragments q)" "p_fragments q ! i \<noteq> None"
    using assms by (auto simp: fill_slot_def present_update split: if_splits)
  with assms(1,3) present_pos [of i "p_fragments q"] present_le [of "p_fragments q"]
  show ?thesis by simp
qed

lemma step_entry_wf:
  assumes wf: "cell_wf c" and inv: "\<forall>p. e = Some p \<longrightarrow> pm_wf p"
  shows "fst (step_entry e c) \<noteq> Panic" "\<forall>p. snd (step_entry e c) = Some p \<longrightarrow> pm_wf p"
proof -
  define p where "p = (case e of Some p \<Rightarrow> p | None \<Rightarrow> fresh_entry (seq_total_of c))"
  define q where "q = fill_slot (unat (seq_index_of c)) (payload_of c) p"
  have p: "length (p_fragments p) = unat (p_seq_total p)" "p_received p = present (p_fragments p)"
    using inv by (auto simp: p_def fresh_entry_def pm_wf_def split: option.splits)
  have idx: "unat (seq_index_of c) < unat (seq_total_of c)"
    using wf by (simp add: cell_wf_def cell_accessors word_less_nat_alt)
  show "fst (step_entry e c) \<noteq> Panic" "\<forall>p. snd (step_entry e c) = Some p \<longrightarrow> pm_wf p"
  proof (atomize (full), cases "p_seq_total p = seq_total_of c")
    case False
    then have "e \<noteq> None" by (cases e) (auto simp: p_def fresh_entry_def)
    with False inv show "fst (step_entry e c) \<noteq> Panic \<and> (\<forall>p. snd (step_entry e c) = Some p \<longrightarrow> pm_wf p)"
      by (auto simp: step_entry_def p_def)
  next
    case True
    with p(1) idx have i: "unat (seq_index_of c) < length (p_fragments p)" by simp
    note q = fill_slot_wf [OF p i q_def]
    have "fst (step_entry e c) \<noteq> Panic" if "p_received q = unat (p_seq_total q)"
      using that q True i present_full [of "p_fragments q"]
      by (simp add: step_entry_def Let_def join_fragments_full flip: p_def q_def)
    with q True i show "fst (step_entry e c) \<noteq> Panic \<and> (\<forall>p. snd (step_entry e c) = Some p \<longrightarrow> pm_wf p)"
      by (auto simp: step_entry_def Let_def pm_wf_def simp flip: p_def q_def)
  qed
qed

lemma distinct_keys:
  "distinct (map fst (in_flight R)) \<Longrightarrow> distinct (map fst (in_flight (store mid p R)))"
  "distinct (map fst (in_flight R)) \<Longrightarrow> distinct (map fst (in_flight (evict R mid)))"
  by (simp_all add: store_def evict_def distinct_update distinct_delete)

lemma insert_cell_distinct:
  "distinct (map fst (in_flight R)) \<Longrightarrow> distinct (map fst (in_flight (snd (insert_cell R c))))"
  by (auto simp: insert_cell_def Let_def distinct_keys)

lemma reassembler_inv_new: "reassembler_inv reassembler_new"
  by (simp add: reassembler_inv_def)

lemma insert_cell_inv:
  assumes "reassembler_inv R" "cell_wf c"
  shows "reassembler_inv (snd (insert_cell R c))"
proof -
  have old: "lookup R k = Some p \<Longrightarrow> pm_wf p" for k p
    using assms(1) by (simp add: reassembler_inv_def)
  then have new: "snd (step_entry (lookup R k) c) = Some p \<Longrightarrow> pm_wf p" for k p
    using step_entry_wf(2) [OF assms(2), of "lookup R k"] by blast
  have "pm_wf p" if "lookup (snd (insert_cell R c)) k = Some p" for k p
    using that old new by (simp add: insert_cell_step split: if_splits)
  then show ?thesis
    using assms(1) insert_cell_distinct by (auto simp: reassembler_inv_def)
qed

lemma insert_cell_no_panic:
  assumes "reassembler_inv R" "cell_wf c"
  shows "fst (insert_cell R c) \<noteq> Panic"
  using assms step_entry_wf(1) [OF assms(2), of "lookup R (message_id_of c)"]
  by (simp add: insert_cell_step reassembler_inv_def)

lemma evict_inv: "reassembler_inv R \<Longrightarrow> reassembler_inv (evict R mid)"
  by (auto simp: reassembler_inv_def lookup_evict distinct_keys split: if_splits)

lemma pending_count_card:
  "reassembler_inv R \<Longrightarrow> pending_count R = card {mid. lookup R mid \<noteq> None}"
proof -
  assume inv: "reassembler_inv R"
  have "{mid. lookup R mid \<noteq> None} = set (map fst (in_flight R))"
    by (auto simp: lookup_def map_of_eq_None_iff)
  with inv show ?thesis
    by (simp only: reassembler_inv_def distinct_card pending_count_def length_map)
qed

section \<open>Sequences of insertions\<close>

fun entry_run :: "partial_message option \<Rightarrow> cell list
    \<Rightarrow> (bytes option, veil_error) outcome list \<times> partial_message option" where
  "entry_run e [] = ([], e)"
| "entry_run e (c # cs) =
     (let (res, e1) = step_entry e c; (rs, e2) = entry_run e1 cs in (res # rs, e2))"

definition results_for :: "message_id \<Rightarrow> cell list \<Rightarrow> 'b list \<Rightarrow> 'b list" where
  "results_for mid cs rs = map snd (filter (\<lambda>(c, r). message_id_of c = mid) (zip cs rs))"

text \<open>Cells of other messages do not matter to a message: its results and its entry are those of
  its own cells alone.\<close>

lemma insert_all_project:
  "results_for mid cs (fst (insert_all R cs)) =
     fst (entry_run (lookup R mid) (filter (\<lambda>c. message_id_of c = mid) cs))"
  "lookup (snd (insert_all R cs)) mid =
     snd (entry_run (lookup R mid) (filter (\<lambda>c. message_id_of c = mid) cs))"
proof (atomize (full), induction cs arbitrary: R)
  case (Cons c cs)
  obtain res R1 where ins: "insert_cell R c = (res, R1)" by fastforce
  obtain rs R2 where all: "insert_all R1 cs = (rs, R2)" by fastforce
  have l1: "lookup R1 mid = (if message_id_of c = mid then snd (step_entry (lookup R mid) c)
      else lookup R mid)"
    using insert_cell_step(2) [of R c mid] by (auto simp: ins)
  have r1: "res = fst (step_entry (lookup R (message_id_of c)) c)"
    using insert_cell_step(1) [of R c] by (simp add: ins)
  show ?case
    using Cons.IH [of R1] l1 r1
    by (auto simp: ins all results_for_def split: prod.splits)
qed (simp add: results_for_def)

lemma length_insert_all: "length (fst (insert_all R cs)) = length cs"
  by (induction cs arbitrary: R) (auto split: prod.splits, metis fst_conv)

lemma results_for_single:
  assumes "\<forall>c \<in> set cs. message_id_of c = mid" "length rs = length cs"
  shows "results_for mid cs rs = rs"
proof -
  have "filter (\<lambda>(c, r). message_id_of c = mid) (zip cs rs) = zip cs rs"
    using assms(1) by (auto simp: filter_id_conv dest: set_zip_leftD)
  with assms(2) show ?thesis by (simp add: results_for_def)
qed

lemma insert_all_inv:
  "reassembler_inv R \<Longrightarrow> list_all cell_wf cs \<Longrightarrow>
     reassembler_inv (snd (insert_all R cs)) \<and> Panic \<notin> set (fst (insert_all R cs))"
proof (induction cs arbitrary: R)
  case (Cons c cs)
  obtain res R1 where ins: "insert_cell R c = (res, R1)" by fastforce
  have "reassembler_inv R1" "res \<noteq> Panic"
    using insert_cell_inv [of R c] insert_cell_no_panic [of R c] Cons.prems by (auto simp: ins)
  with Cons.IH [of R1] Cons.prems show ?case
    by (auto simp: ins split: prod.splits)
qed simp

section \<open>The cells of one message, in any order\<close>

abbreviation idx :: "cell \<Rightarrow> nat" where
  "idx c \<equiv> unat (seq_index_of c)"

definition received_map :: "cell list \<Rightarrow> nat \<Rightarrow> bytes option" where
  "received_map ds = map_of (map (\<lambda>d. (idx d, payload_of d)) ds)"

definition entry_with :: "nat \<Rightarrow> cell list \<Rightarrow> partial_message" where
  "entry_with n ds = \<lparr>p_seq_total = of_nat n, p_received = length ds,
     p_fragments = map (received_map ds) [0..<n]\<rparr>"

lemma received_map_None: "received_map ds i = None \<longleftrightarrow> i \<notin> idx ` set ds"
  by (simp add: received_map_def map_of_eq_None_iff image_image)

lemma received_map_snoc:
  assumes "idx d \<notin> idx ` set ds"
  shows "received_map (ds @ [d]) i =
    (if i = idx d then Some (payload_of d) else received_map ds i)"
  using assms received_map_None [of ds "idx d"]
  by (auto simp: received_map_def map_add_def split: option.splits)

lemma entry_run_append:
  "entry_run e (xs @ ys) =
     (let (rs, e1) = entry_run e xs; (ss, e2) = entry_run e1 ys in (rs @ ss, e2))"
  by (induction xs arbitrary: e) (auto simp: Let_def split: prod.splits)

lemma fill_slot_entry_with:
  assumes "idx d < n" "idx d \<notin> idx ` set ds"
  shows "fill_slot (idx d) (payload_of d) (entry_with n ds) = entry_with n (ds @ [d])"
proof -
  have "(map (received_map ds) [0..<n])[idx d := Some (payload_of d)] =
      map (received_map (ds @ [d])) [0..<n]"
    using assms by (intro nth_equalityI) (auto simp: nth_list_update received_map_snoc)
  then show ?thesis
    using assms received_map_None [of ds "idx d"] by (simp add: fill_slot_def entry_with_def)
qed

lemma step_entry_with:
  assumes "fragment_at mid n (idx d) d" "idx d \<notin> idx ` set ds" "n < 65536"
    and e: "e = (if ds = [] then None else Some (entry_with n ds))"
  shows "step_entry e d =
    (if length ds + 1 = n
     then (and_then (join_fragments (p_fragments (entry_with n (ds @ [d]))) []) (\<lambda>m. Ok (Some m)), None)
     else (Ok None, Some (entry_with n (ds @ [d]))))"
proof -
  have tot: "seq_total_of d = of_nat n" "unat (of_nat n :: u16) = n"
    using assms(1,3) by (auto simp: fragment_at_def unat_of_nat_u16)
  have i: "idx d < n"
    using assms(1) by (auto simp: fragment_at_def cell_wf_def cell_accessors word_less_nat_alt)
  have "fresh_entry (of_nat n) = entry_with n []"
    using tot(2) by (simp add: fresh_entry_def entry_with_def received_map_def map_replicate_const)
  then have entry: "(case e of Some p \<Rightarrow> p | None \<Rightarrow> fresh_entry (seq_total_of d)) = entry_with n ds"
    by (auto simp: e tot(1))
  show ?thesis
    unfolding step_entry_def entry Let_def
    using i tot by (simp add: fill_slot_entry_with assms(2)) (simp add: entry_with_def)
qed

lemma entry_run_progress:
  assumes "n < 65536" "length ds < n" "distinct (map idx ds)"
    "\<forall>d \<in> set ds. fragment_at mid n (idx d) d"
  shows "entry_run None ds =
    (replicate (length ds) (Ok None), if ds = [] then None else Some (entry_with n ds))"
  using assms
proof (induction ds rule: rev_induct)
  case (snoc d ds)
  have IH: "entry_run None ds =
      (replicate (length ds) (Ok None), if ds = [] then None else Some (entry_with n ds))"
    by (rule snoc.IH) (use snoc.prems in auto)
  have "step_entry (if ds = [] then None else Some (entry_with n ds)) d =
      (Ok None, Some (entry_with n (ds @ [d])))"
    using step_entry_with [of mid n d ds] snoc.prems by auto
  then show ?case by (simp add: entry_run_append IH replicate_append_same flip: replicate_Suc)
qed simp

lemma fragments_of_idx:
  assumes "fragments_of mid message cells"
  shows "map idx cells = [0..<length cells]" "\<forall>c \<in> set cells. fragment_at mid (length cells) (idx c) c"
proof -
  have at: "fragment_at mid (length cells) i (cells ! i)" if "i < length cells" for i
    using assms that by (simp add: fragments_of_def)
  then show "map idx cells = [0..<length cells]"
    by (intro nth_equalityI) (simp_all add: fragment_at_def)
  show "\<forall>c \<in> set cells. fragment_at mid (length cells) (idx c) c"
    using at by (auto simp: in_set_conv_nth fragment_at_def)
qed

lemma received_map_complete:
  assumes frag: "fragments_of mid message cells" and perm: "mset cs = mset cells"
  shows "map (received_map cs) [0..<length cells] = map (Some \<circ> payload_of) cells"
proof (intro nth_equalityI)
  fix i assume "i < length (map (received_map cs) [0..<length cells])"
  then have i: "i < length cells" by simp
  have "mset (map idx cs) = mset (map idx cells)" using perm by (metis mset_map)
  then have dist: "distinct (map idx cs)"
    using fragments_of_idx(1) [OF frag] by (metis distinct_upt mset_eq_imp_distinct_iff)
  have "cells ! i \<in> set cs" using perm i by (metis nth_mem mset_eq_setD)
  moreover have "idx (cells ! i) = i"
    using frag i by (simp add: fragments_of_def fragment_at_def)
  ultimately have "received_map cs i = Some (payload_of (cells ! i))"
    unfolding received_map_def using dist
    by (intro map_of_is_SomeI) (auto simp: comp_def image_iff intro!: bexI)
  then show "map (received_map cs) [0..<length cells] ! i = map (Some \<circ> payload_of) cells ! i"
    using i by simp
qed simp

lemma entry_run_fragments:
  assumes frag: "fragments_of mid message cells" and perm: "mset cs = mset cells"
  shows "entry_run None cs = (replicate (length cells - 1) (Ok None) @ [Ok (Some message)], None)"
proof -
  let ?n = "length cells"
  have len: "length cs = ?n" using perm by (metis size_mset)
  with frag obtain ds d where cs: "cs = ds @ [d]" and ds: "length ds + 1 = ?n"
    by (cases cs rule: rev_cases) (auto simp: fragments_of_def)
  have n: "?n < 65536" using frag by (simp add: fragments_of_def)
  have "mset (map idx cs) = mset (map idx cells)" using perm by (metis mset_map)
  then have dist: "distinct (map idx cs)"
    using fragments_of_idx(1) [OF frag] by (metis distinct_upt mset_eq_imp_distinct_iff)
  have at: "\<forall>c \<in> set cs. fragment_at mid ?n (idx c) c"
    using fragments_of_idx(2) [OF frag] mset_eq_setD [OF perm] by simp
  have run: "entry_run None ds =
      (replicate (length ds) (Ok None), if ds = [] then None else Some (entry_with ?n ds))"
    using dist at ds n by (intro entry_run_progress) (auto simp: cs)
  have frs: "p_fragments (entry_with ?n cs) = map (Some \<circ> payload_of) cells"
    using received_map_complete [OF frag perm] by (simp add: entry_with_def)
  have "join_fragments (map (Some \<circ> payload_of) cells) [] = Ok message"
    using frag join_fragments_full [of "map (Some \<circ> payload_of) cells" "[]"]
    by (auto simp: fragments_of_def comp_def)
  then have "step_entry (if ds = [] then None else Some (entry_with ?n ds)) d =
      (Ok (Some message), None)"
    using step_entry_with [of mid ?n d ds] dist at n ds frs by (simp add: cs)
  then show ?thesis using ds by (simp add: cs entry_run_append run)
qed

section \<open>Abstract specification\<close>

text \<open>
  What the reassembler promises, without its data structures: per message, the announced number of
  cells and the first payload received at each position; a cell that announces another number is
  refused, and the message is handed out and forgotten once every position is filled.
\<close>

type_synonym assembly_spec = "message_id \<Rightarrow> (nat \<times> (nat \<Rightarrow> bytes option)) option"

definition spec_insert :: "assembly_spec \<Rightarrow> cell
    \<Rightarrow> (bytes option, veil_error) outcome \<times> assembly_spec" where
  "spec_insert A c =
     (let (n, f) = (case A (message_id_of c) of
                      Some e \<Rightarrow> e | None \<Rightarrow> (unat (seq_total_of c), \<lambda>_. None));
          g = (if f (idx c) = None then f(idx c := Some (payload_of c)) else f)
      in if n \<noteq> unat (seq_total_of c) then (Err MismatchedMessageId, A)
         else if \<forall>j < n. g j \<noteq> None
         then (Ok (Some (concat (map (the \<circ> g) [0..<n]))), A(message_id_of c := None))
         else (Ok None, A(message_id_of c := Some (n, g))))"

definition abs_entry :: "partial_message \<Rightarrow> nat \<times> (nat \<Rightarrow> bytes option)" where
  "abs_entry p = (unat (p_seq_total p),
     \<lambda>i. if i < length (p_fragments p) then p_fragments p ! i else None)"

definition abs_state :: "reassembler \<Rightarrow> assembly_spec" where
  "abs_state R mid = map_option abs_entry (lookup R mid)"

lemma abs_state_insert:
  "abs_state (snd (insert_cell R c)) =
     (abs_state R)(message_id_of c := map_option abs_entry
        (snd (step_entry (lookup R (message_id_of c)) c)))"
  by (auto simp: abs_state_def insert_cell_step fun_eq_iff)

lemma abs_entry_fresh: "abs_entry (fresh_entry n) = (unat n, \<lambda>_. None)"
  by (auto simp: abs_entry_def fresh_entry_def)

lemma abs_entry_fill:
  assumes "i < length (p_fragments p)"
  shows "abs_entry (fill_slot i b p) =
    (let (n, f) = abs_entry p in (n, if f i = None then f(i := Some b) else f))"
  using assms by (auto simp: abs_entry_def fill_slot_def fun_eq_iff nth_list_update)

lemma entry_complete_iff:
  assumes "length (p_fragments p) = unat (p_seq_total p)" "p_received p = present (p_fragments p)"
  shows "p_received p = unat (p_seq_total p) \<longleftrightarrow> (\<forall>j < fst (abs_entry p). snd (abs_entry p) j \<noteq> None)"
proof -
  have "p_received p = unat (p_seq_total p) \<longleftrightarrow> None \<notin> set (p_fragments p)"
    using assms present_full [of "p_fragments p"] by simp
  also have "\<dots> \<longleftrightarrow> (\<forall>j < unat (p_seq_total p). p_fragments p ! j \<noteq> None)"
    using assms(1) by (metis in_set_conv_nth)
  finally show ?thesis using assms(1) by (simp add: abs_entry_def)
qed

lemma entry_message:
  assumes "length (p_fragments p) = unat (p_seq_total p)"
  shows "concat (map the (p_fragments p)) =
    concat (map (the \<circ> snd (abs_entry p)) [0..<fst (abs_entry p)])"
proof -
  have "map the (p_fragments p) = map (the \<circ> snd (abs_entry p)) [0..<fst (abs_entry p)]"
    using assms by (intro nth_equalityI) (simp_all add: abs_entry_def)
  then show ?thesis by simp
qed

lemma step_entry_refines:
  assumes wf: "cell_wf c" and inv: "\<forall>p. e = Some p \<longrightarrow> pm_wf p"
    and A: "A (message_id_of c) = map_option abs_entry e"
  shows "spec_insert A c = (fst (step_entry e c),
    A(message_id_of c := map_option abs_entry (snd (step_entry e c))))"
proof -
  define p where "p = (case e of Some p \<Rightarrow> p | None \<Rightarrow> fresh_entry (seq_total_of c))"
  define q where "q = fill_slot (idx c) (payload_of c) p"
  have p: "length (p_fragments p) = unat (p_seq_total p)" "p_received p = present (p_fragments p)"
    using inv by (auto simp: p_def fresh_entry_def pm_wf_def split: option.splits)
  have entry: "(case A (message_id_of c) of Some x \<Rightarrow> x
      | None \<Rightarrow> (unat (seq_total_of c), \<lambda>_. None)) = abs_entry p"
    by (auto simp: A p_def abs_entry_fresh split: option.splits)
  have n: "fst (abs_entry p) = unat (p_seq_total p)" by (simp add: abs_entry_def)
  show ?thesis
  proof (cases "p_seq_total p = seq_total_of c")
    case False
    then have e: "e = Some p" by (cases e) (auto simp: p_def fresh_entry_def)
    with False have "step_entry e c = (Err MismatchedMessageId, e)"
      by (simp add: step_entry_def)
    moreover have "unat (p_seq_total p) \<noteq> unat (seq_total_of c)"
      using False by (simp add: word_unat_eq_iff)
    then have "spec_insert A c = (Err MismatchedMessageId, A)"
      using n by (simp add: spec_insert_def entry Let_def split_beta)
    ultimately show ?thesis by (simp flip: A)
  next
    case True
    have "idx c < length (p_fragments p)"
      using wf True p(1) by (simp add: cell_wf_def cell_accessors word_less_nat_alt)
    note q = fill_slot_wf [OF p this q_def] and absq = abs_entry_fill [OF this, of "payload_of c"]
    have step: "step_entry e c = (if p_received q = unat (p_seq_total q)
        then (and_then (join_fragments (p_fragments q) []) (\<lambda>m. Ok (Some m)), None)
        else (Ok None, Some q))"
      using True \<open>idx c < _\<close> by (simp add: step_entry_def Let_def flip: p_def q_def)
    have "spec_insert A c = (if \<forall>j < fst (abs_entry q). snd (abs_entry q) j \<noteq> None
        then (Ok (Some (concat (map (the \<circ> snd (abs_entry q)) [0..<fst (abs_entry q)]))),
          A(message_id_of c := None))
        else (Ok None, A(message_id_of c := Some (abs_entry q))))"
      using True n absq
      unfolding spec_insert_def entry q_def by (auto simp: Let_def split_beta)
    also have "\<dots> = (if p_received q = unat (p_seq_total q)
        then (Ok (Some (concat (map the (p_fragments q)))), A(message_id_of c := None))
        else (Ok None, A(message_id_of c := Some (abs_entry q))))"
      using q entry_complete_iff [of q] entry_message [of q] by simp
    finally show ?thesis
      using q step join_fragments_full [of "p_fragments q" "[]"] present_full [of "p_fragments q"]
      by (auto simp: step)
  qed
qed

section \<open>The contract for its clients\<close>

text \<open>
  What a client that feeds received cells into an assembler relies on, and the loop of such a
  client (\<open>Receiver::poll\<close>): completed messages are collected, refused cells are dropped, a
  panic would end it.
\<close>

fun feed :: "('s \<Rightarrow> cell \<Rightarrow> (bytes option, 'e) outcome \<times> 's) \<Rightarrow> 's \<Rightarrow> cell list
    \<Rightarrow> bytes list \<Rightarrow> (bytes list, 'f) outcome \<times> 's" where
  "feed ins s [] completed = (Ok completed, s)"
| "feed ins s (c # cs) completed =
     (case ins s c of
        (Ok (Some message), s') \<Rightarrow> feed ins s' cs (completed @ [message])
      | (Ok None, s') \<Rightarrow> feed ins s' cs completed
      | (Err _, s') \<Rightarrow> feed ins s' cs completed
      | (Panic, s') \<Rightarrow> (Panic, s'))"

locale assembler =
  fixes ins :: "'s \<Rightarrow> cell \<Rightarrow> (bytes option, 'e) outcome \<times> 's"
    and inv :: "'s \<Rightarrow> bool"
    and entry :: "'s \<Rightarrow> message_id \<Rightarrow> 'p option"
  assumes ins_inv: "inv s \<Longrightarrow> cell_wf c \<Longrightarrow> inv (snd (ins s c))"
    and ins_no_panic: "inv s \<Longrightarrow> cell_wf c \<Longrightarrow> fst (ins s c) \<noteq> Panic"
    and ins_frame: "mid \<noteq> message_id_of c \<Longrightarrow> entry (snd (ins s c)) mid = entry s mid"
    and ins_done: "fst (ins s c) = Ok (Some m) \<Longrightarrow> entry (snd (ins s c)) (message_id_of c) = None"
begin

lemma feed_total:
  "inv s \<Longrightarrow> list_all cell_wf cs \<Longrightarrow>
     \<exists>ms. fst (feed ins s cs acc :: (bytes list, 'f) outcome \<times> 's) = Ok (acc @ ms) \<and>
       length ms \<le> length cs \<and> inv (snd (feed ins s cs acc :: (bytes list, 'f) outcome \<times> 's))"
proof (induction cs arbitrary: s acc)
  case (Cons c cs)
  obtain res s' where ins: "ins s c = (res, s')" by fastforce
  have inv': "inv s'" and np: "res \<noteq> Panic"
    using ins_inv [of s c] ins_no_panic [of s c] Cons.prems by (auto simp: ins)
  have IH: "\<exists>ms. fst (feed ins s' cs b :: (bytes list, 'f) outcome \<times> 's) = Ok (b @ ms) \<and>
      length ms \<le> length cs \<and> inv (snd (feed ins s' cs b :: (bytes list, 'f) outcome \<times> 's))" for b
    by (rule Cons.IH [OF inv']) (use Cons.prems in simp)
  show ?case
  proof (cases "\<exists>m. res = Ok (Some m)")
    case True
    then obtain m where m: "res = Ok (Some m)" by blast
    obtain ms where "fst (feed ins s' cs (acc @ [m]) :: (bytes list, 'f) outcome \<times> 's) =
        Ok ((acc @ [m]) @ ms)" "length ms \<le> length cs"
        "inv (snd (feed ins s' cs (acc @ [m]) :: (bytes list, 'f) outcome \<times> 's))"
      using IH by blast
    then show ?thesis by (intro exI [of _ "m # ms"]) (simp add: ins m)
  next
    case False
    with np IH [of acc] show ?thesis
      by (cases res) (auto simp: ins split: option.splits intro: le_SucI)
  qed
qed simp

lemma feed_frame:
  "\<forall>c \<in> set cs. message_id_of c \<noteq> mid \<Longrightarrow> 
     entry (snd (feed ins s cs acc :: (bytes list, 'f) outcome \<times> 's)) mid = entry s mid"
proof (induction cs arbitrary: s acc)
  case (Cons c cs)
  obtain res s' where ins: "ins s c = (res, s')" by fastforce
  have "entry s' mid = entry s mid"
    using ins_frame [of mid c s] Cons.prems by (auto simp: ins)
  with Cons show ?case
    by (cases res) (auto simp: ins split: option.splits)
qed simp

end

lemma step_entry_done: "fst (step_entry e c) = Ok (Some m) \<Longrightarrow> snd (step_entry e c) = None"
  by (auto simp: step_entry_def Let_def split: if_splits)

interpretation reassembly: assembler insert_cell reassembler_inv lookup
proof unfold_locales
  show "reassembler_inv R \<Longrightarrow> cell_wf c \<Longrightarrow> reassembler_inv (snd (insert_cell R c))" for R c
    by (rule insert_cell_inv)
  show "reassembler_inv R \<Longrightarrow> cell_wf c \<Longrightarrow> fst (insert_cell R c) \<noteq> Panic" for R c
    by (rule insert_cell_no_panic)
qed (simp_all add: insert_cell_step step_entry_done)

section \<open>Properties\<close>

text \<open>C7. Fragments arriving in any order and interleaved with any cells of other messages rebuild the
  message: every fragment but the last is answered with \<open>Ok(None)\<close>, the last one with exactly the
  original bytes, and nothing of the message stays pending.\<close>

theorem reassemble_any_order:
  assumes "fragments_of mid message cells" and "lookup R mid = None"
    and "mset (filter (\<lambda>c. message_id_of c = mid) arrived) = mset cells"
  shows "results_for mid arrived (fst (insert_all R arrived)) =
      replicate (length cells - 1) (Ok None) @ [Ok (Some message)] \<and>
    lookup (snd (insert_all R arrived)) mid = None"
  using entry_run_fragments [OF assms(1,3)] by (simp add: insert_all_project assms(2))

theorem reassemble_any_order_witness:
  "\<exists>cells. fst (fragment_message demo (replicate 600 5) 2) = Ok cells \<and> length cells = 2 \<and>
     results_for (replicate 16 2) (rev cells) (fst (insert_all reassembler_new (rev cells))) =
       [Ok None, Ok (Some (replicate 600 5))]"
proof -
  have pre: "replicate 600 (5::byte) \<noteq> []" "length (replicate 600 (5::byte)) \<le> MAX_MESSAGE_SIZE"
    "fill_bytes demo 16 2 = (replicate 16 2, 3)"
    by (simp_all only: replicate_empty) (simp_all add: MAX_MESSAGE_SIZE_def cell_consts demo_def)
  obtain cells where cells: "fragment_message demo (replicate 600 5) 2 = (Ok cells, 3)"
      "fragments_of (replicate 16 2) (replicate 600 5) cells"
      "map payload_of cells = chunks PAYLOAD_CAPACITY (replicate 600 5)"
    using fragment_message_total [OF demo_rng_ok pre] by blast
  have "length cells = 2"
    using arg_cong [OF cells(3), of length]
    by (simp add: length_chunks PAYLOAD_CAPACITY_eq div_ceil_def)
  moreover have "filter (\<lambda>c. message_id_of c = replicate 16 2) (rev cells) = rev cells"
    using fragments_of_idx(2) [OF cells(2)] by (auto simp: fragment_at_def)
  ultimately show ?thesis
    using reassemble_any_order [OF cells(2), of reassembler_new "rev cells"] cells(1) by simp
qed

text \<open>C18. The reassembler keeps its invariant (distinct identifiers, every pending entry sized by its
  announced total, its counter the number of fragments present, at least one present and at least
  one missing) under insertion of any well-formed cell and under eviction, and inserting a
  well-formed cell never panics: no index out of range and no failing \<open>expect\<close>.\<close>

theorem reassembler_invariant:
  assumes "reassembler_inv R" "cell_wf c"
  shows "reassembler_inv (snd (insert_cell R c)) \<and> reassembler_inv (evict R mid) \<and>
    fst (insert_cell R c) \<noteq> Panic"
  using assms by (simp add: insert_cell_inv evict_inv reassembly.ins_no_panic)

theorem reassembler_invariant_witness:
  "\<exists>c. cell_wf c \<and> c_seq_total c = 65535 \<and> reassembler_inv (snd (insert_cell reassembler_new c))"
proof -
  let ?c = "\<lparr>c_version = 1, c_cell_type = Data, c_message_id = replicate 16 7, c_seq_index = 65534,
    c_seq_total = 65535, c_payload_len = 0, c_payload = replicate 488 0\<rparr>"
  have "cell_wf ?c" by (simp add: cell_wf_def cell_consts)
  from reassembler_invariant [OF reassembler_inv_new this] this show ?thesis
    by (intro exI [of _ ?c]) simp
qed

text \<open>C17. The reassembler implements its specification: on every well-formed cell it returns what the
  specification returns, and its state afterwards represents the specification's state.\<close>

theorem reassembler_refines_spec:
  assumes "reassembler_inv R" "cell_wf c"
  shows "spec_insert (abs_state R) c = (fst (insert_cell R c), abs_state (snd (insert_cell R c)))"
proof -
  have "\<forall>p. lookup R (message_id_of c) = Some p \<longrightarrow> pm_wf p"
    using assms(1) by (simp add: reassembler_inv_def)
  from step_entry_refines [OF assms(2) this, of "abs_state R"] show ?thesis
    by (simp add: abs_state_insert insert_cell_step abs_state_def)
qed

theorem reassembler_refines_spec_witness:
  "\<exists>c. cell_wf c \<and> spec_insert (abs_state reassembler_new) c =
     (fst (insert_cell reassembler_new c), abs_state (snd (insert_cell reassembler_new c)))"
proof -
  let ?c = "\<lparr>c_version = 1, c_cell_type = Data, c_message_id = replicate 16 7, c_seq_index = 0,
    c_seq_total = 2, c_payload_len = 3, c_payload = replicate 488 0\<rparr>"
  have "cell_wf ?c" by (simp add: cell_wf_def cell_consts)
  from reassembler_refines_spec [OF reassembler_inv_new this] this show ?thesis by blast
qed

text \<open>Repetition and disagreement are harmless: a fragment whose position is already filled changes
  nothing and yields no message, and a cell announcing another total is refused with the state
  unchanged.\<close>

lemma insert_repeated_or_mismatched:
  assumes "reassembler_inv R" "cell_wf c" "lookup R (message_id_of c) = Some p"
  shows "(p_seq_total p = seq_total_of c \<and> p_fragments p ! unat (seq_index_of c) \<noteq> None \<longrightarrow>
      insert_cell R c = (Ok None, R)) \<and>
    (p_seq_total p \<noteq> seq_total_of c \<longrightarrow> insert_cell R c = (Err MismatchedMessageId, R))"
proof -
  have same: "store (message_id_of c) p R = R"
    using assms(3) by (simp add: store_def lookup_def update_same)
  have p: "pm_wf p" using assms(1,3) by (auto simp: reassembler_inv_def)
  have "unat (seq_index_of c) < unat (seq_total_of c)"
    using assms(2) by (simp add: cell_wf_def cell_accessors word_less_nat_alt)
  with p same assms(3) show ?thesis
    by (auto simp: insert_cell_def Let_def fill_slot_def pm_wf_def)
qed

end
