(* ===== verification/Tcp.thy ===== *)
theory Tcp
  imports Forwarding
begin

text \<open>
  A TCP connection as one side's code uses it: the bytes the peer sends before it closes, the
  number of bytes the peer still takes before a write fails, and the bytes written so far. Both
  the incoming bytes and the room are arbitrary, so every way a connection can break is covered.
  \<open>read_from\<close> and \<open>write_all\<close> are the documented behaviour of \<open>AsyncReadExt::read_exact\<close> and
  \<open>AsyncWriteExt::write_all\<close>.
\<close>

record conn =
  incoming :: bytes
  room :: nat
  outgoing :: bytes

definition read_from :: "nat \<Rightarrow> conn \<Rightarrow> (bytes, io_error) outcome \<times> conn" where
  "read_from n c =
     (case read_exact n (incoming c) of
        Ok (bs, rest) \<Rightarrow> (Ok bs, c\<lparr>incoming := rest\<rparr>)
      | Err e \<Rightarrow> (Err e, c\<lparr>incoming := []\<rparr>)
      | Panic \<Rightarrow> (Panic, c))"

definition write_all :: "bytes \<Rightarrow> conn \<Rightarrow> (unit, io_error) outcome \<times> conn" where
  "write_all bs c =
     (if length bs \<le> room c
      then (Ok (), c\<lparr>room := room c - length bs, outgoing := outgoing c @ bs\<rparr>)
      else (Err WriteFailed, c\<lparr>room := 0, outgoing := outgoing c @ take (room c) bs\<rparr>))"

text \<open>\<open>write_frame\<close> on a connection: the length, then the body.\<close>

definition write_frame_to :: "bytes \<Rightarrow> conn \<Rightarrow> (unit, io_error) outcome \<times> conn" where
  "write_frame_to b =
     then_st (write_all (u32_to_be_bytes (of_nat (length b)))) (\<lambda>_. write_all b)"

text \<open>A write of a whole sequence succeeds iff it fits; otherwise exactly the bytes that fit are
  sent. This is the law that all composed writers inherit.\<close>

definition writes :: "bytes \<Rightarrow> (conn \<Rightarrow> (unit, io_error) outcome \<times> conn) \<Rightarrow> bool" where
  "writes bs w \<longleftrightarrow> (\<forall>c. w c = write_all bs c)"

lemma writes_all: "writes bs (write_all bs)"
  by (simp add: writes_def)

lemma writes_nothing: "writes [] (return_st ())"
  by (simp add: writes_def write_all_def)

lemma writes_then:
  assumes "writes as v" "writes bs w"
  shows "writes (as @ bs) (then_st v (\<lambda>_. w))"
  using assms by (auto simp: writes_def write_all_def then_st_def)

lemma writes_frame: "writes (write_frame b) (write_frame_to b)"
  unfolding write_frame_def write_frame_to_def by (intro writes_then writes_all)

lemma writes_result:
  "writes bs w \<Longrightarrow> outgoing (snd (w c)) = outgoing c @ take (room c) bs \<and>
     fst (w c) = (if length bs \<le> room c then Ok () else Err WriteFailed)"
  by (simp add: writes_def write_all_def)

end
