(* ===== verification/Mailbox.thy ===== *)
theory Mailbox
  imports Prelude
begin

text \<open>
  \<open>crates/veil-relay/src/mailbox.rs\<close>: the queue of delivered cells. Every operation takes the
  queue's lock for its whole body, so concurrent use is a sequence of operations; the contract
  \<open>fifo_store\<close> states what a sequence of pushes and drains gives its clients.
\<close>

section \<open>Definitions\<close>

record mailbox =
  queue :: "bytes list"

definition mailbox_new :: mailbox where
  "mailbox_new = \<lparr>queue = []\<rparr>"

definition mailbox_push :: "bytes \<Rightarrow> mailbox \<Rightarrow> mailbox" where
  "mailbox_push cell m = m\<lparr>queue := queue m @ [cell]\<rparr>"

definition mailbox_drain :: "mailbox \<Rightarrow> bytes list \<times> mailbox" where
  "mailbox_drain m = (queue m, m\<lparr>queue := []\<rparr>)"

definition mailbox_len :: "mailbox \<Rightarrow> nat" where
  "mailbox_len m = length (queue m)"

definition mailbox_is_empty :: "mailbox \<Rightarrow> bool" where
  "mailbox_is_empty m = (queue m = [])"

section \<open>The contract\<close>

datatype 'a store_event = Push 'a | Drain

fun run_store :: "('a \<Rightarrow> 's \<Rightarrow> 's) \<Rightarrow> ('s \<Rightarrow> 'a list \<times> 's) \<Rightarrow> 'a store_event list \<Rightarrow> 's
    \<Rightarrow> 'a list list \<times> 's" where
  "run_store push drain [] s = ([], s)"
| "run_store push drain (Push x # es) s = run_store push drain es (push x s)"
| "run_store push drain (Drain # es) s =
     (let (xs, s') = drain s; (bs, s'') = run_store push drain es s' in (xs # bs, s''))"

fun pushed :: "'a store_event list \<Rightarrow> 'a list" where
  "pushed [] = []"
| "pushed (Push x # es) = x # pushed es"
| "pushed (Drain # es) = pushed es"

locale fifo_store =
  fixes empty :: 's
    and push :: "'a \<Rightarrow> 's \<Rightarrow> 's"
    and drain :: "'s \<Rightarrow> 'a list \<times> 's"
    and size_of :: "'s \<Rightarrow> nat"
  assumes drain_empty: "drain empty = ([], empty)"
    and drain_push: "fst (drain (push x s)) = fst (drain s) @ [x]"
    and drain_clears: "snd (drain s) = empty"
    and size_drain: "size_of s = length (fst (drain s))"
begin

text \<open>Each pushed element comes out exactly once, in order, or is still stored.\<close>

lemma run_store_conserves:
  "concat (fst (run_store push drain es s)) @ fst (drain (snd (run_store push drain es s))) =
     fst (drain s) @ pushed es"
proof (induction es arbitrary: s)
  case (Cons e es)
  show ?case
  proof (cases e)
    case (Push x)
    with Cons.IH [of "push x s"] show ?thesis by (simp add: drain_push)
  next
    case Drain
    obtain xs where "drain s = (xs, empty)" using drain_clears by (metis prod.collapse)
    with Drain Cons.IH [of empty] show ?thesis
      by (auto simp: drain_empty split: prod.splits)
  qed
qed simp

lemma size_push: "size_of (push x s) = Suc (size_of s)"
  by (simp add: size_drain drain_push)

end

interpretation mb: fifo_store mailbox_new mailbox_push mailbox_drain mailbox_len
  by unfold_locales
    (simp_all add: mailbox_new_def mailbox_push_def mailbox_drain_def mailbox_len_def)

section \<open>Properties\<close>

text \<open>Under any interleaving of pushes and drains, every cell pushed into a mailbox is drained
  exactly once and in the order of the pushes, or is still queued at the end; nothing else is
  ever drained.\<close>

lemma mailbox_exactly_once:
  "let (batches, m') = run_store mailbox_push mailbox_drain es m
   in concat batches @ queue m' = queue m @ pushed es \<and> mailbox_len m' = length (queue m') \<and>
     mailbox_is_empty m' = (mailbox_len m' = 0)"
  using mb.run_store_conserves [of es m]
  by (auto simp: mailbox_drain_def mailbox_len_def mailbox_is_empty_def split: prod.splits)

end
