(* ===== verification/Pull_Listener.thy ===== *)
theory Pull_Listener
  imports Tcp Mailbox
begin

text \<open>
  \<open>crates/veil-relay/src/pull_listener.rs\<close>: the two requests a relay answers on its mailbox port
  and their client sides. A client reaches a listener through the parameter \<open>dial\<close>
  (\<open>TcpStream::connect\<close>): for the address it gives an error, or the function from the bytes the
  client sends to what it gets, an error of the write or the bytes it receives until the
  connection closes, with the state afterwards.
\<close>

section \<open>Definitions\<close>

definition PULL_REQUEST_BYTE :: byte where "PULL_REQUEST_BYTE = 0x01"
definition DESCRIBE_REQUEST_BYTE :: byte where "DESCRIBE_REQUEST_BYTE = 0x02"

record relay_identity =
  i_id :: string
  i_public_key :: public_key
  i_main_addr :: string

definition write_len_prefixed :: "bytes \<Rightarrow> conn \<Rightarrow> (unit, io_error) outcome \<times> conn" where
  "write_len_prefixed bs =
     then_st (write_all (u16_to_be_bytes (of_nat (length bs)))) (\<lambda>_. write_all bs)"

fun write_cells :: "bytes list \<Rightarrow> conn \<Rightarrow> (unit, io_error) outcome \<times> conn" where
  "write_cells [] = return_st ()"
| "write_cells (cell # cells) = then_st (write_frame_to cell) (\<lambda>_. write_cells cells)"

definition handle_request :: "mailbox \<Rightarrow> relay_identity \<Rightarrow> conn
    \<Rightarrow> (unit, io_error) outcome \<times> conn \<times> mailbox" where
  "handle_request mb identity c =
     (case read_from 1 c of
        (Ok request, c) \<Rightarrow>
          if request ! 0 = PULL_REQUEST_BYTE then
            (let (cells, mb) = mailbox_drain mb;
                 (res, c) = then_st (write_all (u32_to_be_bytes (of_nat (length cells))))
                   (\<lambda>_. write_cells cells) c
             in (res, c, mb))
          else if request ! 0 = DESCRIBE_REQUEST_BYTE then
            (let (res, c) = then_st (write_len_prefixed (as_bytes (i_id identity))) (\<lambda>_.
                   then_st (write_all (pk_bytes (i_public_key identity))) (\<lambda>_.
                     write_len_prefixed (as_bytes (i_main_addr identity)))) c
             in (res, c, mb))
          else (Ok (), c, mb)
      | (Err e, c) \<Rightarrow> (Err e, c, mb)
      | (Panic, c) \<Rightarrow> (Panic, c, mb))"

text \<open>The client's reads, off the bytes it receives.\<close>

definition read_len_prefixed_string :: "bytes \<Rightarrow> (string \<times> bytes, io_error) outcome" where
  "read_len_prefixed_string s =
     and_then (read_exact 2 s) (\<lambda>(len_buf, s).
       let len = unat (u16_from_be_bytes len_buf) in
       and_then (read_exact len s) (\<lambda>(buf, s).
         and_then (ok_or InvalidData (from_utf8 buf)) (\<lambda>str. Ok (str, s))))"

type_synonym 'w dialer = "'w \<Rightarrow> string
    \<Rightarrow> (bytes \<Rightarrow> (bytes, io_error) outcome \<times> 'w, io_error) outcome"

definition pull_response :: "bytes \<Rightarrow> (bytes list, io_error) outcome" where
  "pull_response s =
     and_then (read_exact 4 s) (\<lambda>(count_buf, s).
       let count = unat (u32_from_be_bytes count_buf) in
       and_then (read_many read_frame count s) (\<lambda>(cells, _). Ok cells))"

definition pull :: "'w dialer \<Rightarrow> string \<Rightarrow> 'w \<Rightarrow> (bytes list, io_error) outcome \<times> 'w" where
  "pull dial addr w =
     (case dial w addr of
        Ok talk \<Rightarrow> (let (s, w') = talk [PULL_REQUEST_BYTE] in (and_then s pull_response, w'))
      | Err e \<Rightarrow> (Err e, w)
      | Panic \<Rightarrow> (Panic, w))"

definition describe_response :: "bytes \<Rightarrow> (relay_identity, io_error) outcome" where
  "describe_response s =
     and_then (read_len_prefixed_string s) (\<lambda>(id, s).
       and_then (read_exact 32 s) (\<lambda>(pub_bytes, s).
         and_then (read_len_prefixed_string s) (\<lambda>(main_addr, _).
           Ok \<lparr>i_id = id, i_public_key = PublicKey pub_bytes, i_main_addr = main_addr\<rparr>)))"

definition describe :: "'w dialer \<Rightarrow> string \<Rightarrow> 'w \<Rightarrow> (relay_identity, io_error) outcome \<times> 'w" where
  "describe dial addr w =
     (case dial w addr of
        Ok talk \<Rightarrow> (let (s, w') = talk [DESCRIBE_REQUEST_BYTE] in (and_then s describe_response, w'))
      | Err e \<Rightarrow> (Err e, w)
      | Panic \<Rightarrow> (Panic, w))"

section \<open>Stream formats\<close>

definition len_prefixed :: "string \<Rightarrow> bytes" where
  "len_prefixed s = u16_to_be_bytes (of_nat (length s)) @ as_bytes s"

definition short_str :: "string \<Rightarrow> bool" where
  "short_str s \<longleftrightarrow> valid_str s \<and> length s < 65536"

interpretation strings: stream_codec len_prefixed read_len_prefixed_string short_str
  by unfold_locales
    (simp add: len_prefixed_def read_len_prefixed_string_def short_str_def unat_of_nat_u16
      from_utf8_as_bytes)

definition pull_message :: "bytes list \<Rightarrow> bytes" where
  "pull_message cells = u32_to_be_bytes (of_nat (length cells)) @ concat (map write_frame cells)"

definition describe_message :: "relay_identity \<Rightarrow> bytes" where
  "describe_message i = len_prefixed (i_id i) @ pk_bytes (i_public_key i) @ len_prefixed (i_main_addr i)"

definition identity_ok :: "relay_identity \<Rightarrow> bool" where
  "identity_ok i \<longleftrightarrow> short_str (i_id i) \<and> short_str (i_main_addr i) \<and> length (pk_bytes (i_public_key i)) = 32"

definition batch_ok :: "bytes list \<Rightarrow> bool" where
  "batch_ok cells \<longleftrightarrow> length cells < 4294967296 \<and> list_all (\<lambda>b. length b < 4294967296) cells"

lemma pull_response_message: "batch_ok cells \<Longrightarrow> pull_response (pull_message cells) = Ok cells"
  using frames.read_many_puts [of cells "[]"]
  by (simp add: pull_response_def pull_message_def batch_ok_def unat_of_nat_u32)

lemma describe_response_message: "identity_ok i \<Longrightarrow> describe_response (describe_message i) = Ok i"
  using strings.get_put_Nil [of "i_main_addr i"]
  by (simp add: describe_response_def describe_message_def identity_ok_def strings.get_put)

interpretation pulls: codec pull_message pull_response batch_ok
  by unfold_locales (rule pull_response_message)

interpretation descriptions: codec describe_message describe_response identity_ok
  by unfold_locales (rule describe_response_message)

section \<open>The server writes these formats\<close>

lemma writes_len_prefixed: "writes (len_prefixed s) (write_len_prefixed (as_bytes s))"
  unfolding len_prefixed_def write_len_prefixed_def length_as_bytes
  by (intro writes_then writes_all)

lemma writes_cells: "writes (concat (map write_frame cells)) (write_cells cells)"
proof (induction cells)
  case Nil
  show ?case unfolding write_cells.simps list.map concat.simps by (rule writes_nothing)
next
  case (Cons cell cells)
  then show ?case by (simp add: writes_then writes_frame)
qed

lemma writes_pull:
  "writes (pull_message cells)
     (then_st (write_all (u32_to_be_bytes (of_nat (length cells)))) (\<lambda>_. write_cells cells))"
  unfolding pull_message_def by (intro writes_then writes_all writes_cells)

lemma writes_describe:
  "writes (describe_message i)
     (then_st (write_len_prefixed (as_bytes (i_id i))) (\<lambda>_.
        then_st (write_all (pk_bytes (i_public_key i))) (\<lambda>_.
          write_len_prefixed (as_bytes (i_main_addr i)))))"
  unfolding describe_message_def by (intro writes_then writes_all writes_len_prefixed)

text \<open>What the server sends in answer to a request, over a connection that takes \<open>n\<close> bytes.\<close>

definition answer :: "mailbox \<Rightarrow> relay_identity \<Rightarrow> nat \<Rightarrow> bytes \<Rightarrow> bytes \<times> mailbox" where
  "answer mb i n request =
     (let (_, c, mb') = handle_request mb i \<lparr>incoming = request, room = n, outgoing = []\<rparr>
      in (outgoing c, mb'))"

lemma answer_pull:
  "answer mb i n [PULL_REQUEST_BYTE] = (take n (pull_message (queue mb)), mb\<lparr>queue := []\<rparr>)"
  using writes_result [OF writes_pull [of "queue mb"], of "\<lparr>incoming = [], room = n, outgoing = []\<rparr>"]
  by (auto simp: answer_def handle_request_def read_from_def read_exact_def mailbox_drain_def
      split: prod.splits)

lemma answer_describe:
  "answer mb i n [DESCRIBE_REQUEST_BYTE] = (take n (describe_message i), mb)"
  using writes_result [OF writes_describe [of i], of "\<lparr>incoming = [], room = n, outgoing = []\<rparr>"]
  by (auto simp: answer_def handle_request_def read_from_def read_exact_def
      PULL_REQUEST_BYTE_def DESCRIBE_REQUEST_BYTE_def split: prod.splits)

text \<open>A network with one relay's listener at one address.\<close>

definition relay_dialer :: "string \<Rightarrow> relay_identity \<Rightarrow> nat \<Rightarrow> mailbox dialer" where
  "relay_dialer addr i n mb a = (if a = addr then Ok (\<lambda>req. let (s, mb') = answer mb i n req in (Ok s, mb'))
     else Err ConnectionFailed)"

lemma pull_relay:
  "pull (relay_dialer addr i n) addr mb =
     (pull_response (take n (pull_message (queue mb))), mb\<lparr>queue := []\<rparr>)"
  by (simp add: pull_def relay_dialer_def answer_pull)

lemma describe_relay:
  "describe (relay_dialer addr i n) addr mb = (describe_response (take n (describe_message i)), mb)"
  by (simp add: describe_def relay_dialer_def answer_describe)

lemma read_many_prefix:
  assumes "n < length (concat (map write_frame cells))" "list_all (\<lambda>b. length b < 4294967296) cells"
  shows "read_many read_frame (length cells) (take n (concat (map write_frame cells))) = Err UnexpectedEof"
  using assms
proof (induction cells arbitrary: n)
  case (Cons b cells)
  show ?case
  proof (cases "n < length (write_frame b)")
    case True
    have "read_frame (take n (write_frame b)) = Err UnexpectedEof"
    proof (cases "read_frame (take n (write_frame b))")
      case (Ok x)
      then have "take n (write_frame b) = write_frame (fst x) @ snd x" "length (fst x) < 4294967296"
        by (cases x; simp add: outcome_simps)+
      then have "write_frame b @ [] = write_frame (fst x) @ (snd x @ drop n (write_frame b))"
        by (metis append_assoc append_take_drop_id append_Nil2)
      then have "drop n (write_frame b) = []"
        using frames.put_append_inject [of b "fst x" "[]"] Cons.prems(2) \<open>length (fst x) < 4294967296\<close>
        by auto
      with True show ?thesis by simp
    qed (simp_all add: read_frame_Err)
    with True show ?thesis by simp
  next
    case False
    then have "take n (write_frame b @ concat (map write_frame cells)) =
        write_frame b @ take (n - length (write_frame b)) (concat (map write_frame cells))"
      by simp
    with Cons False show ?thesis by (simp add: read_write_frame)
  qed
qed simp

section \<open>Properties\<close>

text \<open>A client that pulls from a relay's mailbox over a connection that holds gets every queued
  cell, oldest first, and leaves the mailbox empty; asking for a description instead returns the
  relay's own identity and leaves the mailbox as it was.\<close>

lemma pull_and_describe:
  assumes "batch_ok (queue mb)" "identity_ok i"
    and "length (pull_message (queue mb)) \<le> n" "length (describe_message i) \<le> n"
  shows "pull (relay_dialer addr i n) addr mb = (Ok (queue mb), mb\<lparr>queue := []\<rparr>) \<and>
    describe (relay_dialer addr i n) addr mb = (Ok i, mb)"
  using assms by (simp add: pull_relay describe_relay pulls.dec_enc descriptions.dec_enc)

text \<open>C37. The mailbox is drained before its cells are written: when the connection breaks before the
  whole answer is sent, the client gets an error and the cells are in neither place, so they are
  lost.\<close>

theorem broken_pull_loses_cells:
  assumes "batch_ok (queue mb)" "n < length (pull_message (queue mb))"
  shows "pull (relay_dialer addr i n) addr mb = (Err UnexpectedEof, mb\<lparr>queue := []\<rparr>)"
proof (cases "n < 4")
  case True
  then show ?thesis
    by (simp add: pull_relay pull_response_def pull_message_def read_exact_def min_def)
next
  case False
  let ?cells = "queue mb"
  have "read_many read_frame (length ?cells) (take (n - 4) (concat (map write_frame ?cells))) =
      Err UnexpectedEof"
    using assms False by (intro read_many_prefix) (auto simp: pull_message_def batch_ok_def)
  with False assms(1) show ?thesis
    by (simp add: pull_relay pull_response_def pull_message_def unat_of_nat_u32 batch_ok_def)
qed

theorem broken_pull_loses_cells_witness:
  "pull (relay_dialer ''h:10001'' \<lparr>i_id = ''r'', i_public_key = PublicKey [], i_main_addr = ''h:9001''\<rparr> 9)
     ''h:10001'' \<lparr>queue = [[1], [2, 3]]\<rparr> = (Err UnexpectedEof, \<lparr>queue = []\<rparr>)"
  using broken_pull_loses_cells [of "\<lparr>queue = [[1], [2, 3]]\<rparr>" 9 "''h:10001''"]
  by (simp add: batch_ok_def pull_message_def write_frame_def)

end
