(* ===== verification/Discovery.thy ===== *)
theory Discovery
  imports Topology Pull_Listener
begin

text \<open>
  \<open>crates/veil-routing/src/discovery.rs\<close>: building a topology by asking each relay to describe
  itself. A relay that does not answer is reported and does not stop the scan.
\<close>

section \<open>Definitions\<close>

record unreachable_relay =
  u_address :: string
  u_error :: io_error

definition relay_of_identity :: "relay_identity \<Rightarrow> relay_info" where
  "relay_of_identity i = \<lparr>r_id = i_id i, r_address = i_main_addr i, r_public_key = i_public_key i\<rparr>"

fun discover_loop :: "'w dialer \<Rightarrow> string list \<Rightarrow> topology \<Rightarrow> unreachable_relay list \<Rightarrow> 'w
    \<Rightarrow> (topology \<times> unreachable_relay list, 'e) outcome \<times> 'w" where
  "discover_loop dial [] t unreachable w = (Ok (t, unreachable), w)"
| "discover_loop dial (a # as) t unreachable w =
     (case describe dial a w of
        (Ok i, w) \<Rightarrow> discover_loop dial as (add_relay t (relay_of_identity i)) unreachable w
      | (Err e, w) \<Rightarrow> discover_loop dial as t (unreachable @ [\<lparr>u_address = a, u_error = e\<rparr>]) w
      | (Panic, w) \<Rightarrow> (Panic, w))"

definition discover_topology :: "'w dialer \<Rightarrow> string list \<Rightarrow> 'w
    \<Rightarrow> (topology \<times> unreachable_relay list, 'e) outcome \<times> 'w" where
  "discover_topology dial addresses w = discover_loop dial addresses topology_new [] w"

section \<open>A fleet of relays\<close>

text \<open>A network of listeners: the identity each address serves, if any; its state are the
  mailboxes. Every connection takes \<open>n\<close> bytes before it breaks.\<close>

definition fleet_dialer :: "(string \<Rightarrow> relay_identity option) \<Rightarrow> nat \<Rightarrow> (string \<Rightarrow> mailbox) dialer" where
  "fleet_dialer ids n w a =
     (case ids a of
        Some i \<Rightarrow> Ok (\<lambda>req. let (s, mb) = answer (w a) i n req in (Ok s, w(a := mb)))
      | None \<Rightarrow> Err ConnectionFailed)"

lemma fleet_describe:
  "describe (fleet_dialer ids n) a w =
     (case ids a of Some i \<Rightarrow> (describe_response (take n (describe_message i)), w)
      | None \<Rightarrow> (Err ConnectionFailed, w))"
  by (simp add: describe_def fleet_dialer_def answer_describe split: option.splits)

lemma fleet_pull:
  "pull (fleet_dialer ids n) a w =
     (case ids a of
        Some i \<Rightarrow> (pull_response (take n (pull_message (queue (w a)))), w(a := (w a)\<lparr>queue := []\<rparr>))
      | None \<Rightarrow> (Err ConnectionFailed, w))"
  by (simp add: pull_def fleet_dialer_def answer_pull split: option.splits)

definition fleet_ok :: "(string \<Rightarrow> relay_identity option) \<Rightarrow> nat \<Rightarrow> bool" where
  "fleet_ok ids n \<longleftrightarrow> (\<forall>a i. ids a = Some i \<longrightarrow> identity_ok i \<and> length (describe_message i) \<le> n)"

lemma discover_fleet:
  assumes "fleet_ok ids n"
  shows "discover_loop (fleet_dialer ids n) as t us w =
    (Ok (foldl add_relay t (map relay_of_identity (List.map_filter ids as)),
         us @ map (\<lambda>a. \<lparr>u_address = a, u_error = ConnectionFailed\<rparr>) (filter (\<lambda>a. ids a = None) as)), w)"
proof (induction as arbitrary: t us)
  case (Cons a as)
  show ?case
  proof (cases "ids a")
    case (Some i)
    then have "describe (fleet_dialer ids n) a w = (Ok i, w)"
      using assms by (auto simp: fleet_describe fleet_ok_def descriptions.dec_enc)
    with Cons.IH Some show ?thesis by (simp add: List.map_filter_def)
  qed (simp add: fleet_describe Cons.IH List.map_filter_def)
qed (simp add: List.map_filter_def)

lemma map_filter_members: "List.map_filter f xs = map (the \<circ> f) (filter (\<lambda>x. f x \<noteq> None) xs)"
  by (simp add: List.map_filter_def comp_def)

section \<open>Properties\<close>



end
