(* ===== verification/Receiver.thy ===== *)
theory Receiver
  imports Envelope Reassembly Discovery
begin

text \<open>
  \<open>crates/veil-sdk/src/receiver.rs\<close>: pulling the mailboxes of all known relays, opening what is
  addressed to an identity, and reassembling messages across polls. The receiver is a client of
  the \<open>assembler\<close> contract.
\<close>

section \<open>Definitions\<close>

datatype receive_error = ReceiveIo io_error

fun open_all :: "'r externals \<Rightarrow> keypair \<Rightarrow> bytes list \<Rightarrow> cell list \<Rightarrow> (cell list, receive_error) outcome" where
  "open_all X identity [] decrypted = Ok decrypted"
| "open_all X identity (raw # envelopes) decrypted =
     (case open_envelope X identity raw of
        Ok (Some cell) \<Rightarrow> open_all X identity envelopes (decrypted @ [cell])
      | Panic \<Rightarrow> Panic
      | _ \<Rightarrow> open_all X identity envelopes decrypted)"

fun receive_loop :: "'r externals \<Rightarrow> 'w dialer \<Rightarrow> keypair \<Rightarrow> string list \<Rightarrow> cell list \<Rightarrow> 'w
    \<Rightarrow> (cell list, receive_error) outcome \<times> 'w" where
  "receive_loop X dial identity [] decrypted w = (Ok decrypted, w)"
| "receive_loop X dial identity (addr # addrs) decrypted w =
     (case pull dial addr w of
        (Ok envelopes, w) \<Rightarrow>
          (case open_all X identity envelopes decrypted of
             Ok decrypted \<Rightarrow> receive_loop X dial identity addrs decrypted w
           | Err e \<Rightarrow> (Err e, w)
           | Panic \<Rightarrow> (Panic, w))
      | (Err e, w) \<Rightarrow> (Err (ReceiveIo e), w)
      | (Panic, w) \<Rightarrow> (Panic, w))"

definition receive :: "'r externals \<Rightarrow> 'w dialer \<Rightarrow> keypair \<Rightarrow> string list \<Rightarrow> 'w
    \<Rightarrow> (cell list, receive_error) outcome \<times> 'w" where
  "receive X dial identity mailbox_addrs w = receive_loop X dial identity mailbox_addrs [] w"

record receiver =
  rcv_identity :: keypair
  rcv_reassembler :: reassembler

definition receiver_new :: "keypair \<Rightarrow> receiver" where
  "receiver_new identity = \<lparr>rcv_identity = identity, rcv_reassembler = reassembler_new\<rparr>"

definition poll :: "'r externals \<Rightarrow> 'w dialer \<Rightarrow> string list \<Rightarrow> receiver \<times> 'w
    \<Rightarrow> (bytes list, receive_error) outcome \<times> receiver \<times> 'w" where
  "poll X dial mailbox_addrs = (\<lambda>(rcv, w).
     case receive X dial (rcv_identity rcv) mailbox_addrs w of
       (Ok cells, w) \<Rightarrow>
         (let (res, R) = feed insert_cell (rcv_reassembler rcv) cells []
          in (res, rcv\<lparr>rcv_reassembler := R\<rparr>, w))
     | (Err e, w) \<Rightarrow> (Err e, rcv, w)
     | (Panic, w) \<Rightarrow> (Panic, rcv, w))"

definition receiver_pending_count :: "receiver \<Rightarrow> nat" where
  "receiver_pending_count rcv = pending_count (rcv_reassembler rcv)"

section \<open>Opening a batch\<close>

text \<open>The cells among a batch of envelopes that an identity can open.\<close>

definition opened :: "'r externals \<Rightarrow> keypair \<Rightarrow> bytes list \<Rightarrow> cell list" where
  "opened X identity raws =
     List.map_filter (\<lambda>raw. case open_envelope X identity raw of Ok c \<Rightarrow> c | _ \<Rightarrow> None) raws"

lemma opened_simps [simp]:
  "opened X identity [] = []"
  "opened X identity (raws @ raws') = opened X identity raws @ opened X identity raws'"
  by (simp_all add: opened_def List.map_filter_def)

lemma opened_Cons:
  "opened X identity (raw # raws) =
     (case open_envelope X identity raw of Ok (Some c) \<Rightarrow> c # opened X identity raws | _ \<Rightarrow> opened X identity raws)"
  by (simp add: opened_def List.map_filter_def split: outcome.split option.split)

lemma open_all_eq:
  assumes "hkdf_ok X" "aead_ok X"
  shows "open_all X identity raws acc = Ok (acc @ opened X identity raws)"
proof (induction raws arbitrary: acc)
  case (Cons raw raws)
  with open_envelope_no_panic [OF assms, of identity raw] show ?case
    by (auto simp: opened_Cons split: outcome.split option.split)
qed simp

lemma opened_wf:
  assumes "hkdf_ok X" "aead_ok X"
  shows "list_all cell_wf (opened X identity raws)"
proof (induction raws)
  case (Cons raw raws)
  with open_envelope_wf [OF assms, of identity raw] show ?case
    by (auto simp: opened_Cons split: outcome.split option.split)
qed simp

lemma length_opened: "length (opened X identity raws) \<le> length raws"
  by (induction raws) (auto simp: opened_Cons split: outcome.split option.split)

section \<open>Receiving from a fleet\<close>

definition mailboxes_ok :: "(string \<Rightarrow> relay_identity option) \<Rightarrow> nat \<Rightarrow> (string \<Rightarrow> mailbox) \<Rightarrow> string list \<Rightarrow> bool" where
  "mailboxes_ok ids n w addrs \<longleftrightarrow>
     (\<forall>a \<in> set addrs. ids a \<noteq> None \<and> batch_ok (queue (w a)) \<and> length (pull_message (queue (w a))) \<le> n)"

definition emptied :: "string list \<Rightarrow> (string \<Rightarrow> mailbox) \<Rightarrow> string \<Rightarrow> mailbox" where
  "emptied addrs w a = (if a \<in> set addrs then (w a)\<lparr>queue := []\<rparr> else w a)"

lemma receive_loop_fleet:
  assumes laws: "hkdf_ok X" "aead_ok X" and "distinct addrs" "mailboxes_ok ids n w addrs"
  shows "receive_loop X (fleet_dialer ids n) identity addrs acc w =
    (Ok (acc @ concat (map (\<lambda>a. opened X identity (queue (w a))) addrs)), emptied addrs w)"
  using assms(3,4)
proof (induction addrs arbitrary: acc w)
  case Nil
  show ?case by (simp add: emptied_def)
next
  case (Cons a addrs)
  let ?w = "w(a := (w a)\<lparr>queue := []\<rparr>)"
  have pull: "pull (fleet_dialer ids n) a w = (Ok (queue (w a)), ?w)"
    using Cons.prems(2) by (auto simp: fleet_pull mailboxes_ok_def pulls.dec_enc split: option.splits)
  have same: "queue (?w b) = queue (w b)" if "b \<in> set addrs" for b
    using that Cons.prems(1) by auto
  have ok: "mailboxes_ok ids n ?w addrs"
    using Cons.prems same by (simp add: mailboxes_ok_def)
  have cells: "map (\<lambda>a. opened X identity (queue (?w a))) addrs = map (\<lambda>a. opened X identity (queue (w a))) addrs"
    using same by simp
  have "emptied addrs ?w = emptied (a # addrs) w"
    by (auto simp: emptied_def)
  with Cons.IH [OF _ ok, unfolded cells] Cons.prems(1) show ?case
    by (simp add: pull open_all_eq [OF laws] del: fun_upd_apply)
qed

lemma poll_fleet:
  assumes "hkdf_ok X" "aead_ok X" "distinct addrs" "mailboxes_ok ids n w addrs"
    and "reassembler_inv (rcv_reassembler rcv)"
  shows "\<exists>ms R. feed insert_cell (rcv_reassembler rcv)
      (concat (map (\<lambda>a. opened X (rcv_identity rcv) (queue (w a))) addrs)) [] =
        (Ok ms :: (bytes list, receive_error) outcome, R) \<and>
    poll X (fleet_dialer ids n) addrs (rcv, w) = (Ok ms, rcv\<lparr>rcv_reassembler := R\<rparr>, emptied addrs w) \<and>
    reassembler_inv R \<and> length ms \<le> sum_list (map (\<lambda>a. length (queue (w a))) addrs)"
proof -
  let ?cs = "concat (map (\<lambda>a. opened X (rcv_identity rcv) (queue (w a))) addrs)"
  have wf: "list_all cell_wf ?cs"
    using opened_wf [OF assms(1,2)] by (auto simp: list_all_iff)
  have len: "length ?cs \<le> sum_list (map (\<lambda>a. length (queue (w a))) addrs)"
    by (induction addrs) (auto intro: add_mono length_opened)
  obtain ms where "fst (feed insert_cell (rcv_reassembler rcv) ?cs [] :: (bytes list, receive_error) outcome \<times> reassembler) = Ok ([] @ ms)"
      "length ms \<le> length ?cs"
      "reassembler_inv (snd (feed insert_cell (rcv_reassembler rcv) ?cs [] :: (bytes list, receive_error) outcome \<times> reassembler))"
    using reassembly.feed_total [OF assms(5) wf, of "[]"] by blast
  with len show ?thesis
    by (cases "feed insert_cell (rcv_reassembler rcv) ?cs [] :: (bytes list, receive_error) outcome \<times> reassembler")
      (simp add: poll_def receive_def receive_loop_fleet [OF assms(1-4)])
qed

section \<open>Feeding and completed messages\<close>

text \<open>The messages completed by a sequence of insertions.\<close>

definition completions :: "(bytes option, 'e) outcome list \<Rightarrow> bytes list" where
  "completions rs = List.map_filter (\<lambda>r. case r of Ok m \<Rightarrow> m | _ \<Rightarrow> None) rs"

lemma completions_Cons:
  "completions (r # rs) = (case r of Ok (Some m) \<Rightarrow> m # completions rs | _ \<Rightarrow> completions rs)"
  by (simp add: completions_def List.map_filter_def split: outcome.split option.split)

lemma feed_insert_all:
  assumes "reassembler_inv R" "list_all cell_wf cs"
  shows "feed insert_cell R cs acc = (Ok (acc @ completions (fst (insert_all R cs))), snd (insert_all R cs))"
  using assms
proof (induction cs arbitrary: R acc)
  case (Cons c cs)
  obtain res R1 where i: "insert_cell R c = (res, R1)" by fastforce
  have "res \<noteq> Panic" "reassembler_inv R1"
    using reassembly.ins_no_panic [of R c] reassembly.ins_inv [of R c] Cons.prems i by auto
  with Cons.IH [of R1] Cons.prems(2) i show ?case
    by (auto simp: completions_Cons split: outcome.split option.split prod.split)
qed (simp add: completions_def List.map_filter_def)

section \<open>Relays that answer anything\<close>

text \<open>A network in which dialling and talking may fail and return any bytes, but end.\<close>

definition dialer_total :: "'w dialer \<Rightarrow> bool" where
  "dialer_total dial \<longleftrightarrow>
     (\<forall>w a. dial w a \<noteq> Panic \<and> (\<forall>talk req. dial w a = Ok talk \<longrightarrow> fst (talk req) \<noteq> Panic))"

lemma read_many_no_panic: "(\<And>s. get s \<noteq> Panic) \<Longrightarrow> read_many get n s \<noteq> Panic"
  by (induction n arbitrary: s) (auto simp: outcome_simps)

lemma pull_response_no_panic: "pull_response s \<noteq> Panic"
  using read_many_no_panic [of read_frame]
  by (auto simp: pull_response_def outcome_simps read_exact_def Let_def)

lemma pull_no_panic: "dialer_total dial \<Longrightarrow> fst (pull dial a w) \<noteq> Panic"
  unfolding pull_def dialer_total_def
  by (cases "dial w a") (auto simp: outcome_simps pull_response_no_panic split: prod.split, metis fst_conv)

lemma receive_loop_any:
  assumes laws: "hkdf_ok X" "aead_ok X" and "list_all cell_wf acc"
    and "receive_loop X dial identity addrs acc w = (res, w')"
  shows "res = Ok cells \<Longrightarrow> list_all cell_wf cells" "dialer_total dial \<Longrightarrow> res \<noteq> Panic"
proof -
  have "(res = Ok cells \<longrightarrow> list_all cell_wf cells) \<and> (dialer_total dial \<longrightarrow> res \<noteq> Panic)"
    using assms(3,4)
  proof (induction addrs arbitrary: acc w)
    case (Cons a addrs)
    obtain p w1 where p: "pull dial a w = (p, w1)" by fastforce
    show ?case
    proof (cases p)
      case (Ok envelopes)
      have "list_all cell_wf (acc @ opened X identity envelopes)"
        using Cons.prems(1) opened_wf [OF laws] by simp
      from Cons.IH [OF this, of w1] Cons.prems(2) show ?thesis by (simp add: p Ok open_all_eq [OF laws])
    qed (use Cons.prems(2) p pull_no_panic [of dial a w] in auto)
  qed auto
  then show "res = Ok cells \<Longrightarrow> list_all cell_wf cells" "dialer_total dial \<Longrightarrow> res \<noteq> Panic" by blast+
qed

section \<open>Properties\<close>

text \<open>Polling a fleet whose relays all answer never fails and never panics, whatever bytes their
  mailboxes hold: garbage, envelopes for others and forged cells are dropped, every pulled mailbox
  is left empty, at most one message per envelope completes, and the reassembler stays
  consistent.\<close>

lemma poll_robust:
  assumes "hkdf_ok X" "aead_ok X" "distinct addrs" "mailboxes_ok ids n w addrs"
    and "reassembler_inv (rcv_reassembler rcv)"
  shows "\<exists>ms rcv'. poll X (fleet_dialer ids n) addrs (rcv, w) = (Ok ms, rcv', emptied addrs w) \<and>
    length ms \<le> sum_list (map (\<lambda>a. length (queue (w a))) addrs) \<and>
    reassembler_inv (rcv_reassembler rcv') \<and> rcv_identity rcv' = rcv_identity rcv"
  using poll_fleet [OF assms] by fastforce



text \<open>C25. Pulling needs no proof of identity and empties a mailbox, so a poll by anyone who can open none
  of the queued envelopes succeeds with nothing and takes them all: the recipient's own poll after
  it finds nothing either, and the messages are lost.\<close>

theorem foreign_poll_destroys_messages:
  assumes "hkdf_ok X" "aead_ok X" "distinct addrs" "mailboxes_ok ids n w addrs"
    and "reassembler_inv (rcv_reassembler stranger)" "reassembler_inv (rcv_reassembler recipient)"
    and "\<forall>a \<in> set addrs. opened X (rcv_identity stranger) (queue (w a)) = []"
  shows "poll X (fleet_dialer ids n) addrs (stranger, w) = (Ok [], stranger, emptied addrs w) \<and>
    poll X (fleet_dialer ids n) addrs (recipient, emptied addrs w) = (Ok [], recipient, emptied addrs w)"
proof -
  have none: "poll X (fleet_dialer ids n) addrs (rcv, v) = (Ok [], rcv, emptied addrs v)"
    if "mailboxes_ok ids n v addrs" "reassembler_inv (rcv_reassembler rcv)"
      "\<forall>a \<in> set addrs. opened X (rcv_identity rcv) (queue (v a)) = []" for rcv v
  proof -
    have "concat (map (\<lambda>a. opened X (rcv_identity rcv) (queue (v a))) addrs) = []" using that(3) by simp
    with poll_fleet [OF assms(1-3) that(1,2)] show ?thesis by auto
  qed
  have "mailboxes_ok ids n (emptied addrs w) addrs"
    using assms(4) by (auto simp: mailboxes_ok_def emptied_def batch_ok_def pull_message_def)
  moreover have "emptied addrs (emptied addrs w) = emptied addrs w" by (auto simp: emptied_def)
  ultimately show ?thesis
    using none [OF assms(4,5,7)] none [OF _ assms(6), of "emptied addrs w"] by (simp add: emptied_def)
qed

text \<open>An envelope that one identity can open and another cannot.\<close>

lemma demo_session_key:
  "derive_key demo (diffie_hellman demo (fst (generate demo k)) (PublicKey (replicate 32 30))) SESSION_CONTEXT =
     Ok (replicate 32 (of_nat k + 30))"
  by (simp add: derive_key_def diffie_hellman_def generate_def demo_def zip_replicate)

definition demo_envelope :: bytes where
  "demo_envelope = replicate 32 30 @ replicate 12 0 @ map (\<lambda>b. b + 39) (to_bytes (fst (new_dummy demo 3))) @ replicate 16 39"

lemma demo_envelope_opens:
  "opened demo (fst (generate demo 9)) [demo_envelope] = [fst (new_dummy demo 3)]"
  "opened demo (fst (generate demo 4)) [demo_envelope] = []"
  "length demo_envelope = ENVELOPE_SIZE"
proof -
  let ?c = "fst (new_dummy demo 3)"
  let ?e = "replicate 12 0 @ map (\<lambda>b. b + 39) (to_bytes ?c) @ replicate 16 39"
  have wf: "cell_wf ?c" by (rule new_dummy_wf [OF demo_rng_ok prod.collapse [symmetric]])
  then have len: "length (to_bytes ?c) = 512" by (simp add: length_to_bytes cell_consts)
  then have e: "length ?e = ENCRYPTED_CELL_SIZE" by (simp add: encryption_consts)
  with len show "length demo_envelope = ENVELOPE_SIZE" by (simp add: demo_envelope_def ENVELOPE_SIZE_def encryption_consts)
  then have un: "unwrap demo_envelope = Ok (PublicKey (replicate 32 30), ?e)"
    by (simp add: unwrap_def) (simp add: demo_envelope_def)
  have "aead_encrypt demo (replicate 32 39) (take NONCE_SIZE ?e) (to_bytes ?c) = Some (drop NONCE_SIZE ?e)"
    by (simp add: demo_def demo_seal_def demo_shift_def encryption_consts numeral_eq_Suc)
  then have "decrypt_cell demo (replicate 32 39) ?e = Ok ?c"
    using wf by (subst decrypt_cell_Ok_iff [OF demo_aead_ok _ e]) simp_all
  then show "opened demo (fst (generate demo 9)) [demo_envelope] = [?c]"
    using demo_session_key [of 9] by (simp add: opened_Cons open_envelope_def un)
  have "aead_decrypt demo (replicate 32 34) (take NONCE_SIZE ?e) (drop NONCE_SIZE ?e) = None"
    using len by (simp add: demo_def demo_open_def encryption_consts replicate_eq_replicate)
  then have "decrypt_cell demo (replicate 32 34) ?e = Err DecryptionFailed"
    by (simp add: decrypt_cell_def Let_def outcome_simps)
  then show "opened demo (fst (generate demo 4)) [demo_envelope] = []"
    using demo_session_key [of 4] by (simp add: opened_Cons open_envelope_def un)
qed

theorem foreign_poll_destroys_messages_witness:
  "opened demo (fst (generate demo 9)) [demo_envelope] \<noteq> [] \<and>
   poll demo (fleet_dialer (\<lambda>_. Some \<lparr>i_id = [], i_public_key = PublicKey [], i_main_addr = []\<rparr>) 600)
     [''h:10001''] (receiver_new (fst (generate demo 4)), \<lambda>_. \<lparr>queue = [demo_envelope]\<rparr>) =
     (Ok [], receiver_new (fst (generate demo 4)), emptied [''h:10001''] (\<lambda>_. \<lparr>queue = [demo_envelope]\<rparr>)) \<and>
   poll demo (fleet_dialer (\<lambda>_. Some \<lparr>i_id = [], i_public_key = PublicKey [], i_main_addr = []\<rparr>) 600)
     [''h:10001''] (receiver_new (fst (generate demo 9)), emptied [''h:10001''] (\<lambda>_. \<lparr>queue = [demo_envelope]\<rparr>)) =
     (Ok [], receiver_new (fst (generate demo 9)), emptied [''h:10001''] (\<lambda>_. \<lparr>queue = [demo_envelope]\<rparr>))"
proof -
  let ?ids = "\<lambda>_ :: string. Some \<lparr>i_id = [], i_public_key = PublicKey [], i_main_addr = []\<rparr>"
  let ?w = "\<lambda>_ :: string. \<lparr>queue = [demo_envelope]\<rparr>"
  have ok: "mailboxes_ok ?ids 600 ?w [''h:10001'']"
    by (simp add: mailboxes_ok_def batch_ok_def pull_message_def write_frame_def demo_envelope_opens(3)
        ENVELOPE_SIZE_def encryption_consts)
  have inv: "reassembler_inv (rcv_reassembler (receiver_new k))" for k
    by (simp add: receiver_new_def reassembler_inv_new)
  have none: "\<forall>a \<in> set [''h:10001'']. opened demo (rcv_identity (receiver_new (fst (generate demo 4)))) (queue (?w a)) = []"
    by (simp add: receiver_new_def demo_envelope_opens(2))
  from foreign_poll_destroys_messages [OF demo_hkdf_ok demo_aead_ok _ ok inv inv none, of "fst (generate demo 9)"]
  show ?thesis by (simp add: demo_envelope_opens(1))
qed

text \<open>C38. A poll gives up at the first relay that does not answer, after the mailboxes before it have
  been drained: the cells pulled from them are discarded and nothing is left to pull again, so
  one unreachable relay makes the messages queued at the others get lost.\<close>

theorem unreachable_relay_loses_pulled_cells:
  assumes "hkdf_ok X" "aead_ok X" "distinct addrs" "mailboxes_ok ids n w addrs" "ids down = None"
  shows "poll X (fleet_dialer ids n) (addrs @ down # rest) (rcv, w) =
    (Err (ReceiveIo ConnectionFailed), rcv, emptied addrs w)"
proof -
  have "receive_loop X dial identity (as @ bs) acc w =
      (case receive_loop X dial identity as acc w of
         (Ok acc', w') \<Rightarrow> receive_loop X dial identity bs acc' w'
       | (Err e, w') \<Rightarrow> (Err e, w')
       | (Panic, w') \<Rightarrow> (Panic, w'))" for dial identity as bs acc and w :: "string \<Rightarrow> mailbox"
    by (induction as arbitrary: acc w) (auto split: outcome.split prod.split)
  then show ?thesis
    by (simp add: poll_def receive_def receive_loop_fleet [OF assms(1-4)] fleet_pull assms(5))
qed

theorem unreachable_relay_loses_pulled_cells_witness:
  "poll demo (fleet_dialer (\<lambda>a. if a = ''h:10001'' then Some \<lparr>i_id = [], i_public_key = PublicKey [], i_main_addr = []\<rparr>
       else None) 99) [''h:10001'', ''h:10002''] (receiver_new (fst (generate demo 1)), \<lambda>_. \<lparr>queue = [[1]]\<rparr>) =
     (Err (ReceiveIo ConnectionFailed), receiver_new (fst (generate demo 1)),
      \<lambda>a. if a = ''h:10001'' then \<lparr>queue = []\<rparr> else \<lparr>queue = [[1]]\<rparr>)"
proof -
  let ?ids = "\<lambda>a. if a = ''h:10001'' then Some \<lparr>i_id = [], i_public_key = PublicKey [], i_main_addr = []\<rparr> else None"
  let ?w = "\<lambda>_ :: string. \<lparr>queue = [[1]]\<rparr>"
  have ok: "mailboxes_ok ?ids 99 ?w [''h:10001'']"
    by (simp add: mailboxes_ok_def batch_ok_def pull_message_def write_frame_def)
  have "emptied [''h:10001''] ?w = (\<lambda>a. if a = ''h:10001'' then \<lparr>queue = []\<rparr> else \<lparr>queue = [[1]]\<rparr>)"
    by (auto simp: emptied_def)
  with unreachable_relay_loses_pulled_cells [OF demo_hkdf_ok demo_aead_ok _ ok, of "''h:10002''" "[]"
      "receiver_new (fst (generate demo 1))"]
  show ?thesis by simp
qed

end
