(* ===== verification/Fabric.thy ===== *)
theory Fabric
  imports Client Receiver
begin

text \<open>
  The running fabric: relay nodes, each processing the frames that arrive on the connections
  opened to its address, in any order. The state is the node at each address and the wire, the
  list of all connections with the bytes on them that were not yet read. A step lets one relay
  process the first frame of one connection with the node's own code. The lemmas show that every
  step conserves what the frames on the wire are destined to deliver, that some step is possible
  as long as a frame is on the wire, and that steps end.
\<close>

section \<open>The step relation\<close>

record fabric =
  f_nodes :: "string \<Rightarrow> relay_node option"
  f_wire :: "(string \<times> bytes) list"

inductive fabric_step :: "'r externals \<Rightarrow> fabric \<Rightarrow> fabric \<Rightarrow> bool" for X :: "'r externals" where
  process: "h < length (f_wire S) \<Longrightarrow> f_wire S ! h = (a, s) \<Longrightarrow> f_nodes S a = Some node \<Longrightarrow>
    connection_step X wire_net s (node, (f_wire S)[h := (a, s')]) = (Continue s', node', wire') \<Longrightarrow>
    fabric_step X S (S\<lparr>f_nodes := (f_nodes S)(a \<mapsto> node'), f_wire := wire'\<rparr>)"

inductive_cases fabric_stepE: "fabric_step X S T"

definition fabric_start :: "(string \<Rightarrow> keypair option) \<Rightarrow> (string \<Rightarrow> relay_config) \<Rightarrow> (string \<times> bytes) list \<Rightarrow> fabric" where
  "fabric_start K cfg wire = \<lparr>f_nodes = (\<lambda>a. map_option (node_new (cfg a)) (K a)), f_wire = wire\<rparr>"

section \<open>Where a frame ends\<close>

inductive reaches :: "'r externals \<Rightarrow> (string \<Rightarrow> keypair option) \<Rightarrow> string \<times> bytes \<Rightarrow> string \<times> bytes \<Rightarrow> bool"
  for X :: "'r externals" and K :: "string \<Rightarrow> keypair option" where
  exit: "K a = Some kp \<Longrightarrow> peel_onion_layer X kp f = Ok (Deliver b) \<Longrightarrow> reaches X K (a, f) (a, b)"
| hop: "K a = Some kp \<Longrightarrow> peel_onion_layer X kp f = Ok (Forward h inner) \<Longrightarrow> reaches X K (h, inner) d \<Longrightarrow>
    reaches X K (a, f) d"

inductive_simps reaches_simp: "reaches X K (a, f) d"

lemma reaches_deliver:
  "K a = Some kp \<Longrightarrow> peel_onion_layer X kp f = Ok (Deliver b) \<Longrightarrow> reaches X K (a, f) d \<longleftrightarrow> d = (a, b)"
  by (subst reaches_simp) auto

lemma reaches_forward:
  "K a = Some kp \<Longrightarrow> peel_onion_layer X kp f = Ok (Forward h inner) \<Longrightarrow>
     reaches X K (a, f) d \<longleftrightarrow> reaches X K (h, inner) d"
  by (subst reaches_simp) auto

lemma reaches_peels:
  "reaches X K (a, f) d \<Longrightarrow> \<exists>kp p. K a = Some kp \<and> peel_onion_layer X kp f = Ok p"
  by (erule reaches.cases) auto

lemma peel_shorter:
  assumes "hkdf_ok X" "aead_ok X" "peel_onion_layer X kp f = Ok p"
  shows "length (body p) < length f"
proof -
  obtain key where key: "layer_key X kp f = Some key" "length key = 32"
    using layer_key_exists [OF assms(1)] by blast
  have long: "60 \<le> length f"
    using assms(3) by (auto simp: peel_onion_layer_def onion_consts split: if_splits)
  obtain pt where pt: "aead_decrypt X key (sub_slice 32 44 f) (drop 44 f) = Some pt" "decode_payload pt = Ok p"
    using assms(3) unfolding peel_eq [OF key(1) long] by (auto simp: outcome_simps)
  have n: "length (sub_slice 32 44 f) = 12" using long by (simp add: sub_slice_def)
  have "length (drop 44 f) = length pt + 16"
    using aead_encrypt_length [OF assms(2) key(2) n] pt(1) aead_decrypt_Some_iff [OF assms(2) key(2) n]
    by blast
  moreover have "pt = encode_payload p" using encode_decode_payload [OF pt(2)] by simp
  moreover have "length (body p) \<le> length (encode_payload p)"
    by (cases p) (simp_all add: length_encode_payload)
  ultimately show ?thesis using long by simp
qed

text \<open>A packet with a path travels it.\<close>

lemma journey_reaches:
  assumes "journey X (path_keys K path) layer = ps @ [Deliver b]" "path \<noteq> []"
    and "list_all2 (\<lambda>p succ. \<exists>inner. p = Forward (r_address succ) inner) ps (tl path)"
    and "\<forall>p \<in> set path. K (r_address p) \<noteq> None"
  shows "reaches X K (r_address (hd path), layer) (r_address (last path), b)"
  using assms
proof (induction path arbitrary: layer ps)
  case (Cons p path)
  obtain kp where kp: "K (r_address p) = Some kp" using Cons.prems(4) by auto
  show ?case
  proof (cases path)
    case Nil
    with Cons.prems(3) have "ps = []" by simp
    with Cons.prems(1) kp Nil have "peel_onion_layer X kp layer = Ok (Deliver b)"
      by (auto simp: path_keys_def split: outcome.splits)
    with kp Nil show ?thesis by (simp add: reaches_deliver)
  next
    case path: (Cons q qs)
    with Cons.prems(3) obtain inner ps' where ps: "ps = Forward (r_address q) inner # ps'"
        "list_all2 (\<lambda>p succ. \<exists>inner. p = Forward (r_address succ) inner) ps' qs"
      by (auto simp: list_all2_Cons2)
    with Cons.prems(1) kp have peel: "peel_onion_layer X kp layer = Ok (Forward (r_address q) inner)"
        "journey X (path_keys K path) inner = ps' @ [Deliver b]"
      by (auto simp: path_keys_def split: outcome.splits)
    have "reaches X K (r_address (hd path), inner) (r_address (last path), b)"
      by (rule Cons.IH [OF peel(2)]) (use path ps Cons.prems(4) in auto)
    with kp peel(1) path show ?thesis by (simp add: reaches_forward)
  qed
qed simp

section \<open>The wire as frames\<close>

type_synonym wire_frames = "(string \<times> bytes list) list"

definition wire_of :: "wire_frames \<Rightarrow> (string \<times> bytes) list" where
  "wire_of ws = map (\<lambda>(a, fs). (a, concat (map write_frame fs))) ws"

definition tagged :: "string \<times> bytes list \<Rightarrow> (string \<times> bytes) list" where
  "tagged = (\<lambda>(a, fs). map (Pair a) fs)"

definition on_wire :: "wire_frames \<Rightarrow> (string \<times> bytes) multiset" where
  "on_wire ws = mset (concat (map tagged ws))"

definition frames_small :: "wire_frames \<Rightarrow> bool" where
  "frames_small ws \<longleftrightarrow> (\<forall>x \<in> set ws. \<forall>f \<in> set (snd x). length f < 4294967296)"

lemma on_wire_update:
  "h < length ws \<Longrightarrow> on_wire (ws[h := x]) + mset (tagged (ws ! h)) = on_wire ws + mset (tagged x)"
proof -
  assume h: "h < length ws"
  have "ws = take h ws @ ws ! h # drop (Suc h) ws" by (rule id_take_nth_drop [OF h])
  then have "on_wire ws = on_wire (take h ws) + mset (tagged (ws ! h)) + on_wire (drop (Suc h) ws)"
    by (metis (no_types, lifting) add.assoc concat.simps(2) concat_append list.simps(9) map_append
        mset_append on_wire_def)
  then show ?thesis
    unfolding upd_conv_take_nth_drop [OF h] by (simp add: on_wire_def)
qed

lemma wire_of_update: "wire_of (ws[h := (a, fs)]) = (wire_of ws)[h := (a, concat (map write_frame fs))]"
  by (simp add: wire_of_def map_update)

lemma wire_of_nth: "h < length ws \<Longrightarrow> wire_of ws ! h = (fst (ws ! h), concat (map write_frame (snd (ws ! h))))"
  by (simp add: wire_of_def split: prod.split)

lemma length_wire_of [simp]: "length (wire_of ws) = length ws"
  by (simp add: wire_of_def)

text \<open>Handles in a pool point at connections to their address.\<close>

definition pool_ok :: "wire_frames \<Rightarrow> connection_pool \<Rightarrow> bool" where
  "pool_ok ws pool \<longleftrightarrow> (\<forall>hop h. map_of pool hop = Some h \<longrightarrow> h < length ws \<and> fst (ws ! h) = hop)"

definition same_targets :: "wire_frames \<Rightarrow> wire_frames \<Rightarrow> bool" where
  "same_targets ws ws' \<longleftrightarrow> length ws \<le> length ws' \<and> (\<forall>i < length ws. fst (ws' ! i) = fst (ws ! i))"

lemma pool_ok_mono: "pool_ok ws pool \<Longrightarrow> same_targets ws ws' \<Longrightarrow> pool_ok ws' pool"
  unfolding pool_ok_def
proof (intro allI impI)
  fix hop h
  assume "\<forall>hop h. map_of pool hop = Some h \<longrightarrow> h < length ws \<and> fst (ws ! h) = hop"
    "same_targets ws ws'" "map_of pool hop = Some h"
  then have "h < length ws" "fst (ws ! h) = hop" "same_targets ws ws'" by blast+
  then show "h < length ws' \<and> fst (ws' ! h) = hop" by (auto simp: same_targets_def)
qed

lemma pool_ok_insert:
  "pool_ok ws pool \<Longrightarrow> h < length ws \<Longrightarrow> fst (ws ! h) = hop \<Longrightarrow> pool_ok ws (AList.update hop h pool)"
  by (auto simp: pool_ok_def update_conv')

lemma wire_write_frame:
  assumes "h < length ws"
  shows "net_write_frame wire_net h b (wire_of ws) =
    (Ok (), wire_of (ws[h := (fst (ws ! h), snd (ws ! h) @ [b])]))"
  using assms
  by (simp add: net_write_frame_def then_st_def wire_net_def wire_of_update wire_of_nth write_frame_def)

lemma forward_wire:
  assumes pool: "pool_ok ws (outbound node)" and small: "frames_small ws" "length b < 4294967296"
  shows "\<exists>pool ws'. forward wire_net hop b (node, wire_of ws) = (Ok (), node\<lparr>outbound := pool\<rparr>, wire_of ws') \<and>
    on_wire ws' = add_mset (hop, b) (on_wire ws) \<and> pool_ok ws' pool \<and> same_targets ws ws' \<and> frames_small ws'"
proof (cases "map_of (outbound node) hop")
  case (Some h)
  then have h: "h < length ws" "fst (ws ! h) = hop" using pool by (auto simp: pool_ok_def)
  let ?ws = "ws[h := (hop, snd (ws ! h) @ [b])]"
  have x: "ws ! h = (hop, snd (ws ! h))" using h(2) by (metis prod.collapse)
  have "on_wire ?ws + mset (tagged (ws ! h)) = add_mset (hop, b) (on_wire ws) + mset (tagged (ws ! h))"
    unfolding on_wire_update [OF h(1)] by (subst (2) x) (simp add: tagged_def)
  then have "on_wire ?ws = add_mset (hop, b) (on_wire ws)" by simp
  moreover have "same_targets ws ?ws" using h by (auto simp: same_targets_def nth_list_update)
  moreover have "frames_small ?ws"
    using small nth_mem [OF h(1)] unfolding frames_small_def
    by (auto dest!: set_update_subset_insert [THEN subsetD])
  moreover have "forward wire_net hop b (node, wire_of ws) = (Ok (), node\<lparr>outbound := outbound node\<rparr>, wire_of ?ws)"
    using Some wire_write_frame [OF h(1), of b] h(2) by (simp add: forward_def get_or_connect_def then_st_def)
  ultimately show ?thesis using pool_ok_mono [OF pool] by blast
next
  case None
  let ?ws = "ws @ [(hop, [b])]" and ?pool = "AList.update hop (length ws) (outbound node)"
  have "on_wire ?ws = add_mset (hop, b) (on_wire ws)" by (simp add: on_wire_def tagged_def)
  moreover have "same_targets ws ?ws" by (auto simp: same_targets_def nth_append)
  moreover from this have "pool_ok ?ws ?pool"
    using pool_ok_mono [OF pool] by (intro pool_ok_insert) auto
  moreover have "frames_small ?ws" using small by (auto simp: frames_small_def)
  moreover have "forward wire_net hop b (node, wire_of ws) = (Ok (), node\<lparr>outbound := ?pool\<rparr>, wire_of ?ws)"
  proof -
    have "wire_of ws @ [(hop, [])] = wire_of (ws @ [(hop, [])])" by (simp add: wire_of_def)
    moreover have "net_write_frame wire_net (length ws) b (wire_of (ws @ [(hop, [])])) = (Ok (), wire_of ?ws)"
      using wire_write_frame [of "length ws" "ws @ [(hop, [])]" b] by simp
    ultimately show ?thesis
      using None by (simp add: forward_def get_or_connect_def then_st_def wire_net_def [THEN arg_cong [of _ _ net_connect]])
  qed
  ultimately show ?thesis by blast
qed

section \<open>The invariant\<close>

text \<open>What the nodes at the addresses \<open>as\<close> have delivered.\<close>

definition delivered_at :: "string list \<Rightarrow> (string \<Rightarrow> relay_node option) \<Rightarrow> (string \<times> bytes) multiset" where
  "delivered_at as nodes = mset (concat (map (\<lambda>a. map (Pair a) (delivery (the (nodes a)))) as))"

definition nodes_ok :: "(string \<Rightarrow> keypair option) \<Rightarrow> wire_frames \<Rightarrow> (string \<Rightarrow> relay_node option) \<Rightarrow> bool" where
  "nodes_ok K ws nodes \<longleftrightarrow>
     (\<forall>a. map_option node_keypair (nodes a) = K a) \<and>
     (\<forall>a node. nodes a = Some node \<longrightarrow> delivery_open node \<and> pool_ok ws (outbound node))"

text \<open>The frames on the wire have destinations, and those together with what was delivered are the
  total \<open>D\<close>.\<close>

definition fabric_inv :: "'r externals \<Rightarrow> (string \<Rightarrow> keypair option) \<Rightarrow> string list
    \<Rightarrow> (string \<times> bytes) multiset \<Rightarrow> fabric \<Rightarrow> wire_frames \<Rightarrow> bool" where
  "fabric_inv X K as D S ws \<longleftrightarrow>
     f_wire S = wire_of ws \<and> frames_small ws \<and> nodes_ok K ws (f_nodes S) \<and>
     (\<exists>E. rel_mset (reaches X K) (on_wire ws) E \<and> E + delivered_at as (f_nodes S) = D)"

lemma delivered_at_other: "a \<notin> set as \<Longrightarrow> delivered_at as (nodes(a \<mapsto> n)) = delivered_at as nodes"
  unfolding delivered_at_def by (rule arg_cong [of _ _ "\<lambda>x. mset (concat x)"]) auto

lemma delivered_at_upd:
  assumes "distinct as" "a \<in> set as" "delivery n = delivery (the (nodes a)) @ bs"
  shows "delivered_at as (nodes(a \<mapsto> n)) = delivered_at as nodes + mset (map (Pair a) bs)"
  using assms(1,2)
proof (induction as)
  case (Cons x as)
  show ?case
  proof (cases "x = a")
    case True
    with Cons.prems have "a \<notin> set as" by simp
    from delivered_at_other [OF this, of nodes n] show ?thesis
      by (simp add: delivered_at_def True assms(3))
  next
    case False
    with Cons show ?thesis by (simp add: delivered_at_def)
  qed
qed simp

lemma delivered_at_same:
  assumes "distinct as" "delivery n = delivery (the (nodes a))"
  shows "delivered_at as (nodes(a \<mapsto> n)) = delivered_at as nodes"
  using assms delivered_at_upd [of as a n nodes "[]"] delivered_at_other [of a as nodes n]
  by (cases "a \<in> set as") simp_all

lemma read_frame_wire:
  assumes "read_frame (concat (map write_frame fs)) = Ok (f, s')" "\<forall>g \<in> set fs. length g < 4294967296"
  shows "\<exists>fs'. fs = f # fs' \<and> s' = concat (map write_frame fs')"
proof (cases fs)
  case Nil
  with assms(1) show ?thesis by (simp add: read_frame_def read_exact_def)
next
  case (Cons g gs)
  with assms show ?thesis by (simp add: read_write_frame)
qed

lemma nodes_ok_update:
  assumes "nodes_ok K ws nodes" "same_targets ws ws'" "K a = Some (node_keypair n)" "delivery_open n"
    "pool_ok ws' (outbound n)"
  shows "nodes_ok K ws' (nodes(a \<mapsto> n))"
  using assms pool_ok_mono [OF _ assms(2)] unfolding nodes_ok_def by auto

lemma same_targets_trans: "same_targets ws vs \<Longrightarrow> same_targets vs us \<Longrightarrow> same_targets ws us"
  by (auto simp: same_targets_def)

text \<open>Taking the first frame off a connection.\<close>

lemma take_frame:
  assumes "h < length ws" "ws ! h = (a, f # fs)" "frames_small ws"
  shows "on_wire ws = add_mset (a, f) (on_wire (ws[h := (a, fs)]))"
    "frames_small (ws[h := (a, fs)])" "same_targets ws (ws[h := (a, fs)])" "length f < 4294967296"
proof -
  have "on_wire (ws[h := (a, fs)]) + mset (tagged (a, f # fs)) = on_wire ws + mset (tagged (a, fs))"
    using on_wire_update [OF assms(1), of "(a, fs)"] assms(2) by simp
  then show "on_wire ws = add_mset (a, f) (on_wire (ws[h := (a, fs)]))" by (simp add: tagged_def)
  have "\<forall>g \<in> set (f # fs). length g < 4294967296"
    using assms nth_mem [OF assms(1)] unfolding frames_small_def by fastforce
  then show "length f < 4294967296" "frames_small (ws[h := (a, fs)])"
    using assms(3) unfolding frames_small_def
    by (auto dest!: set_update_subset_insert [THEN subsetD])
  show "same_targets ws (ws[h := (a, fs)])"
    using assms by (auto simp: same_targets_def nth_list_update)
qed

text \<open>Processing one frame with a destination: it is delivered here, or a shorter frame with the
  same destination goes back on the wire.\<close>

lemma process_on_wire:
  assumes laws: "hkdf_ok X" "aead_ok X"
    and node: "K a = Some (node_keypair node)" "delivery_open node" "pool_ok ws (outbound node)"
    and f: "frames_small ws" "length f < 4294967296" "reaches X K (a, f) d"
  shows "\<exists>node' ws'. process_frame X wire_net f (node, wire_of ws) = (Ok (), node', wire_of ws') \<and>
    same_targets ws ws' \<and> frames_small ws' \<and> pool_ok ws' (outbound node') \<and>
    node_keypair node' = node_keypair node \<and> delivery_open node' \<and>
    ((\<exists>b. d = (a, b) \<and> delivery node' = delivery node @ [b] \<and> on_wire ws' = on_wire ws) \<or>
     (\<exists>hop inner. reaches X K (hop, inner) d \<and> length inner < length f \<and>
        delivery node' = delivery node \<and> on_wire ws' = add_mset (hop, inner) (on_wire ws)))"
proof -
  obtain p where p: "peel_onion_layer X (node_keypair node) f = Ok p"
    using reaches_peels [OF f(3)] node(1) by auto
  show ?thesis
  proof (cases p)
    case (Deliver b)
    then have "d = (a, b)" using f(3) p node(1) by (simp add: reaches_deliver)
    then show ?thesis
      using p Deliver node(2,3) f(1)
      by (intro exI [of _ "count_delivered (send_delivery b node)"] exI [of _ ws])
        (simp add: process_frame_def counters same_targets_def)
  next
    case (Forward hop inner)
    have short: "length inner < length f" using peel_shorter [OF laws p] Forward by simp
    have r: "reaches X K (hop, inner) d" using f(3) p node(1) Forward by (simp add: reaches_forward)
    obtain pool ws' where fw: "forward wire_net hop inner (node, wire_of ws) = (Ok (), node\<lparr>outbound := pool\<rparr>, wire_of ws')"
        "on_wire ws' = add_mset (hop, inner) (on_wire ws)" "pool_ok ws' pool" "same_targets ws ws'" "frames_small ws'"
      using forward_wire [OF node(3) f(1), of inner hop] short f(2) by auto
    have "process_frame X wire_net f (node, wire_of ws) =
        (Ok (), count_forwarded (node\<lparr>outbound := pool\<rparr>), wire_of ws')"
      using p Forward fw(1) by (simp add: process_frame_def)
    with fw r short node(2) show ?thesis
      by (intro exI [of _ "count_forwarded (node\<lparr>outbound := pool\<rparr>)"] exI [of _ ws'] conjI disjI2
          exI [of _ hop] exI [of _ inner]) (simp_all add: counters)
  qed
qed

definition wire_size :: "wire_frames \<Rightarrow> nat" where
  "wire_size ws = (\<Sum>x \<in># on_wire ws. Suc (length (snd x)))"

lemma head_frame_reaches:
  assumes "rel_mset (reaches X K) (add_mset (a, f) M) E"
  shows "\<exists>d E'. E = add_mset d E' \<and> reaches X K (a, f) d \<and> rel_mset (reaches X K) M E'"
  using msed_rel_invL [OF assms] by blast

text \<open>Taking the first frame off a connection and processing it keeps the account: what it was destined to
  deliver is delivered, or still to be delivered by the smaller frame that replaces it.\<close>

lemma frame_accounted:
  assumes as: "distinct as" "a \<in> set as" and node: "nodes a = Some node"
    and d: "E = add_mset d E'" "rel_mset (reaches X K) (on_wire us) E'" "E + delivered_at as nodes = D"
    and did: "(\<exists>b. d = (a, b) \<and> delivery node' = delivery node @ [b] \<and> on_wire ws' = on_wire us) \<or>
       (\<exists>hop inner. reaches X K (hop, inner) d \<and> length inner < length f \<and>
          delivery node' = delivery node \<and> on_wire ws' = add_mset (hop, inner) (on_wire us))"
    and taken: "on_wire ws = add_mset (a, f) (on_wire us)"
  shows "\<exists>E2. rel_mset (reaches X K) (on_wire ws') E2 \<and> E2 + delivered_at as (nodes(a \<mapsto> node')) = D \<and>
    wire_size ws' < wire_size ws"
  using did
proof (elim disjE exE conjE)
  fix b
  assume b: "d = (a, b)" "delivery node' = delivery node @ [b]" "on_wire ws' = on_wire us"
  have "delivered_at as (nodes(a \<mapsto> node')) = add_mset (a, b) (delivered_at as nodes)"
    using delivered_at_upd [OF as, of node' nodes "[b]"] b(2) node by simp
  then show ?thesis using d b by (intro exI [of _ E']) (simp add: wire_size_def taken)
next
  fix hop inner
  assume b: "reaches X K (hop, inner) d" "length inner < length f"
    "delivery node' = delivery node" "on_wire ws' = add_mset (hop, inner) (on_wire us)"
  have "rel_mset (reaches X K) (on_wire ws') E"
    unfolding b(4) d(1) using b(1) d(2) by (rule rel_mset_Plus)
  then show ?thesis
    using d(3) b delivered_at_same [OF as(1), of node' nodes a] node
    by (intro exI [of _ E]) (simp add: wire_size_def taken)
qed

lemma fabric_step_inv:
  assumes laws: "hkdf_ok X" "aead_ok X" and as: "distinct as" "\<And>a. K a \<noteq> None \<Longrightarrow> a \<in> set as"
    and inv: "fabric_inv X K as D S ws" and h: "h < length ws" "ws ! h = (a, f # fs)"
    and node: "f_nodes S a = Some node"
  shows "\<exists>node' ws'. process_frame X wire_net f (node, wire_of (ws[h := (a, fs)])) = (Ok (), node', wire_of ws') \<and>
    fabric_inv X K as D (S\<lparr>f_nodes := (f_nodes S)(a \<mapsto> node'), f_wire := wire_of ws'\<rparr>) ws' \<and>
    wire_size ws' < wire_size ws"
proof -
  let ?ws = "ws[h := (a, fs)]"
  obtain E where E: "rel_mset (reaches X K) (on_wire ws) E" "E + delivered_at as (f_nodes S) = D"
      and small: "frames_small ws" and nodes: "nodes_ok K ws (f_nodes S)"
    using inv by (auto simp: fabric_inv_def)
  note taken = take_frame [OF h small]
  obtain d E' where d: "E = add_mset d E'" "reaches X K (a, f) d" "rel_mset (reaches X K) (on_wire ?ws) E'"
    using head_frame_reaches E(1) unfolding taken(1) by blast
  have n: "K a = Some (node_keypair node)" "delivery_open node" "pool_ok ws (outbound node)"
    using nodes node unfolding nodes_ok_def by (metis option.simps(9), auto)
  obtain node' ws' where p: "process_frame X wire_net f (node, wire_of ?ws) = (Ok (), node', wire_of ws')"
      "same_targets ?ws ws'" "frames_small ws'" "pool_ok ws' (outbound node')"
      "node_keypair node' = node_keypair node" "delivery_open node'"
      "(\<exists>b. d = (a, b) \<and> delivery node' = delivery node @ [b] \<and> on_wire ws' = on_wire ?ws) \<or>
       (\<exists>hop inner. reaches X K (hop, inner) d \<and> length inner < length f \<and>
          delivery node' = delivery node \<and> on_wire ws' = add_mset (hop, inner) (on_wire ?ws))"
    using process_on_wire [OF laws n(1,2) pool_ok_mono [OF n(3) taken(3)] taken(2,4) d(2)] by blast
  have nok: "nodes_ok K ws' ((f_nodes S)(a \<mapsto> node'))"
    using nodes_ok_update [OF nodes same_targets_trans [OF taken(3) p(2)], of a node'] n(1) p(4-6) by simp
  have "a \<in> set as" using as(2) n(1) by auto
  from frame_accounted [OF as(1) this node d(1,3) E(2) p(7) taken(1)]
  show ?thesis
    using p(1,3) nok by (intro exI [of _ node'] exI [of _ ws']) (auto simp: fabric_inv_def)
qed

lemma wire_entry:
  assumes "frames_small ws" "h < length ws" "wire_of ws ! h = (a, s)" "read_frame s = Ok (f, s')"
  shows "\<exists>fs. ws ! h = (a, f # fs) \<and> s' = concat (map write_frame fs)"
proof -
  have s: "ws ! h = (a, snd (ws ! h))" "s = concat (map write_frame (snd (ws ! h)))"
    using assms(2,3) by (simp_all add: wire_of_nth prod_eq_iff)
  have "\<forall>g \<in> set (snd (ws ! h)). length g < 4294967296"
    using assms(1) nth_mem [OF assms(2)] unfolding frames_small_def by blast
  from read_frame_wire [OF assms(4) [unfolded s(2)] this] s(1) show ?thesis by metis
qed

lemma fabric_inv_step:
  assumes laws: "hkdf_ok X" "aead_ok X" and as: "distinct as" "\<And>a. K a \<noteq> None \<Longrightarrow> a \<in> set as"
    and step: "fabric_step X S T" and inv: "fabric_inv X K as D S ws"
  shows "\<exists>ws'. fabric_inv X K as D T ws' \<and> wire_size ws' < wire_size ws"
  using step
proof (rule fabric_stepE)
  fix h a s node s' node' wire'
  assume T: "T = S\<lparr>f_nodes := (f_nodes S)(a \<mapsto> node'), f_wire := wire'\<rparr>"
    and h: "h < length (f_wire S)" "f_wire S ! h = (a, s)" and node: "f_nodes S a = Some node"
    and cs: "connection_step X wire_net s (node, (f_wire S)[h := (a, s')]) = (Continue s', node', wire')"
  have w: "f_wire S = wire_of ws" "frames_small ws" using inv by (simp_all add: fabric_inv_def)
  from cs obtain f where f: "read_frame s = Ok (f, s')"
      "process_frame X wire_net f (node, (f_wire S)[h := (a, s')]) = (Ok (), node', wire')"
    unfolding connection_step_Continue_iff by blast
  obtain fs where fs: "ws ! h = (a, f # fs)" "s' = concat (map write_frame fs)"
    using wire_entry [OF w(2) _ _ f(1)] h w(1) by auto
  have "(f_wire S)[h := (a, s')] = wire_of (ws[h := (a, fs)])"
    by (simp add: w(1) fs(2) wire_of_update)
  with fabric_step_inv [OF laws as inv _ fs(1) node] h(1) w(1) f(2) T show ?thesis by auto
qed

text \<open>The first frame of every connection can be processed.\<close>

lemma on_wire_nonempty:
  assumes "on_wire ws \<noteq> {#}"
  shows "\<exists>h a f fs. h < length ws \<and> ws ! h = (a, f # fs)"
proof -
  from assms obtain a gs where x: "(a, gs) \<in> set ws" "gs \<noteq> []"
    by (auto simp: on_wire_def tagged_def)
  then obtain f fs where "gs = f # fs" by (cases gs) auto
  with x(1) show ?thesis by (auto simp: in_set_conv_nth)
qed

lemma fabric_can_process:
  assumes laws: "hkdf_ok X" "aead_ok X" and as: "distinct as" "\<And>a. K a \<noteq> None \<Longrightarrow> a \<in> set as"
    and inv: "fabric_inv X K as D S ws" and h: "h < length ws" "ws ! h = (a, f # fs)"
  shows "\<exists>s s' node node' wire'. f_wire S ! h = (a, s) \<and> f_nodes S a = Some node \<and>
    connection_step X wire_net s (node, (f_wire S)[h := (a, s')]) = (Continue s', node', wire')"
proof -
  have w: "f_wire S = wire_of ws" "frames_small ws" "nodes_ok K ws (f_nodes S)"
      "\<exists>E. rel_mset (reaches X K) (on_wire ws) E"
    using inv by (auto simp: fabric_inv_def)
  note taken = take_frame [OF h w(2)]
  obtain d where "reaches X K (a, f) d" using w(4) head_frame_reaches unfolding taken(1) by blast
  then obtain kp where "K a = Some kp" using reaches_peels by blast
  then obtain node where node: "f_nodes S a = Some node"
    using w(3) unfolding nodes_ok_def by (metis option.map_disc_iff option.exhaust option.distinct(1))
  let ?s' = "concat (map write_frame fs)"
  obtain node' wire' where "process_frame X wire_net f (node, wire_of (ws[h := (a, fs)])) = (Ok (), node', wire')"
    using fabric_step_inv [OF laws as inv h node] by blast
  then have "connection_step X wire_net (write_frame f @ ?s') (node, (f_wire S)[h := (a, ?s')]) =
      (Continue ?s', node', wire')"
    using taken(4) by (simp add: connection_step_Continue_iff read_write_frame w(1) wire_of_update)
  moreover have "f_wire S ! h = (a, write_frame f @ ?s')" using h w(1) by (simp add: wire_of_nth)
  ultimately show ?thesis using node by blast
qed

lemma fabric_inv_start:
  assumes "rel_mset (reaches X K) (on_wire ws) D" "frames_small ws" "set as = dom K"
  shows "fabric_inv X K as D (fabric_start K cfg (wire_of ws)) ws"
proof -
  have "delivered_at bs (\<lambda>a. map_option (node_new (cfg a)) (K a)) = {#}" if "set bs \<subseteq> dom K" for bs
    using that by (induction bs) (auto simp: delivered_at_def node_new_def)
  moreover have "nodes_ok K ws (\<lambda>a. map_option (node_new (cfg a)) (K a))"
    by (auto simp: nodes_ok_def node_new_def pool_ok_def option.map_comp comp_def option.map_ident)
  ultimately show ?thesis
    using assms by (simp add: fabric_inv_def fabric_start_def)
qed

section \<open>A sample fleet\<close>

text \<open>The addresses of the sample fleet.\<close>

definition sample_addresses :: "nat list \<Rightarrow> string list" where
  "sample_addresses ns = map (\<lambda>n. r_address (fst (sample_relay n))) ns"

lemma sample_addresses_dom: "set (sample_addresses ns) = dom (sample_keys ns)"
  unfolding sample_addresses_def sample_keys_def dom_map_of_conv_image_fst by force

lemma sample_addresses_distinct: "distinct ns \<Longrightarrow> distinct (sample_addresses ns)"
  by (simp add: sample_addresses_def distinct_map inj_on_def sample_address_inject)

definition sample_config :: "string \<Rightarrow> relay_config" where
  "sample_config a = \<lparr>listen_addr = \<lparr>sa_host = ''127.0.0.1'', sa_port = 9001\<rparr>, relay_id = a,
     static_secret_hex = None, max_connections = default_max_connections\<rparr>"

end
