(* ===== verification/Admission.thy ===== *)
theory Admission
  imports Fabric
begin

text \<open>
  The fabric with the connection limit of \<open>RelayNode::run\<close>. Every connection waits until its
  relay's accept loop takes it up, and is then served if a permit is free or refused otherwise; a
  client's connection, which the client drops after its frame, ends when its bytes are read and
  gives its permit back, while the connections of the relays' pools stay. The lemmas show that
  below the limit this is the fabric of \<open>Fabric\<close>, and that a refused connection is never read.
\<close>

section \<open>Definitions\<close>

datatype admission = Waiting | Served | Refused | Ended

text \<open>The first \<open>lf_clients\<close> connections are the clients'.\<close>

record limited_fabric =
  lf_fabric :: fabric
  lf_status :: "nat \<Rightarrow> admission"
  lf_clients :: nat

definition lf_update :: "limited_fabric \<Rightarrow> nat \<Rightarrow> admission \<Rightarrow> string \<Rightarrow> relay_node \<Rightarrow> (string \<times> bytes) list
    \<Rightarrow> limited_fabric" where
  "lf_update L h st a node wire =
     L\<lparr>lf_fabric := (lf_fabric L)\<lparr>f_nodes := (f_nodes (lf_fabric L))(a \<mapsto> node), f_wire := wire\<rparr>,
       lf_status := (lf_status L)(h := st)\<rparr>"

inductive limited_step :: "'r externals \<Rightarrow> limited_fabric \<Rightarrow> limited_fabric \<Rightarrow> bool" for X :: "'r externals" where
  admit: "h < length (f_wire (lf_fabric L)) \<Longrightarrow> f_wire (lf_fabric L) ! h = (a, s) \<Longrightarrow> lf_status L h = Waiting \<Longrightarrow>
    f_nodes (lf_fabric L) a = Some node \<Longrightarrow> accept_connection node = (ok, node') \<Longrightarrow>
    limited_step X L (lf_update L h (if ok then Served else Refused) a node' (f_wire (lf_fabric L)))"
| process: "h < length (f_wire (lf_fabric L)) \<Longrightarrow> f_wire (lf_fabric L) ! h = (a, s) \<Longrightarrow> lf_status L h = Served \<Longrightarrow>
    f_nodes (lf_fabric L) a = Some node \<Longrightarrow>
    connection_step X wire_net s (node, (f_wire (lf_fabric L))[h := (a, s')]) = (Continue s', node', wire') \<Longrightarrow>
    limited_step X L (lf_update L h Served a node' wire')"
| close: "h < lf_clients L \<Longrightarrow> h < length (f_wire (lf_fabric L)) \<Longrightarrow> f_wire (lf_fabric L) ! h = (a, s) \<Longrightarrow>
    lf_status L h = Served \<Longrightarrow> f_nodes (lf_fabric L) a = Some node \<Longrightarrow>
    connection_step X wire_net s (node, (f_wire (lf_fabric L))[h := (a, [])]) = (Finished res, node', wire') \<Longrightarrow>
    limited_step X L (lf_update L h Ended a (release_permit node') wire')"

inductive_cases limited_stepE: "limited_step X L M"

definition limited_start :: "(string \<Rightarrow> keypair option) \<Rightarrow> (string \<Rightarrow> relay_config) \<Rightarrow> (string \<times> bytes) list
    \<Rightarrow> limited_fabric" where
  "limited_start K cfg wire =
     \<lparr>lf_fabric = fabric_start K cfg wire, lf_status = (\<lambda>_. Waiting), lf_clients = length wire\<rparr>"

text \<open>Every relay's limit covers the clients' connections to it and one connection from every
  relay.\<close>

definition conns_to :: "(string \<times> bytes) list \<Rightarrow> string \<Rightarrow> nat set" where
  "conns_to wire a = {h. h < length wire \<and> fst (wire ! h) = a}"

definition within_limits :: "(string \<Rightarrow> relay_config) \<Rightarrow> string list \<Rightarrow> (string \<times> bytes) list \<Rightarrow> bool" where
  "within_limits cfg as wire \<longleftrightarrow>
     (\<forall>a \<in> set as. card (conns_to wire a) + length as \<le> max_connections (cfg a))"

lemma lf_update_simps [simp]:
  "f_nodes (lf_fabric (lf_update L h st a node wire)) = (f_nodes (lf_fabric L))(a \<mapsto> node)"
  "f_wire (lf_fabric (lf_update L h st a node wire)) = wire"
  "lf_status (lf_update L h st a node wire) = (lf_status L)(h := st)"
  "lf_clients (lf_update L h st a node wire) = lf_clients L"
  "lf_fabric (lf_update L h st a node wire) =
     (lf_fabric L)\<lparr>f_nodes := (f_nodes (lf_fabric L))(a \<mapsto> node), f_wire := wire\<rparr>"
  by (simp_all add: lf_update_def)

section \<open>What processing a frame does to pool and wire\<close>

lemma forward_wire_net:
  "forward wire_net hop b (node, w) =
     (case map_of (outbound node) hop of
        Some h \<Rightarrow> (Ok (), node, w[h := (fst (w ! h), snd (w ! h) @ write_frame b)])
      | None \<Rightarrow> (Ok (), node\<lparr>outbound := AList.update hop (length w) (outbound node)\<rparr>, w @ [(hop, write_frame b)]))"
proof -
  have "net_write_frame wire_net h b w = (Ok (), w[h := (fst (w ! h), snd (w ! h) @ write_frame b)])" for h w
    by (cases "h < length w") (simp_all add: net_write_frame_def then_st_def wire_net_def write_frame_def list_update_beyond)
  then show ?thesis
    by (simp add: forward_def get_or_connect_def then_st_def wire_net_def [THEN arg_cong [of _ _ net_connect]]
        split: option.split)
qed

text \<open>The connections and pools after a frame: the same, or one more connection, known to the pool
  of the relay that opened it.\<close>

definition wire_grows :: "(string \<times> bytes) list \<Rightarrow> connection_pool \<Rightarrow> (string \<times> bytes) list \<Rightarrow> connection_pool \<Rightarrow> bool" where
  "wire_grows w pool w' pool' \<longleftrightarrow>
     (map fst w' = map fst w \<and> pool' = pool \<and>
       (\<forall>h < length w. w' ! h \<noteq> w ! h \<longrightarrow> (\<exists>hop. map_of pool hop = Some h))) \<or>
     (\<exists>hop s. map_of pool hop = None \<and> w' = w @ [(hop, s)] \<and> pool' = AList.update hop (length w) pool)"

lemma process_frame_grows:
  assumes "process_frame X wire_net f (node, w) = (Ok (), node', w')"
  shows "wire_grows w (outbound node) w' (outbound node')" "permits node' = permits node"
    "node_config node' = node_config node" "connections_rejected (node_metrics node') = connections_rejected (node_metrics node)"
proof -
  have "wire_grows w (outbound node) w' (outbound node') \<and> permits node' = permits node \<and>
    node_config node' = node_config node \<and> connections_rejected (node_metrics node') = connections_rejected (node_metrics node)"
  proof (cases "peel_onion_layer X (node_keypair node) f")
    case (Ok p)
    show ?thesis
    proof (cases p)
      case (Forward hop b)
      have upd: "map fst (w[h := (fst (w ! h), x)]) = map fst w" for h x
        by (cases "h < length w") (simp_all add: map_update list_update_beyond list_update_same_conv)
      from Forward Ok assms show ?thesis
        by (auto simp: process_frame_def forward_wire_net then_st_def count_forwarded_def wire_grows_def upd
            split: option.splits) (metis nth_list_update_neq)
    next
      case (Deliver b)
      with Ok assms show ?thesis
        by (auto simp: process_frame_def count_delivered_def send_delivery_def wire_grows_def)
    qed
  qed (use assms in \<open>auto simp: process_frame_def count_failure_def wire_grows_def\<close>)
  then show "wire_grows w (outbound node) w' (outbound node')" "permits node' = permits node"
    "node_config node' = node_config node" "connections_rejected (node_metrics node') = connections_rejected (node_metrics node)"
    by simp_all
qed

lemma process_frame_wire_Ok: "\<exists>st'. process_frame X wire_net f st = (Ok (), st')"
proof -
  obtain node w where st: "st = (node, w)" by fastforce
  show ?thesis
    using peel_no_panic [of X "node_keypair node" f]
    by (auto simp: st process_frame_def forward_wire_net then_st_def split: outcome.split onion_payload.split option.split)
qed

lemma connection_step_Finished_wire:
  assumes "connection_step X wire_net s st = (Finished res, st')"
  shows "st' = st" "\<forall>f s'. read_frame s \<noteq> Ok (f, s')"
  using assms process_frame_wire_Ok [of X _ st]
  by (auto simp: connection_step_eq split: outcome.splits prod.splits) (metis outcome.distinct(1,3) prod.inject)+

section \<open>The invariant\<close>

definition statuses_ok :: "nat \<Rightarrow> (string \<times> bytes) list \<Rightarrow> (nat \<Rightarrow> admission) \<Rightarrow> bool" where
  "statuses_ok n w st \<longleftrightarrow> n \<le> length w \<and>
     (\<forall>h. st h \<noteq> Refused \<and> (st h \<noteq> Waiting \<longrightarrow> h < length w) \<and> (st h = Ended \<longrightarrow> h < n \<and> snd (w ! h) = []))"

definition served :: "(string \<times> bytes) list \<Rightarrow> (nat \<Rightarrow> admission) \<Rightarrow> string \<Rightarrow> nat set" where
  "served w st a = {h \<in> conns_to w a. st h = Served}"

text \<open>A permit per served connection.\<close>

definition permits_ok :: "(string \<Rightarrow> relay_config) \<Rightarrow> (string \<times> bytes) list \<Rightarrow> (nat \<Rightarrow> admission)
    \<Rightarrow> (string \<Rightarrow> relay_node option) \<Rightarrow> bool" where
  "permits_ok cfg w st nodes \<longleftrightarrow>
     (\<forall>a node. nodes a = Some node \<longrightarrow> permits node + card (served w st a) = max_connections (cfg a))"

text \<open>The connections that are no client's are the relays', each in the pool of the relay that
  opened it.\<close>

definition pools_known :: "nat \<Rightarrow> (string \<times> bytes) list \<Rightarrow> (string \<Rightarrow> relay_node option) \<Rightarrow> bool" where
  "pools_known n w nodes \<longleftrightarrow>
     (\<forall>b node hop h. nodes b = Some node \<longrightarrow> map_of (outbound node) hop = Some h \<longrightarrow> n \<le> h) \<and>
     (\<forall>h. n \<le> h \<longrightarrow> h < length w \<longrightarrow>
        (\<exists>b node. nodes b = Some node \<and> map_of (outbound node) (fst (w ! h)) = Some h))"

lemma conns_to_fst: "conns_to w a = {h. h < length w \<and> map fst w ! h = a}"
  by (auto simp: conns_to_def)

lemma card_conns_le: "card (conns_to w a) \<le> length w"
proof -
  have "card (conns_to w a) \<le> card {..<length w}" by (rule card_mono) (auto simp: conns_to_def)
  then show ?thesis by simp
qed

lemma finite_conns [simp]: "finite (conns_to w a)" "finite (served w st a)"
  by (simp_all add: conns_to_def served_def)

lemma conns_bounded:
  assumes "pools_known (length w0) w nodes" "dom nodes \<subseteq> set as"
    and "length w0 \<le> length w" "take (length w0) (map fst w) = map fst w0"
  shows "card (conns_to w a) \<le> card (conns_to w0 a) + length as"
proof -
  let ?late = "{h \<in> conns_to w a. length w0 \<le> h}"
  have "card ?late \<le> card (set as)"
  proof (rule card_le_if_inj_on_rel [where r = "\<lambda>h b. \<exists>node. nodes b = Some node \<and> map_of (outbound node) a = Some h"])
    fix h
    assume "h \<in> ?late"
    then show "\<exists>b. b \<in> set as \<and> (\<exists>node. nodes b = Some node \<and> map_of (outbound node) a = Some h)"
      using assms(1,2) unfolding pools_known_def conns_to_def by blast
  qed auto
  then have late: "card ?late \<le> length as" using card_length le_trans by blast
  have "map fst w ! h = map fst w0 ! h" if "h < length w0" for h
    using that assms(4) by (metis nth_take)
  then have "conns_to w a = conns_to w0 a \<union> ?late"
    using assms(3) by (auto simp: conns_to_fst simp del: nth_map) (metis not_less)
  then have "card (conns_to w a) \<le> card (conns_to w0 a) + card ?late"
    by (metis card_Un_le)
  with late show ?thesis by simp
qed

text \<open>Below the limit, a waiting connection is accepted.\<close>

lemma admitted_below_limit:
  assumes "permits_ok cfg w st nodes" "nodes a = Some node" "h < length w" "w ! h = (a, s)" "st h \<noteq> Served"
    and "card (conns_to w a) \<le> max_connections (cfg a)"
  shows "accept_connection node = (True, node\<lparr>permits := permits node - 1\<rparr>)" "0 < permits node"
proof -
  have "h \<in> conns_to w a" "h \<notin> served w st a" using assms(3-5) by (simp_all add: served_def conns_to_def)
  then have "served w st a \<subset> conns_to w a" unfolding served_def by blast
  from psubset_card_mono [OF finite_conns(1) this] have "card (served w st a) < card (conns_to w a)" .
  moreover have "permits node + card (served w st a) = max_connections (cfg a)"
    using assms(1,2) unfolding permits_ok_def by blast
  ultimately show "0 < permits node" using assms(6) by linarith
  then show "accept_connection node = (True, node\<lparr>permits := permits node - 1\<rparr>)"
    by (simp add: accept_connection_def)
qed

section \<open>Preservation\<close>

text \<open>Only permits and counters of a node change.\<close>

definition same_work :: "relay_node \<Rightarrow> relay_node \<Rightarrow> bool" where
  "same_work n m \<longleftrightarrow> node_keypair n = node_keypair m \<and> delivery_open n = delivery_open m \<and>
     outbound n = outbound m \<and> delivery n = delivery m"

lemma fabric_inv_same_work:
  assumes "distinct as" "fabric_inv X K as D S ws" "f_nodes S a = Some node" "same_work n node"
  shows "fabric_inv X K as D (S\<lparr>f_nodes := (f_nodes S)(a \<mapsto> n), f_wire := f_wire S\<rparr>) ws"
proof -
  have "delivered_at as ((f_nodes S)(a \<mapsto> n)) = delivered_at as (f_nodes S)"
    using assms(3,4) by (intro delivered_at_same [OF assms(1)]) (simp add: same_work_def)
  moreover have "nodes_ok K ws ((f_nodes S)(a \<mapsto> n))"
  proof (rule nodes_ok_update)
    show "nodes_ok K ws (f_nodes S)" using assms(2) by (simp add: fabric_inv_def)
    then have "map_option node_keypair (f_nodes S a) = K a" "delivery_open node \<and> pool_ok ws (outbound node)"
      using assms(3) unfolding nodes_ok_def by blast+
    with assms(3,4) show "K a = Some (node_keypair n)" "delivery_open n" "pool_ok ws (outbound n)"
      by (simp_all add: same_work_def)
  qed (simp add: same_targets_def)
  ultimately show ?thesis using assms(2) by (simp add: fabric_inv_def)
qed

lemma pools_known_same_work:
  assumes "pools_known n w nodes" "nodes a = Some node" "outbound m = outbound node"
  shows "pools_known n w (nodes(a \<mapsto> m))"
proof -
  have old: "\<exists>k. (nodes(a \<mapsto> m)) b = Some k \<and> outbound k = outbound x" if "nodes b = Some x" for b x
    using that assms(2,3) by (cases "b = a") auto
  have new: "\<exists>k. nodes b = Some k \<and> outbound k = outbound x" if "(nodes(a \<mapsto> m)) b = Some x" for b x
    using that assms(2,3) by (cases "b = a") auto
  show ?thesis
    unfolding pools_known_def
  proof (intro conjI allI impI)
    show "n \<le> h" if "(nodes(a \<mapsto> m)) b = Some x" "map_of (outbound x) hop = Some h" for b x hop h
      using new [OF that(1)] that(2) assms(1) unfolding pools_known_def by metis
    show "\<exists>b x. (nodes(a \<mapsto> m)) b = Some x \<and> map_of (outbound x) (fst (w ! h)) = Some h"
      if "n \<le> h" "h < length w" for h
      using that assms(1) old unfolding pools_known_def by metis
  qed
qed

lemma served_upd_other: "h < length w \<Longrightarrow> fst (w ! h) \<noteq> b \<Longrightarrow> served w (st(h := x)) b = served w st b"
  by (auto simp: served_def conns_to_def)

lemma permits_ok_upd:
  assumes "permits_ok cfg w st nodes" "h < length w" "fst (w ! h) = a"
    and "permits m + card (served w (st(h := x)) a) = max_connections (cfg a)"
  shows "permits_ok cfg w (st(h := x)) (nodes(a \<mapsto> m))"
  using assms served_upd_other [OF assms(2), of _ st x] by (auto simp: permits_ok_def)

lemma permits_ok_admit:
  assumes "permits_ok cfg w st nodes" "nodes a = Some node" "h < length w" "fst (w ! h) = a" "st h = Waiting"
    and "0 < permits node"
  shows "permits_ok cfg w (st(h := Served)) (nodes(a \<mapsto> node\<lparr>permits := permits node - 1\<rparr>))"
proof (rule permits_ok_upd [OF assms(1,3,4)])
  have "served w (st(h := Served)) a = insert h (served w st a)" "h \<notin> served w st a"
    using assms(3-5) by (auto simp: served_def conns_to_def)
  with assms(1,2,6) show "permits (node\<lparr>permits := permits node - 1\<rparr>) + card (served w (st(h := Served)) a) =
      max_connections (cfg a)"
    unfolding permits_ok_def by fastforce
qed

lemma permits_ok_close:
  assumes "permits_ok cfg w st nodes" "nodes a = Some node" "h < length w" "fst (w ! h) = a" "st h = Served"
  shows "permits_ok cfg w (st(h := Ended)) (nodes(a \<mapsto> release_permit node))"
proof (rule permits_ok_upd [OF assms(1,3,4)])
  have "served w st a = insert h (served w (st(h := Ended)) a)" "h \<notin> served w (st(h := Ended)) a"
    using assms(3-5) by (auto simp: served_def conns_to_def)
  then have "card (served w st a) = Suc (card (served w (st(h := Ended)) a))" by simp
  with assms(1,2) show "permits (release_permit node) + card (served w (st(h := Ended)) a) = max_connections (cfg a)"
    unfolding permits_ok_def release_permit_def by fastforce
qed

text \<open>Processing a frame.\<close>

lemma wire_grows_length: "wire_grows w pool w' pool' \<Longrightarrow> length w \<le> length w' \<and> length w' \<le> Suc (length w)"
  unfolding wire_grows_def by (auto dest!: arg_cong [of _ _ length])

lemma wire_grows_fst: "wire_grows w pool w' pool' \<Longrightarrow> h < length w \<Longrightarrow> map fst w' ! h = map fst w ! h"
  unfolding wire_grows_def by (auto simp: nth_append)

lemma served_grows:
  assumes "wire_grows w pool w' pool'" "statuses_ok n w st"
  shows "served w' st a = served w st a"
proof -
  have "h < length w" if "st h = Served" for h using assms(2) that by (auto simp: statuses_ok_def)
  moreover from this have "h < length w'" if "st h = Served" for h
    using that wire_grows_length [OF assms(1)] by (meson order_less_le_trans)
  ultimately show ?thesis
    using wire_grows_fst [OF assms(1)] by (auto simp: served_def conns_to_fst simp del: nth_map)
qed

lemma statuses_grow:
  assumes grows: "wire_grows w pool w' pool'" and st: "statuses_ok n w st"
    and pool: "\<And>hop h. map_of pool hop = Some h \<Longrightarrow> n \<le> h"
  shows "statuses_ok n w' st"
proof -
  have "w' ! h = w ! h" if "h < n" for h
    using grows that st pool unfolding wire_grows_def statuses_ok_def by (auto simp: nth_append) (meson leD order_less_le_trans)
  with st wire_grows_length [OF grows] show ?thesis unfolding statuses_ok_def
    by (metis le_trans order_less_le_trans)
qed

lemma pools_known_grows:
  assumes grows: "wire_grows w (outbound node) w' (outbound node')" and pools: "pools_known n w nodes"
    and node: "nodes a = Some node" and n: "n \<le> length w"
  shows "pools_known n w' (nodes(a \<mapsto> node'))"
  using grows unfolding wire_grows_def
proof (elim disjE exE conjE)
  assume same: "map fst w' = map fst w" "outbound node' = outbound node"
  from same(1) have "length w' = length w" "h < length w \<Longrightarrow> fst (w' ! h) = fst (w ! h)" for h
    by (metis length_map, metis length_map nth_map)
  then have "pools_known n w' nodes" using pools unfolding pools_known_def by simp
  with pools_known_same_work node same(2) show ?thesis by blast
next
  fix hop s
  assume new: "map_of (outbound node) hop = None" "w' = w @ [(hop, s)]"
    "outbound node' = AList.update hop (length w) (outbound node)"
  then have upd: "map_of (outbound node') = (map_of (outbound node))(hop \<mapsto> length w)" by (simp add: update_conv')
  have "\<exists>b m. (nodes(a \<mapsto> node')) b = Some m \<and> map_of (outbound m) (fst (w' ! h)) = Some h"
    if h: "n \<le> h" "h < length w'" for h
  proof (cases "h = length w")
    case True
    then show ?thesis using new(2) upd by (intro exI [of _ a] exI [of _ node']) simp
  next
    case False
    with h new(2) have "h < length w" "fst (w' ! h) = fst (w ! h)" by (simp_all add: nth_append)
    with pools h(1) obtain b m where b: "nodes b = Some m" "map_of (outbound m) (fst (w' ! h)) = Some h"
      unfolding pools_known_def by auto
    show ?thesis
    proof (cases "b = a")
      case True
      with b node new(1) upd show ?thesis by (intro exI [of _ a] exI [of _ node']) auto
    next
      case False
      with b show ?thesis by (intro exI [of _ b] exI [of _ m]) simp
    qed
  qed
  moreover have "n \<le> h" if "(nodes(a \<mapsto> node')) b = Some m" "map_of (outbound m) k = Some h" for b m k h
    using that pools node n upd unfolding pools_known_def by (cases "b = a"; cases "k = hop") auto
  ultimately show ?thesis unfolding pools_known_def by blast
qed

section \<open>Runs below the limit\<close>

definition limited_inv :: "'r externals \<Rightarrow> (string \<Rightarrow> keypair option) \<Rightarrow> (string \<Rightarrow> relay_config) \<Rightarrow> string list
    \<Rightarrow> (string \<times> bytes) list \<Rightarrow> (string \<times> bytes) multiset \<Rightarrow> limited_fabric \<Rightarrow> wire_frames \<Rightarrow> bool" where
  "limited_inv X K cfg as w0 D L ws \<longleftrightarrow>
     fabric_inv X K as D (lf_fabric L) ws \<and> lf_clients L = length w0 \<and>
     take (length w0) (map fst (f_wire (lf_fabric L))) = map fst w0 \<and>
     statuses_ok (length w0) (f_wire (lf_fabric L)) (lf_status L) \<and>
     permits_ok cfg (f_wire (lf_fabric L)) (lf_status L) (f_nodes (lf_fabric L)) \<and>
     pools_known (length w0) (f_wire (lf_fabric L)) (f_nodes (lf_fabric L))"

fun weight :: "admission \<Rightarrow> nat" where
  "weight Waiting = 2"
| "weight Served = 1"
| "weight _ = 0"

definition limited_size :: "limited_fabric \<Rightarrow> wire_frames \<Rightarrow> nat" where
  "limited_size L ws = 3 * wire_size ws + (\<Sum>h < length (f_wire (lf_fabric L)). weight (lf_status L h))"

lemma weight_upd:
  assumes "h < (n :: nat)" "weight x < weight (st h)"
  shows "(\<Sum>i < n. weight ((st(h := x)) i)) < (\<Sum>i < n. weight (st i))"
  using assms by (intro sum_strict_mono_ex1) auto

lemma dom_nodes: "nodes_ok K ws nodes \<Longrightarrow> dom nodes = dom K"
proof -
  assume "nodes_ok K ws nodes"
  then have "K = (\<lambda>a. map_option node_keypair (nodes a))" unfolding nodes_ok_def by auto
  then show ?thesis by (auto simp: dom_def)
qed

lemma limited_admit_inv:
  assumes as: "distinct as" "set as = dom K" and lim: "within_limits cfg as w0"
    and inv: "limited_inv X K cfg as w0 D L ws"
    and h: "h < length (f_wire (lf_fabric L))" "f_wire (lf_fabric L) ! h = (a, s)" "lf_status L h = Waiting"
    and node: "f_nodes (lf_fabric L) a = Some node"
  shows "accept_connection node = (True, node\<lparr>permits := permits node - 1\<rparr>)"
    "limited_inv X K cfg as w0 D
       (lf_update L h Served a (node\<lparr>permits := permits node - 1\<rparr>) (f_wire (lf_fabric L))) ws"
proof -
  let ?w = "f_wire (lf_fabric L)" and ?st = "lf_status L" and ?nodes = "f_nodes (lf_fabric L)"
  have i: "fabric_inv X K as D (lf_fabric L) ws" "lf_clients L = length w0"
      "take (length w0) (map fst ?w) = map fst w0" "statuses_ok (length w0) ?w ?st"
      "permits_ok cfg ?w ?st ?nodes" "pools_known (length w0) ?w ?nodes"
    using inv by (simp_all add: limited_inv_def)
  have dom: "dom ?nodes = set as" using i(1) dom_nodes [of K ws ?nodes] as(2) by (simp add: fabric_inv_def)
  have "length w0 \<le> length ?w" using i(4) by (simp add: statuses_ok_def)
  with conns_bounded [OF i(6) _ _ i(3), of as a] dom have "card (conns_to ?w a) \<le> card (conns_to w0 a) + length as"
    by simp
  moreover have "a \<in> set as" using dom node by auto
  ultimately have "card (conns_to ?w a) \<le> max_connections (cfg a)"
    using lim unfolding within_limits_def by fastforce
  from admitted_below_limit [OF i(5) node h(1,2) _ this] h(3)
  show "accept_connection node = (True, node\<lparr>permits := permits node - 1\<rparr>)" by simp
  from admitted_below_limit(2) [OF i(5) node h(1,2) _ \<open>card _ \<le> max_connections _\<close>] h(3)
  have pos: "0 < permits node" by simp
  have "statuses_ok (length w0) ?w (?st(h := Served))"
    using i(4) h(1) by (auto simp: statuses_ok_def)
  moreover have "permits_ok cfg ?w (?st(h := Served)) (?nodes(a \<mapsto> node\<lparr>permits := permits node - 1\<rparr>))"
    using permits_ok_admit [OF i(5) node h(1) _ h(3) pos] h(2) by simp
  moreover have "pools_known (length w0) ?w (?nodes(a \<mapsto> node\<lparr>permits := permits node - 1\<rparr>))"
    by (rule pools_known_same_work [OF i(6) node]) simp
  ultimately show "limited_inv X K cfg as w0 D
       (lf_update L h Served a (node\<lparr>permits := permits node - 1\<rparr>) ?w) ws"
    using i(2,3) fabric_inv_same_work [OF as(1) i(1) node]
    by (simp add: limited_inv_def same_work_def)
qed

text \<open>What a processed frame does to the bookkeeping around the fabric: the wire grows by at most one
  connection of the relay's own.\<close>

lemma bookkeeping_grows:
  assumes grows: "wire_grows u (outbound node) wire' (outbound node')" "permits node' = permits node" and u: "map fst u = map fst w"
    and inv: "statuses_ok n u st" "permits_ok cfg w st nodes" "pools_known n u nodes" "take n (map fst w) = cs"
    and node: "nodes a = Some node"
  shows "statuses_ok n wire' st" "permits_ok cfg wire' st (nodes(a \<mapsto> node'))"
    "pools_known n wire' (nodes(a \<mapsto> node'))" "take n (map fst wire') = cs"
    "(\<Sum>g < length wire'. weight (st g)) \<le> (\<Sum>g < length w. weight (st g)) + 2"
proof -
  have n: "n \<le> length u" "length u = length w"
    using inv(1) arg_cong [OF u, of length] by (simp_all add: statuses_ok_def)
  show "statuses_ok n wire' st"
    using statuses_grow [OF grows(1) inv(1)] inv(3) node unfolding pools_known_def by blast
  have "served u st b = served w st b" for b by (simp add: served_def conns_to_fst u n(2) del: nth_map)
  then show "permits_ok cfg wire' st (nodes(a \<mapsto> node'))"
    using inv(2) node grows(2) served_grows [OF grows(1) inv(1)] by (auto simp: permits_ok_def)
  show "pools_known n wire' (nodes(a \<mapsto> node'))"
    using pools_known_grows [OF grows(1) inv(3) node] n by simp
  have "take n (map fst wire') = take n (map fst u)"
    using n wire_grows_length [OF grows(1)] wire_grows_fst [OF grows(1)]
    by (intro nth_take_lemma) (simp_all del: nth_map)
  with inv(4) u show "take n (map fst wire') = cs" by simp
  have "length wire' = length w \<or> length wire' = Suc (length w)"
    using wire_grows_length [OF grows(1)] n(2) by auto
  moreover have "weight x \<le> 2" for x by (cases x) simp_all
  ultimately show "(\<Sum>g < length wire'. weight (st g)) \<le> (\<Sum>g < length w. weight (st g)) + 2" by auto
qed

lemma limited_process_inv:
  assumes laws: "hkdf_ok X" "aead_ok X" and as: "distinct as" "set as = dom K"
    and inv: "limited_inv X K cfg as w0 D L ws"
    and h: "h < length (f_wire (lf_fabric L))" "f_wire (lf_fabric L) ! h = (a, s)" "lf_status L h = Served"
    and node: "f_nodes (lf_fabric L) a = Some node"
    and step: "connection_step X wire_net s (node, (f_wire (lf_fabric L))[h := (a, s')]) = (Continue s', node', wire')"
  shows "\<exists>ws'. limited_inv X K cfg as w0 D (lf_update L h Served a node' wire') ws' \<and>
    limited_size (lf_update L h Served a node' wire') ws' < limited_size L ws"
proof -
  let ?w = "f_wire (lf_fabric L)" and ?st = "lf_status L" and ?nodes = "f_nodes (lf_fabric L)"
  let ?w1 = "?w[h := (a, s')]" and ?L = "lf_update L h Served a node' wire'"
  have i: "fabric_inv X K as D (lf_fabric L) ws" "lf_clients L = length w0"
      "take (length w0) (map fst ?w) = map fst w0" "statuses_ok (length w0) ?w ?st"
      "permits_ok cfg ?w ?st ?nodes" "pools_known (length w0) ?w ?nodes"
    using inv by (simp_all add: limited_inv_def)
  have cover: "K a \<noteq> None \<Longrightarrow> a \<in> set as" for a using as(2) by auto
  have "fabric_step X (lf_fabric L) (lf_fabric ?L)"
    using fabric_step.process [OF h(1,2) node step] by simp
  from fabric_inv_step [OF laws as(1) cover this i(1)] obtain ws' where
      ws': "fabric_inv X K as D (lf_fabric ?L) ws'" "wire_size ws' < wire_size ws" by blast
  from step obtain f where "process_frame X wire_net f (node, ?w1) = (Ok (), node', wire')"
    unfolding connection_step_Continue_iff by blast
  note grows = process_frame_grows [OF this]
  have fst1: "map fst ?w1 = map fst ?w" using h(2) by (simp add: map_update list_update_same_conv h(1))
  have st: "?st(h := Served) = ?st" using h(3) by auto
  have st1: "statuses_ok (length w0) ?w1 ?st"
    using i(4) h(3) by (auto simp: statuses_ok_def nth_list_update)
  have pools1: "pools_known (length w0) ?w1 ?nodes"
  proof -
    have "fst (?w1 ! g) = fst (?w ! g)" for g using h(1,2) by (cases "g = h") simp_all
    with i(6) show ?thesis by (simp add: pools_known_def)
  qed
  note kept = bookkeeping_grows [OF grows(1,2) fst1 st1 i(5) pools1 i(3) node]
  then have "limited_inv X K cfg as w0 D ?L ws'"
    using i(2) ws'(1) st by (simp add: limited_inv_def)
  with kept(5) show ?thesis using ws'(2) st by (intro exI [of _ ws']) (simp add: limited_size_def)
qed

lemma limited_close_inv:
  assumes as: "distinct as"
    and inv: "limited_inv X K cfg as w0 D L ws" and client: "h < lf_clients L"
    and h: "h < length (f_wire (lf_fabric L))" "f_wire (lf_fabric L) ! h = (a, s)" "lf_status L h = Served"
    and node: "f_nodes (lf_fabric L) a = Some node"
    and step: "connection_step X wire_net s (node, (f_wire (lf_fabric L))[h := (a, [])]) = (Finished res, node', wire')"
  shows "limited_inv X K cfg as w0 D (lf_update L h Ended a (release_permit node') wire') ws"
    "limited_size (lf_update L h Ended a (release_permit node') wire') ws < limited_size L ws"
proof -
  let ?w = "f_wire (lf_fabric L)" and ?st = "lf_status L" and ?nodes = "f_nodes (lf_fabric L)"
  have i: "fabric_inv X K as D (lf_fabric L) ws" "lf_clients L = length w0"
      "take (length w0) (map fst ?w) = map fst w0" "statuses_ok (length w0) ?w ?st"
      "permits_ok cfg ?w ?st ?nodes" "pools_known (length w0) ?w ?nodes"
    using inv by (simp_all add: limited_inv_def)
  have w: "?w = wire_of ws" "frames_small ws" using i(1) by (simp_all add: fabric_inv_def)
  have hws: "h < length ws" using h(1) w(1) by simp
  have s: "s = concat (map write_frame (snd (ws ! h)))" using h(2) hws by (simp add: w(1) wire_of_nth)
  have "snd (ws ! h) = []"
  proof (cases "snd (ws ! h)")
    case (Cons f fs)
    then have "length f < 4294967296" using w(2) nth_mem [OF hws] unfolding frames_small_def by fastforce
    with Cons s have "read_frame s = Ok (f, concat (map write_frame fs))" by (simp add: read_write_frame)
    with connection_step_Finished_wire(2) [OF step] show ?thesis by simp
  qed
  then have s0: "s = []" using s by simp
  then have wire': "wire' = ?w" "node' = node"
    using connection_step_Finished_wire(1) [OF step] h(2) list_update_id [of ?w h] by auto
  have "statuses_ok (length w0) ?w (?st(h := Ended))"
    using i(4) h(1,2) client i(2) s0 by (auto simp: statuses_ok_def)
  moreover have "permits_ok cfg ?w (?st(h := Ended)) (?nodes(a \<mapsto> release_permit node))"
    using permits_ok_close [OF i(5) node h(1) _ h(3)] h(2) by simp
  moreover have "pools_known (length w0) ?w (?nodes(a \<mapsto> release_permit node))"
    by (rule pools_known_same_work [OF i(6) node]) (simp add: release_permit_def)
  ultimately show "limited_inv X K cfg as w0 D (lf_update L h Ended a (release_permit node') wire') ws"
    using i(2,3) fabric_inv_same_work [OF as i(1) node]
    by (simp add: limited_inv_def same_work_def release_permit_def wire')
  show "limited_size (lf_update L h Ended a (release_permit node') wire') ws < limited_size L ws"
    using weight_upd [of h "length ?w" Ended ?st] h(1,3) by (simp add: limited_size_def wire')
qed

lemma limited_inv_step:
  assumes laws: "hkdf_ok X" "aead_ok X" and as: "distinct as" "set as = dom K" and lim: "within_limits cfg as w0"
    and step: "limited_step X L M" and inv: "limited_inv X K cfg as w0 D L ws"
  shows "\<exists>ws'. limited_inv X K cfg as w0 D M ws' \<and> limited_size M ws' < limited_size L ws"
  using step
proof (rule limited_stepE)
  fix h a s node ok node'
  assume M: "M = lf_update L h (if ok then Served else Refused) a node' (f_wire (lf_fabric L))"
    and h: "h < length (f_wire (lf_fabric L))" "f_wire (lf_fabric L) ! h = (a, s)" "lf_status L h = Waiting"
    and node: "f_nodes (lf_fabric L) a = Some node" and acc: "accept_connection node = (ok, node')"
  note ok = limited_admit_inv [OF as lim inv h node]
  have "limited_size M ws < limited_size L ws"
    using weight_upd [of h "length (f_wire (lf_fabric L))" Served "lf_status L"] h(1,3) ok(1) acc M
    by (simp add: limited_size_def)
  with ok acc M show ?thesis by auto
next
  fix h a s node s' node' wire'
  assume M: "M = lf_update L h Served a node' wire'"
    and h: "h < length (f_wire (lf_fabric L))" "f_wire (lf_fabric L) ! h = (a, s)" "lf_status L h = Served"
    and node: "f_nodes (lf_fabric L) a = Some node"
    and cs: "connection_step X wire_net s (node, (f_wire (lf_fabric L))[h := (a, s')]) = (Continue s', node', wire')"
  from limited_process_inv [OF laws as inv h node cs] M show ?thesis by blast
next
  fix h a s node res node' wire'
  assume M: "M = lf_update L h Ended a (release_permit node') wire'" and client: "h < lf_clients L"
    and h: "h < length (f_wire (lf_fabric L))" "f_wire (lf_fabric L) ! h = (a, s)" "lf_status L h = Served"
    and node: "f_nodes (lf_fabric L) a = Some node"
    and cs: "connection_step X wire_net s (node, (f_wire (lf_fabric L))[h := (a, [])]) = (Finished res, node', wire')"
  from limited_close_inv [OF as(1) inv client h node cs] M show ?thesis by blast
qed

lemma limited_inv_run:
  assumes laws: "hkdf_ok X" "aead_ok X" and as: "distinct as" "set as = dom K" and lim: "within_limits cfg as w0"
    and run: "(limited_step X ^^ n) L M" and inv: "limited_inv X K cfg as w0 D L ws"
  shows "\<exists>ws'. limited_inv X K cfg as w0 D M ws' \<and> n + limited_size M ws' \<le> limited_size L ws"
  using run
proof (induction n arbitrary: M)
  case 0
  with inv show ?case by auto
next
  case (Suc n)
  then obtain U where U: "(limited_step X ^^ n) L U" "limited_step X U M" by auto
  from Suc.IH [OF U(1)] obtain ws1 where w1: "limited_inv X K cfg as w0 D U ws1"
      "n + limited_size U ws1 \<le> limited_size L ws" by blast
  from limited_inv_step [OF laws as lim U(2) w1(1)] obtain ws2 where
      "limited_inv X K cfg as w0 D M ws2" "limited_size M ws2 < limited_size U ws1" by blast
  with w1(2) show ?case by (intro exI [of _ ws2]) simp
qed

section \<open>The end of a run\<close>

definition quiescent :: "'r externals \<Rightarrow> limited_fabric \<Rightarrow> bool" where
  "quiescent X L \<longleftrightarrow> (\<forall>M. \<not> limited_step X L M)"

lemma limited_progress:
  assumes laws: "hkdf_ok X" "aead_ok X" and as: "distinct as" "set as = dom K"
    and inv: "limited_inv X K cfg as w0 D L ws" and ne: "on_wire ws \<noteq> {#}"
  shows "\<exists>M. limited_step X L M"
proof -
  let ?w = "f_wire (lf_fabric L)"
  have i: "fabric_inv X K as D (lf_fabric L) ws" "statuses_ok (length w0) ?w (lf_status L)"
    using inv by (simp_all add: limited_inv_def)
  have cover: "K a \<noteq> None \<Longrightarrow> a \<in> set as" for a using as(2) by auto
  obtain h a f fs where h: "h < length ws" "ws ! h = (a, f # fs)" using on_wire_nonempty [OF ne] by blast
  obtain s s' node node' wire' where p: "?w ! h = (a, s)" "f_nodes (lf_fabric L) a = Some node"
      "connection_step X wire_net s (node, ?w[h := (a, s')]) = (Continue s', node', wire')"
    using fabric_can_process [OF laws as(1) cover i(1) h] by blast
  have hw: "h < length ?w" using h(1) i(1) by (simp add: fabric_inv_def)
  have "s \<noteq> []" using connection_step_shorter [OF p(3)] by auto
  then have "lf_status L h \<noteq> Refused" "lf_status L h \<noteq> Ended" using i(2) p(1) by (auto simp: statuses_ok_def)
  then consider "lf_status L h = Waiting" | "lf_status L h = Served" by (cases "lf_status L h") auto
  then show ?thesis
  proof cases
    case 1
    obtain ok node1 where "accept_connection node = (ok, node1)" by fastforce
    from limited_step.admit [OF hw p(1) 1 p(2) this] show ?thesis by blast
  next
    case 2
    from limited_step.process [OF hw p(1) 2 p(2,3)] show ?thesis by blast
  qed
qed

lemma quiescent_delivered:
  assumes "hkdf_ok X" "aead_ok X" "distinct as" "set as = dom K"
    and "limited_inv X K cfg as w0 D L ws" "quiescent X L"
  shows "delivered_at as (f_nodes (lf_fabric L)) = D"
proof -
  have "on_wire ws = {#}"
    using limited_progress [OF assms(1-5)] assms(6) unfolding quiescent_def by blast
  then show ?thesis using assms(5) by (auto simp: limited_inv_def fabric_inv_def)
qed

lemma limited_inv_start:
  assumes "rel_mset (reaches X K) (on_wire ws) D" "frames_small ws" "set as = dom K"
  shows "limited_inv X K cfg as (wire_of ws) D (limited_start K cfg (wire_of ws)) ws"
    "limited_size (limited_start K cfg (wire_of ws)) ws = 3 * wire_size ws + 2 * length ws"
  using fabric_inv_start [OF assms, of cfg]
  by (auto simp: limited_inv_def limited_start_def limited_size_def fabric_start_def statuses_ok_def permits_ok_def
      served_def pools_known_def node_new_def)

lemma limited_runs_out:
  assumes "hkdf_ok X" "aead_ok X" "distinct as" "set as = dom K" "within_limits cfg as w0"
    and "limited_inv X K cfg as w0 D L ws"
  shows "\<exists>M. (limited_step X)\<^sup>*\<^sup>* L M \<and> quiescent X M"
  using assms(6)
proof (induction "limited_size L ws" arbitrary: L ws rule: less_induct)
  case less
  show ?case
  proof (cases "quiescent X L")
    case False
    then obtain U where U: "limited_step X L U" unfolding quiescent_def by blast
    from limited_inv_step [OF assms(1-5) U less.prems] obtain ws' where
        "limited_inv X K cfg as w0 D U ws'" "limited_size U ws' < limited_size L ws" by blast
    from less.hyps [OF this(2) this(1)] U show ?thesis by (meson converse_rtranclp_into_rtranclp)
  qed blast
qed

lemma run_delivers:
  assumes "hkdf_ok X" "aead_ok X" "distinct as" "set as = dom K" "within_limits cfg as w0"
    and "limited_inv X K cfg as w0 D L ws" "(limited_step X)\<^sup>*\<^sup>* L M" "quiescent X M"
  shows "delivered_at as (f_nodes (lf_fabric M)) = D"
proof -
  obtain m where "(limited_step X ^^ m) L M" using rtranclp_imp_relpowp [OF assms(7)] by blast
  from limited_inv_run [OF assms(1-5) this assms(6)] quiescent_delivered [OF assms(1-4) _ assms(8)]
  show ?thesis by blast
qed

section \<open>Beyond the limit\<close>

definition pools_late :: "nat \<Rightarrow> limited_fabric \<Rightarrow> bool" where
  "pools_late n L \<longleftrightarrow> n \<le> length (f_wire (lf_fabric L)) \<and>
     (\<forall>b node hop h. f_nodes (lf_fabric L) b = Some node \<longrightarrow> map_of (outbound node) hop = Some h \<longrightarrow> n \<le> h)"

text \<open>A refused client connection stays refused, and what is on it stays unread.\<close>

definition refused_with :: "nat \<Rightarrow> string \<times> bytes \<Rightarrow> limited_fabric \<Rightarrow> bool" where
  "refused_with h x L \<longleftrightarrow> h < lf_clients L \<and> pools_late (lf_clients L) L \<and> lf_status L h = Refused \<and>
     f_wire (lf_fabric L) ! h = x"

lemma pools_late_upd:
  assumes "pools_late n L" "n \<le> length w" "\<And>hop h. map_of (outbound m) hop = Some h \<Longrightarrow> n \<le> h"
  shows "pools_late n (lf_update L g st a m w)"
  using assms unfolding pools_late_def by auto

lemma refused_step:
  assumes "limited_step X L M" "refused_with h x L"
  shows "refused_with h x M"
proof -
  let ?w = "f_wire (lf_fabric L)"
  have r: "h < lf_clients L" "lf_clients L \<le> length ?w" "lf_status L h = Refused" "?w ! h = x"
      "pools_late (lf_clients L) L"
    using assms(2) by (simp_all add: refused_with_def pools_late_def)
  have pool: "lf_clients L \<le> g" if "f_nodes (lf_fabric L) b = Some node" "map_of (outbound node) hop = Some g"
    for b node hop g
    using r(5) that unfolding pools_late_def by blast
  from assms(1) show ?thesis
  proof (rule limited_stepE)
    fix g a s node ok node'
    assume M: "M = lf_update L g (if ok then Served else Refused) a node' ?w"
      and g: "lf_status L g = Waiting" "f_nodes (lf_fabric L) a = Some node" "accept_connection node = (ok, node')"
    then have "outbound node' = outbound node" by (auto simp: accept_connection_def count_rejected_def split: if_splits)
    then have "pools_late (lf_clients L) M" unfolding M using r(2) pool [OF g(2)] by (intro pools_late_upd [OF r(5)]) auto
    with M g(1) r show ?thesis by (auto simp: refused_with_def)
  next
    fix g a s node s' node' wire'
    assume M: "M = lf_update L g Served a node' wire'" and g: "lf_status L g = Served" "f_nodes (lf_fabric L) a = Some node"
      and cs: "connection_step X wire_net s (node, ?w[g := (a, s')]) = (Continue s', node', wire')"
    from cs obtain f where "process_frame X wire_net f (node, ?w[g := (a, s')]) = (Ok (), node', wire')"
      unfolding connection_step_Continue_iff by blast
    note grows = process_frame_grows(1) [OF this]
    have ne: "g \<noteq> h" using g(1) r(3) by auto
    have "wire' ! h = ?w[g := (a, s')] ! h"
      using grows r(1,2) pool [OF g(2)] unfolding wire_grows_def
      by (auto simp: nth_append) (meson leD order_less_le_trans)
    then have x: "wire' ! h = x" using ne r(4) by simp
    have "lf_clients L \<le> k" if "map_of (outbound node') hop = Some k" for hop k
      using grows that pool [OF g(2)] r(2) unfolding wire_grows_def
      by (auto simp: update_conv' split: if_splits)
    then have "pools_late (lf_clients L) M"
      unfolding M using r(2) wire_grows_length [OF grows] by (intro pools_late_upd [OF r(5)]) auto
    with M x ne r show ?thesis by (auto simp: refused_with_def)
  next
    fix g a s node res node' wire'
    assume M: "M = lf_update L g Ended a (release_permit node') wire'" and g: "lf_status L g = Served" "f_nodes (lf_fabric L) a = Some node"
      and cs: "connection_step X wire_net s (node, ?w[g := (a, [])]) = (Finished res, node', wire')"
    have w: "wire' = ?w[g := (a, [])]" "node' = node" using connection_step_Finished_wire(1) [OF cs] by simp_all
    have "pools_late (lf_clients L) M"
      unfolding M w using r(2) pool [OF g(2)] by (intro pools_late_upd [OF r(5)]) (auto simp: release_permit_def)
    with M w g(1) r show ?thesis by (auto simp: refused_with_def)
  qed
qed

interpretation refused_runs: step_invariant "limited_step X" "refused_with h x" for X h x
  by unfold_locales (rule refused_step)

text \<open>The accept loop takes up waiting connections as long as permits last.\<close>

lemma admit_many:
  assumes "f_nodes (lf_fabric L) a = Some node" "set hs \<subseteq> conns_to (f_wire (lf_fabric L)) a" "distinct hs"
    and "\<forall>h \<in> set hs. lf_status L h = Waiting" "length hs \<le> permits node"
  shows "\<exists>M. (limited_step X)\<^sup>*\<^sup>* L M \<and> f_nodes (lf_fabric M) = (f_nodes (lf_fabric L))(a \<mapsto> node\<lparr>permits := permits node - length hs\<rparr>) \<and>
    f_wire (lf_fabric M) = f_wire (lf_fabric L) \<and> lf_clients M = lf_clients L \<and>
    lf_status M = (\<lambda>h. if h \<in> set hs then Served else lf_status L h)"
  using assms
proof (induction hs arbitrary: L node)
  case Nil
  then show ?case by (intro exI [of _ L]) (auto simp: fun_upd_idem)
next
  case (Cons h hs)
  let ?w = "f_wire (lf_fabric L)" and ?node = "node\<lparr>permits := permits node - 1\<rparr>"
  let ?L = "lf_update L h Served a ?node ?w"
  obtain s where h: "h < length ?w" "?w ! h = (a, s)" using Cons.prems(2) by (cases "?w ! h") (auto simp: conns_to_def)
  have step: "limited_step X L ?L"
    using limited_step.admit [OF h _ Cons.prems(1), of True ?node] Cons.prems(4,5) by (simp add: accept_connection_def)
  have "\<exists>M. (limited_step X)\<^sup>*\<^sup>* ?L M \<and> f_nodes (lf_fabric M) = (f_nodes (lf_fabric ?L))(a \<mapsto> ?node\<lparr>permits := permits ?node - length hs\<rparr>) \<and>
    f_wire (lf_fabric M) = f_wire (lf_fabric ?L) \<and> lf_clients M = lf_clients ?L \<and>
    lf_status M = (\<lambda>h. if h \<in> set hs then Served else lf_status ?L h)"
    by (rule Cons.IH) (use Cons.prems in auto)
  then obtain M where M: "(limited_step X)\<^sup>*\<^sup>* ?L M"
      "f_nodes (lf_fabric M) = (f_nodes (lf_fabric L))(a \<mapsto> node\<lparr>permits := permits node - length (h # hs)\<rparr>)"
      "f_wire (lf_fabric M) = ?w" "lf_clients M = lf_clients L"
      "lf_status M = (\<lambda>h. if h \<in> set hs then Served else lf_status ?L h)"
    by auto
  have "lf_status M = (\<lambda>g. if g \<in> set (h # hs) then Served else lf_status L g)"
    unfolding M(5) by auto
  with M converse_rtranclp_into_rtranclp [of "limited_step X", OF step M(1)] show ?case
    by (intro exI [of _ M]) simp
qed

section \<open>Properties\<close>

text \<open>C2. Whatever the order in which the relays of a fabric accept connections and process the frames
  on them, nothing is lost or made up: from freshly started relays whose limits cover the
  connections, and any frames that have a destination, no connection is refused, every run ends
  within a bound given by the bytes, frames and connections on the wire, and when no relay can do
  anything more, exactly the destined bodies have been delivered at exactly the destined
  relays.\<close>

theorem fabric_delivers_everything:
  assumes "hkdf_ok X" "aead_ok X" "distinct as" "set as = dom K" "within_limits cfg as (wire_of ws)"
    and "rel_mset (reaches X K) (on_wire ws) D" "frames_small ws"
  shows "(\<exists>L. (limited_step X)\<^sup>*\<^sup>* (limited_start K cfg (wire_of ws)) L \<and> quiescent X L) \<and>
    (\<forall>n L. (limited_step X ^^ n) (limited_start K cfg (wire_of ws)) L \<longrightarrow>
       n \<le> 3 * wire_size ws + 2 * length ws \<and> (\<forall>h. lf_status L h \<noteq> Refused) \<and>
       (quiescent X L \<longrightarrow> delivered_at as (f_nodes (lf_fabric L)) = D))"
proof -
  note start = limited_inv_start [OF assms(6,7,4), of cfg]
  have "n \<le> 3 * wire_size ws + 2 * length ws \<and> (\<forall>h. lf_status L h \<noteq> Refused) \<and>
      (quiescent X L \<longrightarrow> delivered_at as (f_nodes (lf_fabric L)) = D)"
    if run: "(limited_step X ^^ n) (limited_start K cfg (wire_of ws)) L" for n L
  proof -
    obtain ws' where w: "limited_inv X K cfg as (wire_of ws) D L ws'"
        "n + limited_size L ws' \<le> 3 * wire_size ws + 2 * length ws"
      using limited_inv_run [OF assms(1-5) run start(1)] start(2) by auto
    with quiescent_delivered [OF assms(1-4) w(1)] show ?thesis
      by (simp add: limited_inv_def statuses_ok_def)
  qed
  with limited_runs_out [OF assms(1-5) start(1)] show ?thesis by blast
qed

lemma sample_within_limits:
  assumes "length wire + length ns \<le> 256"
  shows "within_limits sample_config (sample_addresses ns) wire"
proof -
  have "card (conns_to wire a) + length ns \<le> 256" for a using card_conns_le [of wire a] assms by simp
  then show ?thesis
    by (auto simp: within_limits_def sample_addresses_def sample_config_def default_max_connections_def)
qed

theorem fabric_delivers_everything_witness:
  "\<exists>onion S. (limited_step demo)\<^sup>*\<^sup>* (limited_start (sample_keys [1, 2, 3]) sample_config
       (wire_of [(r_address (fst (sample_relay 1)), [onion])])) S \<and> quiescent demo S \<and>
     delivered_at (sample_addresses [1, 2, 3]) (f_nodes (lf_fabric S)) = {#(r_address (fst (sample_relay 3)), [7, 7])#}"
proof -
  let ?path = "map (fst \<circ> sample_relay) [1, 2, 3]" and ?K = "sample_keys [1, 2, 3]"
  have keys: "path_keys ?K ?path = map (snd \<circ> sample_relay) [1, 2, 3]"
    using sample_keys_at [of _ "[1, 2, 3]"] by (simp add: path_keys_def)
  have size: "circuit_size ?path (length [7 :: byte, 7]) < 4294967296"
    by (simp add: sample_relay_def Let_def show_nat.simps)
  then have max: "circuit_size ?path (length [7 :: byte, 7]) < aead_max"
    unfolding aead_max_def by simp
  have addr: "addresses_ok ?path" by (rule sample_relay_addresses) simp
  obtain onion r' where o: "layer_from demo ?path (path_keys ?K ?path) [7, 7] 0 onion"
    using build_circuit_ok [OF demo_rng_ok demo_dh_ok demo_hkdf_ok demo_aead_ok sample_relay_keys addr max, of 9]
    unfolding keys by auto
  then obtain ps where "journey demo (path_keys ?K ?path) onion = ps @ [Deliver [7, 7]]"
      "list_all2 (\<lambda>p succ. \<exists>inner. p = Forward (r_address succ) inner) ps (tl ?path)"
    by (auto simp: layer_from_def drop_Suc)
  from journey_reaches [OF this(1) _ this(2)] sample_keys_at [of _ "[1, 2, 3]"]
  have "reaches demo ?K (r_address (fst (sample_relay 1)), onion) (r_address (fst (sample_relay 3)), [7, 7])"
    by simp
  then have wire: "rel_mset (reaches demo ?K) (on_wire [(r_address (fst (sample_relay 1)), [onion])])
      {#(r_address (fst (sample_relay 3)), [7, 7])#}"
    using rel_mset_Plus [OF _ rel_mset_Zero] by (simp add: on_wire_def tagged_def)
  have small: "frames_small [(r_address (fst (sample_relay 1)), [onion])]"
    using o size by (simp add: frames_small_def layer_from_def)
  have dist: "distinct (sample_addresses [1, 2, 3])" by (rule sample_addresses_distinct) simp
  have lim: "within_limits sample_config (sample_addresses [1, 2, 3])
      (wire_of [(r_address (fst (sample_relay 1)), [onion])])"
    by (rule sample_within_limits) simp
  note all = fabric_delivers_everything [OF demo_hkdf_ok demo_aead_ok dist sample_addresses_dom lim wire small]
  from conjunct1 [OF all] obtain S where S: "(limited_step demo)\<^sup>*\<^sup>* (limited_start ?K sample_config
      (wire_of [(r_address (fst (sample_relay 1)), [onion])])) S" "quiescent demo S" by blast
  from rtranclp_imp_relpowp [OF S(1)] obtain n where "(limited_step demo ^^ n) (limited_start ?K sample_config
      (wire_of [(r_address (fst (sample_relay 1)), [onion])])) S" by blast
  from conjunct2 [OF all, rule_format, OF this] S(2)
  have "delivered_at (sample_addresses [1, 2, 3]) (f_nodes (lf_fabric S)) =
      {#(r_address (fst (sample_relay 3)), [7, 7])#}" by simp
  with S show ?thesis by blast
qed

text \<open>C35. When more client connections reach a relay than its limit, some run refuses one of them, and
  the frames on a refused connection are lost for good: however the run goes on, the connection
  stays refused and its bytes unread.\<close>

theorem overload_loses_frames:
  assumes "K a = Some kp" "max_connections (cfg a) < card (conns_to wire a)"
  shows "\<exists>L h. (limited_step X)\<^sup>*\<^sup>* (limited_start K cfg wire) L \<and> h \<in> conns_to wire a \<and>
    (\<forall>M. (limited_step X)\<^sup>*\<^sup>* L M \<longrightarrow> lf_status M h = Refused \<and> f_wire (lf_fabric M) ! h = wire ! h)"
proof -
  let ?S = "limited_start K cfg wire" and ?node = "node_new (cfg a) kp"
  obtain hs where hs: "set hs = conns_to wire a" "distinct hs"
    using finite_distinct_list [OF finite_conns(1)] by blast
  then have len: "max_connections (cfg a) < length hs" using assms(2) distinct_card by fastforce
  define ks h where "ks = take (max_connections (cfg a)) hs" and "h = hs ! max_connections (cfg a)"
  have split: "hs = ks @ h # drop (Suc (max_connections (cfg a))) hs"
    unfolding ks_def h_def by (rule id_take_nth_drop [OF len])
  have "distinct (ks @ h # drop (Suc (max_connections (cfg a))) hs)"
      "set (ks @ h # drop (Suc (max_connections (cfg a))) hs) = conns_to wire a"
    using hs split by metis+
  then have h: "h \<in> conns_to wire a" "h \<notin> set ks" "distinct ks" by auto
  have lks: "length ks = max_connections (cfg a)" using len by (simp add: ks_def)
  have S: "f_nodes (lf_fabric ?S) a = Some ?node" "f_wire (lf_fabric ?S) = wire" "lf_status ?S = (\<lambda>_. Waiting)"
      "lf_clients ?S = length wire" "permits ?node = max_connections (cfg a)"
    using assms(1) by (simp_all add: limited_start_def fabric_start_def node_new_def)
  have sub: "set ks \<subseteq> conns_to wire a" using hs(1) by (auto simp: ks_def dest: in_set_takeD)
  from admit_many [OF S(1), of ks X] S(2-5) h lks sub obtain L where L: "(limited_step X)\<^sup>*\<^sup>* ?S L"
      "f_nodes (lf_fabric L) = (f_nodes (lf_fabric ?S))(a \<mapsto> ?node\<lparr>permits := 0\<rparr>)"
      "f_wire (lf_fabric L) = wire" "lf_clients L = length wire" "lf_status L h = Waiting"
    by auto
  obtain s where w: "h < length wire" "wire ! h = (a, s)" using h(1) by (cases "wire ! h") (auto simp: conns_to_def)
  let ?M = "lf_update L h Refused a (count_rejected (?node\<lparr>permits := 0\<rparr>)) wire"
  have step: "limited_step X L ?M"
    using limited_step.admit [of h L a s "?node\<lparr>permits := 0\<rparr>" False "count_rejected (?node\<lparr>permits := 0\<rparr>)" X] L w by (simp add: accept_connection_def)
  have "refused_with h (wire ! h) ?M"
    using L w by (auto simp: refused_with_def pools_late_def limited_start_def fabric_start_def node_new_def
        count_rejected_def split: if_splits)
  then have "lf_status N h = Refused \<and> f_wire (lf_fabric N) ! h = wire ! h" if "(limited_step X)\<^sup>*\<^sup>* ?M N" for N
    using refused_runs.inv_run [OF that] by (simp add: refused_with_def)
  with rtranclp.rtrancl_into_rtrancl [of "limited_step X", OF L(1) step] h(1) show ?thesis by blast
qed

theorem overload_loses_frames_witness:
  "\<exists>L h. (limited_step demo)\<^sup>*\<^sup>* (limited_start (sample_keys [1]) (\<lambda>a. (sample_config a)\<lparr>max_connections := 1\<rparr>)
       [(r_address (fst (sample_relay 1)), write_frame [1]), (r_address (fst (sample_relay 1)), write_frame [2])]) L \<and>
     h < 2 \<and> lf_status L h = Refused"
proof -
  let ?a = "r_address (fst (sample_relay 1))"
  let ?wire = "[(?a, write_frame [1]), (?a, write_frame [2])]"
  have conns: "conns_to ?wire ?a = {0, 1}" by (auto simp: conns_to_def less_Suc_eq nth_Cons')
  have "sample_keys [1] ?a = Some (snd (sample_relay 1))" by (rule sample_keys_at) simp
  from overload_loses_frames [where X = demo and wire = ?wire and a = ?a and K = "sample_keys [1]" and
      cfg = "\<lambda>a. (sample_config a)\<lparr>max_connections := 1\<rparr>", OF this]
  obtain L h where "(limited_step demo)\<^sup>*\<^sup>* (limited_start (sample_keys [1])
      (\<lambda>a. (sample_config a)\<lparr>max_connections := 1\<rparr>) ?wire) L" "h \<in> {0, 1}"
      "\<forall>M. (limited_step demo)\<^sup>*\<^sup>* L M \<longrightarrow> lf_status M h = Refused \<and> f_wire (lf_fabric M) ! h = ?wire ! h"
    unfolding conns by auto
  moreover from this(3) have "lf_status L h = Refused" by blast
  ultimately show ?thesis by (intro exI [of _ L] exI [of _ h]) auto
qed

end
