(* ===== verification/Relay_Main.thy ===== *)
theory Relay_Main
  imports Node Pull_Listener
begin

text \<open>
  \<open>crates/veil-relay/src/main.rs\<close> and \<open>bin/veil-relay-keygen.rs\<close>: starting a relay from its
  configuration, its mailbox address, the task that moves delivered cells into the mailbox, and
  the generation of an identity. Adding to a port panics on overflow in a build with overflow
  checks and wraps in one without; the flag is a parameter.
\<close>

section \<open>Definitions\<close>

definition add_port :: "bool \<Rightarrow> u16 \<Rightarrow> u16 \<Rightarrow> (u16, 'e) outcome" where
  "add_port overflow_checks p n =
     (if overflow_checks \<and> unat p + unat n \<ge> 2 ^ 16 then Panic else Ok (p + n))"

definition mailbox_addr :: "bool \<Rightarrow> socket_addr \<Rightarrow> (socket_addr, 'e) outcome" where
  "mailbox_addr overflow_checks a =
     and_then (add_port overflow_checks (sa_port a) 1000) (\<lambda>p. Ok (a\<lparr>sa_port := p\<rparr>))"

datatype boot_error = BootRelay relay_error | BootKey veil_error

record relay_boot =
  boot_node :: relay_node
  boot_mailbox_addr :: socket_addr
  boot_identity :: relay_identity

definition load_keypair_from_hex :: "'r externals \<Rightarrow> string \<Rightarrow> (keypair, boot_error) outcome" where
  "load_keypair_from_hex X hex = map_err BootKey (from_hex X hex)"

text \<open>\<open>main\<close> up to the point where the tasks are spawned; \<open>args\<close> are the program's arguments.\<close>

definition boot :: "'r externals \<Rightarrow> bool \<Rightarrow> (string \<Rightarrow> (relay_config, relay_error) outcome) \<Rightarrow> string list
    \<Rightarrow> 'r \<Rightarrow> (relay_boot, boot_error) outcome \<times> 'r" where
  "boot X overflow_checks load args r =
     (let config_path = (if length args > 1 then args ! 1 else ''config/relay.default.toml'') in
      case map_err BootRelay (load config_path) of
        Err e \<Rightarrow> (Err e, r)
      | Panic \<Rightarrow> (Panic, r)
      | Ok config \<Rightarrow>
          (let (kp, r) = (case static_secret_hex config of
                 Some hex \<Rightarrow> (load_keypair_from_hex X hex, r)
               | None \<Rightarrow> (let (kp, r) = generate X r in (Ok kp, r)))
           in (and_then kp (\<lambda>kp.
                 and_then (mailbox_addr overflow_checks (listen_addr config)) (\<lambda>mailbox_addr.
                   Ok \<lparr>boot_node = node_new config kp, boot_mailbox_addr = mailbox_addr,
                       boot_identity = \<lparr>i_id = relay_id config, i_public_key = keypair_public_key kp,
                         i_main_addr = socket_addr_to_string (listen_addr config)\<rparr>\<rparr>)), r)))"

text \<open>The task that drains the delivery channel into the mailbox.\<close>

fun pump :: "bytes list \<Rightarrow> mailbox \<Rightarrow> mailbox" where
  "pump [] mb = mb"
| "pump (delivered # rest) mb = pump rest (mailbox_push delivered mb)"

text \<open>What the key generator prints: the line for the configuration and the public key.\<close>

definition keygen :: "'r externals \<Rightarrow> 'r \<Rightarrow> (string \<times> string) \<times> 'r" where
  "keygen X r =
     (let (kp, r) = generate X r in ((to_hex X kp, public_key_to_hex X (keypair_public_key kp)), r))"

section \<open>Lemmas\<close>

lemma pump_eq: "pump bs mb = mb\<lparr>queue := queue mb @ bs\<rparr>"
  by (induction bs arbitrary: mb) (simp_all add: mailbox_push_def)

lemma add_port_ok: "unat p + 1000 < 65536 \<Longrightarrow> add_port checks p 1000 = Ok (p + 1000)"
  by (simp add: add_port_def)

lemma unat_add_port: "unat (p :: u16) + 1000 < 65536 \<Longrightarrow> unat (p + 1000) = unat p + 1000"
  by (simp add: unat_word_ariths)

lemma add_port_overflow:
  "64536 \<le> unat p \<Longrightarrow> add_port True p 1000 = Panic"
  "add_port False p 1000 = Ok (p + 1000)"
  by (simp_all add: add_port_def)

lemma unat_add_port_overflow: "64536 \<le> unat (p :: u16) \<Longrightarrow> unat (p + 1000) = unat p - 64536"
  using unat_u16_less [of p] by (simp add: unat_word_ariths mod_if)

lemma generated_keypair_hex:
  assumes "dh_ok X" "hex_ok X"
  shows "from_hex X (to_hex X (fst (generate X r))) = Ok (fst (generate X r))"
proof -
  let ?kp = "fst (generate X r)"
  have len: "length (sk_bytes (secret ?kp)) = 32"
    using generate_wf [OF assms(1), of r] by (simp add: keypair_wf_def)
  have "trim ([] @ to_hex X ?kp @ []) = to_hex X ?kp"
    unfolding to_hex_def using assms len
    by (intro trim_blanks hex_encode_plain hex_encode_nonempty) (auto simp: as_bytes_def)
  then show ?thesis
    using generate_wf [OF assms(1), of r]
    by (simp add: from_hex_Ok_iff to_hex_def hex_decode_encode [OF assms(2)])
qed

section \<open>Properties\<close>

text \<open>C39. A relay configured with a secret that the key generator printed starts with that identity on
  every start, publishes exactly the printed public key under its configured address, and listens
  for pulls on its port plus 1000, as long as that is a port.\<close>

theorem boot_restores_identity:
  assumes "dh_ok X" "hex_ok X" "load (args ! 1) = Ok config" "length args > 1"
    and "keygen X r0 = ((secret_line, public_line), r1)" "static_secret_hex config = Some secret_line"
    and "unat (sa_port (listen_addr config)) + 1000 < 65536"
  shows "\<exists>b. boot X checks load args r = (Ok b, r) \<and>
    node_keypair (boot_node b) = fst (generate X r0) \<and>
    public_key_to_hex X (i_public_key (boot_identity b)) = public_line \<and>
    i_main_addr (boot_identity b) = socket_addr_to_string (listen_addr config) \<and>
    unat (sa_port (boot_mailbox_addr b)) = unat (sa_port (listen_addr config)) + 1000"
proof -
  have lines: "secret_line = to_hex X (fst (generate X r0))"
      "public_line = public_key_to_hex X (keypair_public_key (fst (generate X r0)))"
    using assms(5) by (auto simp: keygen_def split: prod.splits)
  have key: "load_keypair_from_hex X secret_line = Ok (fst (generate X r0))"
    by (simp add: load_keypair_from_hex_def lines(1) generated_keypair_hex [OF assms(1,2)])
  let ?a = "listen_addr config"
  have port: "mailbox_addr checks ?a = (Ok (?a\<lparr>sa_port := sa_port ?a + 1000\<rparr>) :: (socket_addr, boot_error) outcome)"
      "unat (sa_port ?a + 1000) = unat (sa_port ?a) + 1000"
    using assms(7) by (simp_all add: mailbox_addr_def add_port_ok unat_add_port)
  show ?thesis
    using assms(3,4,6) key lines(2) port by (auto simp: boot_def node_new_def Let_def)
qed

theorem boot_restores_identity_witness:
  "\<exists>b. boot demo True (\<lambda>_. Ok \<lparr>listen_addr = \<lparr>sa_host = ''127.0.0.1'', sa_port = 9001\<rparr>, relay_id = ''r'',
       static_secret_hex = Some (to_hex demo (fst (generate demo 3))), max_connections = 4\<rparr>)
     [''veil-relay'', ''relay.toml''] 0 = (Ok b, 0) \<and> unat (sa_port (boot_mailbox_addr b)) = 10001"
proof -
  let ?cfg = "\<lparr>listen_addr = \<lparr>sa_host = ''127.0.0.1'', sa_port = 9001\<rparr>, relay_id = ''r'',
    static_secret_hex = Some (to_hex demo (fst (generate demo 3))), max_connections = 4\<rparr>"
  have "keygen demo 3 = ((to_hex demo (fst (generate demo 3)),
      public_key_to_hex demo (keypair_public_key (fst (generate demo 3)))), snd (generate demo 3))"
    by (simp add: keygen_def split: prod.split)
  from boot_restores_identity [OF demo_dh_ok demo_hex_ok _ _ this, of "\<lambda>_. Ok ?cfg"
      "[''veil-relay'', ''relay.toml'']" ?cfg True 0]
  show ?thesis by auto
qed

end
