(* ===== verification/Topology_File.thy ===== *)
theory Topology_File
  imports Topology
begin

text \<open>
  \<open>crates/veil-routing/src/topology_file.rs\<close>: topologies as JSON text and as files. \<open>serde_json\<close>
  and the file system are parameters: \<open>from_str\<close>, \<open>to_string_pretty\<close>, \<open>read_to_string\<close> and
  \<open>fs_write\<close>, the latter two over a file system state \<open>'f\<close>.
\<close>

section \<open>Definitions\<close>

definition CURRENT_VERSION :: u32 where "CURRENT_VERSION = 1"

datatype topology_file_error =
    Read string string
  | Write string string
  | Parse string
  | InvalidPublicKey string string
  | UnsupportedFileVersion u32 u32

record relay_entry =
  e_id :: string
  e_address :: string
  e_public_key :: string

record topology_file =
  f_version :: u32
  f_relays :: "relay_entry list"

fun load_entries :: "'r externals \<Rightarrow> relay_entry list \<Rightarrow> topology
    \<Rightarrow> (topology, topology_file_error) outcome" where
  "load_entries X [] t = Ok t"
| "load_entries X (entry # es) t =
     and_then (ok_or (InvalidPublicKey (e_id entry) ''not valid hex'')
       (hex_decode X (e_public_key entry))) (\<lambda>bytes.
         if length bytes \<noteq> 32
         then Err (InvalidPublicKey (e_id entry) ''must decode to exactly 32 bytes'')
         else load_entries X es (add_relay t \<lparr>r_id = e_id entry, r_address = e_address entry,
                r_public_key = public_key_from_bytes bytes\<rparr>))"

definition from_json :: "'r externals \<Rightarrow> (string \<Rightarrow> (topology_file, string) outcome) \<Rightarrow> string
    \<Rightarrow> (topology, topology_file_error) outcome" where
  "from_json X from_str raw =
     and_then (map_err Parse (from_str raw)) (\<lambda>file.
       if f_version file \<noteq> CURRENT_VERSION
       then Err (UnsupportedFileVersion (f_version file) CURRENT_VERSION)
       else load_entries X (f_relays file) topology_new)"

definition load_from_file :: "'r externals \<Rightarrow> (string \<Rightarrow> (topology_file, string) outcome)
    \<Rightarrow> (string \<Rightarrow> 'f \<Rightarrow> (string, string) outcome) \<Rightarrow> string \<Rightarrow> 'f
    \<Rightarrow> (topology, topology_file_error) outcome" where
  "load_from_file X from_str read_to_string path fs =
     and_then (map_err (Read path) (read_to_string path fs)) (from_json X from_str)"

definition entry_of :: "'r externals \<Rightarrow> relay_info \<Rightarrow> relay_entry" where
  "entry_of X r = \<lparr>e_id = r_id r, e_address = r_address r,
     e_public_key = public_key_to_hex X (r_public_key r)\<rparr>"

definition to_json :: "'r externals \<Rightarrow> (topology_file \<Rightarrow> string option) \<Rightarrow> topology
    \<Rightarrow> (string, topology_file_error) outcome" where
  "to_json X to_string_pretty t =
     expect (to_string_pretty \<lparr>f_version = CURRENT_VERSION,
       f_relays = map (entry_of X) (topology_all X t)\<rparr>)"

definition save_to_file :: "'r externals \<Rightarrow> (topology_file \<Rightarrow> string option)
    \<Rightarrow> (string \<Rightarrow> string \<Rightarrow> 'f \<Rightarrow> (unit, string) outcome \<times> 'f) \<Rightarrow> topology \<Rightarrow> string \<Rightarrow> 'f
    \<Rightarrow> (unit, topology_file_error) outcome \<times> 'f" where
  "save_to_file X to_string_pretty fs_write t path fs =
     (case to_json X to_string_pretty t of
        Ok json \<Rightarrow> (let (res, fs') = fs_write path json fs in (map_err (Write path) res, fs'))
      | Err e \<Rightarrow> (Err e, fs)
      | Panic \<Rightarrow> (Panic, fs))"

section \<open>The parameters' documented behaviour\<close>

definition json_ok :: "(string \<Rightarrow> (topology_file, string) outcome) \<Rightarrow> (topology_file \<Rightarrow> string option) \<Rightarrow> bool" where
  "json_ok from_str to_string_pretty \<longleftrightarrow>
     (\<forall>f. \<exists>s. to_string_pretty f = Some s \<and> from_str s = Ok f)"

definition fs_ok :: "(string \<Rightarrow> 'f \<Rightarrow> (string, string) outcome)
    \<Rightarrow> (string \<Rightarrow> string \<Rightarrow> 'f \<Rightarrow> (unit, string) outcome \<times> 'f) \<Rightarrow> bool" where
  "fs_ok read_to_string fs_write \<longleftrightarrow>
     (\<forall>path s fs fs'. fs_write path s fs = (Ok (), fs') \<longrightarrow> read_to_string path fs' = Ok s)"

section \<open>Lemmas\<close>

text \<open>What an entry stands for, when it is acceptable.\<close>

definition entry_relay :: "'r externals \<Rightarrow> relay_entry \<Rightarrow> relay_info option" where
  "entry_relay X e =
     (case hex_decode X (e_public_key e) of
        Some bs \<Rightarrow> if length bs = 32 then Some \<lparr>r_id = e_id e, r_address = e_address e,
          r_public_key = PublicKey bs\<rparr> else None
      | None \<Rightarrow> None)"

lemma load_entries_Ok_iff:
  "load_entries X es t = Ok t' \<longleftrightarrow>
     (\<forall>e \<in> set es. entry_relay X e \<noteq> None) \<and> t' = foldl add_relay t (map (the \<circ> entry_relay X) es)"
  by (induction es arbitrary: t)
    (auto simp: entry_relay_def public_key_from_bytes_def outcome_simps split: option.splits if_splits)

lemma load_entries_no_panic: "load_entries X es t \<noteq> Panic"
  by (induction es arbitrary: t) (auto simp: outcome_simps split: if_splits)

lemma entry_relay_of:
  assumes "hex_ok X" "length (pk_bytes (r_public_key r)) = 32"
  shows "entry_relay X (entry_of X r) = Some r"
  using assms by (simp add: entry_relay_def entry_of_def public_key_to_hex_def hex_decode_encode)

definition keys_ok :: "topology \<Rightarrow> bool" where
  "keys_ok t \<longleftrightarrow> (\<forall>i r. topology_get t i = Some r \<longrightarrow> length (pk_bytes (r_public_key r)) = 32)"

lemma rebuild_topology:
  assumes "order_ok X" "topology_inv t"
  shows "topology_get (foldl add_relay topology_new (topology_all X t)) i = topology_get t i"
proof -
  let ?rs = "topology_all X t"
  have all: "foldl add_relay topology_new ?rs = topo.add_all topology_new ?rs"
    by (simp add: topo.add_all_def)
  show ?thesis
  proof (cases "topology_get t i")
    case None
    then have "i \<notin> r_id ` set ?rs" using topology_all_spec(2) [OF assms] by auto
    then show ?thesis unfolding all using None by (simp add: topo.get_add_all_notin topo.get_empty)
  next
    case (Some r)
    then have "r_id r = i" using topo.get_key [OF assms(2)] by blast
    with Some have "r \<in> set ?rs" using topology_all_spec(2) [OF assms] by simp
    from topo.get_add_all_distinct [OF topology_all_spec(1) [OF assms] this] show ?thesis
      unfolding all using Some \<open>r_id r = i\<close> by simp
  qed
qed

lemma restored_len:
  assumes "order_ok X" "topology_inv t"
  shows "topology_len (foldl add_relay topology_new (topology_all X t)) = topology_len t"
proof -
  let ?u = "foldl add_relay topology_new (topology_all X t)"
  have "topology_get ?u = topology_get t" using rebuild_topology [OF assms] by blast
  moreover have "topology_inv ?u" using topo.inv_add_all [OF topology_inv_new] by (simp add: topo.add_all_def)
  ultimately show ?thesis using topology_len_card assms(2) by simp
qed

lemma json_roundtrip:
  assumes "order_ok X" "hex_ok X" "json_ok from_str to_string_pretty" "topology_inv t" "keys_ok t"
  shows "\<exists>s. to_json X to_string_pretty t = Ok s \<and>
    from_json X from_str s = Ok (foldl add_relay topology_new (topology_all X t))"
proof -
  let ?f = "\<lparr>f_version = CURRENT_VERSION, f_relays = map (entry_of X) (topology_all X t)\<rparr>"
  obtain s where s: "to_string_pretty ?f = Some s" "from_str s = Ok ?f"
    using assms(3) unfolding json_ok_def by blast
  have e: "entry_relay X (entry_of X r) = Some r" if "r \<in> set (topology_all X t)" for r
    using entry_relay_of [OF assms(2)] assms(5) that topology_all_spec(2) [OF assms(1,4)]
    unfolding keys_ok_def by blast
  then have "map (the \<circ> entry_relay X) (map (entry_of X) (topology_all X t)) = topology_all X t"
    by (simp add: map_idI)
  with e s show ?thesis
    by (auto simp: to_json_def from_json_def load_entries_Ok_iff)
qed

text \<open>A concrete printer and parser with the round trip the parameters promise.\<close>

fun put_text :: "string \<Rightarrow> string" where
  "put_text [] = ''e''"
| "put_text (c # s) = CHR ''c'' # c # put_text s"

fun get_text :: "string \<Rightarrow> (string \<times> string) option" where
  "get_text [] = None"
| "get_text [x] = (if x = CHR ''e'' then Some ([], []) else None)"
| "get_text (x # c # s) =
     (if x = CHR ''e'' then Some ([], c # s)
      else case get_text s of Some (t, r) \<Rightarrow> Some (c # t, r) | None \<Rightarrow> None)"

fun put_entries :: "relay_entry list \<Rightarrow> string" where
  "put_entries [] = []"
| "put_entries (e # es) = put_text (e_id e) @ put_text (e_address e) @ put_text (e_public_key e) @ put_entries es"

fun get_entries :: "nat \<Rightarrow> string \<Rightarrow> relay_entry list option" where
  "get_entries n [] = Some []"
| "get_entries 0 s = None"
| "get_entries (Suc n) s =
     Option.bind (get_text s) (\<lambda>(i, s). Option.bind (get_text s) (\<lambda>(a, s). Option.bind (get_text s) (\<lambda>(k, s).
       map_option (\<lambda>es. \<lparr>e_id = i, e_address = a, e_public_key = k\<rparr> # es) (get_entries n s))))"

definition demo_print :: "topology_file \<Rightarrow> string option" where
  "demo_print f = Some (of_bytes (u32_to_be_bytes (f_version f)) @ put_entries (f_relays f))"

definition demo_parse :: "string \<Rightarrow> (topology_file, string) outcome" where
  "demo_parse s = (case get_entries (length s) (drop 4 s) of
     Some es \<Rightarrow> Ok \<lparr>f_version = u32_from_be_bytes (as_bytes (take 4 s)), f_relays = es\<rparr>
   | None \<Rightarrow> Err ''malformed'')"

lemma get_put_text: "get_text (put_text s @ r) = Some (s, r)"
proof (induction s)
  case Nil
  show ?case by (cases r) simp_all
qed simp

lemma put_text_nonempty: "put_text s \<noteq> []" "0 < length (put_text s)"
  by (cases s; simp)+

lemma get_put_entries: "length (put_entries es) \<le> n \<Longrightarrow> get_entries n (put_entries es) = Some es"
proof (induction es arbitrary: n)
  case Nil
  show ?case by (cases n) simp_all
next
  case (Cons e es)
  have pos: "0 < length (put_text (e_id e))" by (rule put_text_nonempty)
  with Cons.prems obtain k where n: "n = Suc k" by (cases n) auto
  have "length (put_entries es) \<le> k"
    using Cons.prems pos n by (simp del: length_greater_0_conv)
  note IH = Cons.IH [OF this]
  obtain x xs where "put_entries (e # es) = x # xs"
    using put_text_nonempty(1) [of "e_id e"] by (cases "put_text (e_id e)") auto
  then have "get_entries n (put_entries (e # es)) =
     Option.bind (get_text (put_entries (e # es))) (\<lambda>(i, s). Option.bind (get_text s) (\<lambda>(a, s). Option.bind (get_text s) (\<lambda>(k', s).
       map_option (\<lambda>es. \<lparr>e_id = i, e_address = a, e_public_key = k'\<rparr> # es) (get_entries k s))))"
    by (simp add: n)
  with IH show ?case by (simp add: get_put_text)
qed

lemma demo_json_ok: "json_ok demo_parse demo_print"
proof -
  have "demo_parse (of_bytes (u32_to_be_bytes (f_version f)) @ put_entries (f_relays f)) = Ok f" for f
    by (simp add: demo_parse_def get_put_entries)
  then show ?thesis by (auto simp: json_ok_def demo_print_def)
qed

definition sample_pair :: topology where
  "sample_pair = add_relay (add_relay topology_new
     \<lparr>r_id = ''r1'', r_address = ''a:1'', r_public_key = PublicKey (replicate 32 7)\<rparr>)
     \<lparr>r_id = ''r2'', r_address = ''b:2'', r_public_key = PublicKey (replicate 32 8)\<rparr>"

section \<open>Properties\<close>

text \<open>C27. A topology saved to a file and loaded again knows the same relays under the same
  identifiers, with the same addresses and keys, whatever the order in which the map was
  written.\<close>

theorem topology_file_roundtrip:
  assumes "order_ok X" "hex_ok X" "json_ok from_str to_string_pretty" "fs_ok read_to_string fs_write"
    and "topology_inv t" "keys_ok t"
    and "save_to_file X to_string_pretty fs_write t path fs = (Ok (), fs')"
  shows "\<exists>t'. load_from_file X from_str read_to_string path fs' = Ok t' \<and>
    (\<forall>i. topology_get t' i = topology_get t i) \<and> topology_len t' = topology_len t"
proof -
  obtain s where s: "to_json X to_string_pretty t = Ok s"
      "from_json X from_str s = Ok (foldl add_relay topology_new (topology_all X t))"
    using json_roundtrip [OF assms(1-3,5,6)] by blast
  let ?t = "foldl add_relay topology_new (topology_all X t)"
  have get: "topology_get ?t = topology_get t" using rebuild_topology [OF assms(1,5)] by blast
  have "fs_write path s fs = (Ok (), fs')"
    using assms(7) s(1) by (auto simp: save_to_file_def outcome_simps split: prod.splits)
  then have "read_to_string path fs' = Ok s" using assms(4) unfolding fs_ok_def by blast
  with s(2) get restored_len [OF assms(1,5)] show ?thesis
    by (simp add: load_from_file_def)
qed

theorem topology_file_roundtrip_witness:
  "\<exists>fs' t'. save_to_file demo demo_print (\<lambda>path s fs. (Ok (), fs(path \<mapsto> s))) sample_pair ''t.json'' Map.empty = (Ok (), fs') \<and>
     load_from_file demo demo_parse (\<lambda>path fs. ok_or ''not found'' (fs path)) ''t.json'' fs' = Ok t' \<and>
     topology_len t' = 2"
proof -
  let ?put = "\<lambda>path s fs. (Ok (), fs(path \<mapsto> s))"
  let ?get = "\<lambda>path fs. ok_or ''not found'' (fs path)"
  have inv: "topology_inv sample_pair"
    unfolding sample_pair_def by (intro topology_inv_add topology_inv_new)
  have keys: "keys_ok sample_pair" by (simp add: keys_ok_def sample_pair_def topo.get_add topo.get_empty)
  have fs: "fs_ok ?get ?put" by (auto simp: fs_ok_def)
  obtain s where "to_json demo demo_print sample_pair = Ok s"
    using json_roundtrip [OF demo_order_ok demo_hex_ok demo_json_ok inv keys] by blast
  then obtain fs' where save: "save_to_file demo demo_print ?put sample_pair ''t.json'' Map.empty = (Ok (), fs')"
    by (simp add: save_to_file_def)
  have "topology_len sample_pair = 2"
    by (simp add: topology_len_def sample_pair_def add_relay_def topology_new_def)
  with topology_file_roundtrip [OF demo_order_ok demo_hex_ok demo_json_ok fs inv keys save] save
  show ?thesis by auto
qed

text \<open>C28. Loading accepts a file exactly when its text parses, its version is 1 and every public key
  is hexadecimal for 32 bytes; then the topology holds the relays of the file, a later entry
  replacing an earlier one with the same identifier. It never panics.\<close>

theorem from_json_accepts_iff:
  "(from_json X from_str raw = Ok t \<longleftrightarrow>
     (\<exists>file. from_str raw = Ok file \<and> f_version file = 1 \<and>
        (\<forall>e \<in> set (f_relays file). \<exists>bs. hex_decode X (e_public_key e) = Some bs \<and> length bs = 32) \<and>
        t = foldl add_relay topology_new (map (\<lambda>e. \<lparr>r_id = e_id e, r_address = e_address e,
          r_public_key = PublicKey (the (hex_decode X (e_public_key e)))\<rparr>) (f_relays file)))) \<and>
   (from_str raw \<noteq> Panic \<longrightarrow> from_json X from_str raw \<noteq> Panic)"
proof -
  have relay: "entry_relay X e \<noteq> None \<longleftrightarrow> (\<exists>bs. hex_decode X (e_public_key e) = Some bs \<and> length bs = 32)" for e
    by (auto simp: entry_relay_def split: option.splits)
  have the: "the (entry_relay X e) = \<lparr>r_id = e_id e, r_address = e_address e,
      r_public_key = PublicKey (the (hex_decode X (e_public_key e)))\<rparr>" if "entry_relay X e \<noteq> None" for e
    using that by (auto simp: entry_relay_def split: option.splits if_splits)
  have maps: "map (the \<circ> entry_relay X) es = map (\<lambda>e. \<lparr>r_id = e_id e, r_address = e_address e,
      r_public_key = PublicKey (the (hex_decode X (e_public_key e)))\<rparr>) es"
    if "\<forall>e \<in> set es. entry_relay X e \<noteq> None" for es
    using that the by simp
  have "from_json X from_str raw = Ok t \<longleftrightarrow> (\<exists>file. from_str raw = Ok file \<and> f_version file = 1 \<and>
      (\<forall>e \<in> set (f_relays file). entry_relay X e \<noteq> None) \<and>
      t = foldl add_relay topology_new (map (the \<circ> entry_relay X) (f_relays file)))"
    by (auto simp: from_json_def outcome_simps load_entries_Ok_iff CURRENT_VERSION_def split: if_splits)
  moreover have "from_str raw \<noteq> Panic \<longrightarrow> from_json X from_str raw \<noteq> Panic"
    by (auto simp: from_json_def outcome_simps load_entries_no_panic)
  ultimately show ?thesis using maps by (metis (no_types, lifting) relay)
qed

theorem from_json_accepts_iff_witness:
  "\<forall>t. from_json demo (\<lambda>_. Ok \<lparr>f_version = 99, f_relays = []\<rparr>) ''{}'' \<noteq> Ok t"
  using from_json_accepts_iff [of demo "\<lambda>_. Ok \<lparr>f_version = 99, f_relays = []\<rparr>" "''{}''"] by simp

end
