(* ===== verification/Cli.thy ===== *)
theory Cli
  imports Client Receiver Relay_Main Topology_File
begin

text \<open>
  \<open>crates/veil-cli/src/main.rs\<close>: the arguments, the mailbox address derived from a relay's
  address, the set-up of the self-hosted mode, and the shared flow of sending and receiving.
  Sending uses the network \<open>N\<close>, receiving the dialer \<open>dial\<close>, both over one state, and \<open>settle\<close>
  is what happens to that state during the pause in between. Progress messages are not modelled; a failed
  \<open>expect\<close> or \<open>unwrap_or_else(panic!)\<close> is a panic.
\<close>

section \<open>Numbers\<close>

text \<open>\<open>str::parse\<close> for an unsigned type with the given number of values: an optional plus sign and
  at least one digit.\<close>

definition parse_unsigned :: "nat \<Rightarrow> string \<Rightarrow> nat option" where
  "parse_unsigned bound s =
     (let ds = (case s of c # (d # r) \<Rightarrow> if c = CHR ''+'' then d # r else s | _ \<Rightarrow> s)
      in if ds \<noteq> [] \<and> list_all is_digit ds \<and> decimal_val ds < bound then Some (decimal_val ds) else None)"

section \<open>Arguments\<close>

datatype mode =
    SelfHosted (m_message: string) (m_hop_count: nat)
  | External (m_topology_path: string) (m_message: string)

definition DEFAULT_MESSAGE :: string where
  "DEFAULT_MESSAGE = ''hello from veil-cli''"

fun position :: "('a \<Rightarrow> bool) \<Rightarrow> 'a list \<Rightarrow> nat option" where
  "position P [] = None"
| "position P (x # xs) = (if P x then Some 0 else map_option Suc (position P xs))"

definition parse_args :: "string list \<Rightarrow> (mode, 'e) outcome" where
  "parse_args argv =
     (let args = drop 1 argv in
      case position (\<lambda>a. a = ''--topology'') args of
        Some flag_pos \<Rightarrow>
          and_then (expect (if flag_pos + 1 < length args then Some (args ! (flag_pos + 1)) else None))
            (\<lambda>topology_path.
              let others = map snd (filter (\<lambda>(i, _). i \<noteq> flag_pos \<and> i \<noteq> flag_pos + 1) (enumerate 0 args));
                  message = (case others of m # _ \<Rightarrow> m | [] \<Rightarrow> DEFAULT_MESSAGE)
              in Ok (External topology_path message))
      | None \<Rightarrow>
          (let message = (case args of m # _ \<Rightarrow> m | [] \<Rightarrow> DEFAULT_MESSAGE);
               hop_count = (if 1 < length args
                 then (case parse_unsigned (2 ^ 64) (args ! 1) of Some n \<Rightarrow> n | None \<Rightarrow> 3) else 3)
           in Ok (SelfHosted message hop_count)))"

section \<open>Mailbox addresses\<close>

definition mailbox_address_from :: "bool \<Rightarrow> string \<Rightarrow> (string, 'e) outcome" where
  "mailbox_address_from overflow_checks addr =
     and_then (expect (rsplit_once CHR '':'' addr)) (\<lambda>(host, port_str).
       and_then (expect (parse_unsigned (2 ^ 16) port_str)) (\<lambda>port.
         and_then (add_port overflow_checks (of_nat port) 1000) (\<lambda>p.
           Ok (host @ '':'' @ show_nat (unat p)))))"

fun mailbox_addresses :: "bool \<Rightarrow> relay_info list \<Rightarrow> (string list, 'e) outcome" where
  "mailbox_addresses checks [] = Ok []"
| "mailbox_addresses checks (r # rs) =
     and_then (mailbox_address_from checks (r_address r)) (\<lambda>a.
       and_then (mailbox_addresses checks rs) (\<lambda>as. Ok (a # as)))"

section \<open>Sending and receiving\<close>

definition send_and_receive :: "'r externals \<Rightarrow> 'w net \<Rightarrow> 'w dialer \<Rightarrow> ('w \<Rightarrow> 'w) \<Rightarrow> topology \<Rightarrow> nat
    \<Rightarrow> string \<Rightarrow> string list \<Rightarrow> 'r \<times> 'w \<Rightarrow> (cell list, 'e) outcome \<times> 'r \<times> 'w" where
  "send_and_receive X N dial settle t hops message mailbox_addrs = (\<lambda>(r, w).
     let (recipient, r) = generate X r in
     case establish X (keypair_public_key recipient) r of
       (Ok s, r) \<Rightarrow>
         (case send X N (client_new t hops) s (as_bytes message) (r, w) of
            (Ok sent, r, w) \<Rightarrow>
              (case receive X dial recipient mailbox_addrs (settle w) of
                 (Ok received, w) \<Rightarrow> (Ok received, r, w)
               | (_, w) \<Rightarrow> (Panic, r, w))
          | (_, r, w) \<Rightarrow> (Panic, r, w))
     | (_, r) \<Rightarrow> (Panic, r, w))"

definition run_external :: "'r externals \<Rightarrow> bool \<Rightarrow> (string \<Rightarrow> (topology, topology_file_error) outcome)
    \<Rightarrow> 'w net \<Rightarrow> 'w dialer \<Rightarrow> ('w \<Rightarrow> 'w) \<Rightarrow> string \<Rightarrow> string \<Rightarrow> 'r \<times> 'w
    \<Rightarrow> (cell list, 'e) outcome \<times> 'r \<times> 'w" where
  "run_external X checks load N dial settle topology_path message st =
     (case load topology_path of
        Ok t \<Rightarrow>
          (let hop_count = min (max (topology_len t) 1) 3 in
           case mailbox_addresses checks (topology_all X t) of
             Ok addrs \<Rightarrow> send_and_receive X N dial settle t hop_count message addrs st
           | Err e \<Rightarrow> (Err e, st)
           | Panic \<Rightarrow> (Panic, st))
      | _ \<Rightarrow> (Panic, st))"

text \<open>The end of \<open>send_and_receive\<close>: the exit status and the payloads printed, before their lossy
  conversion to text.\<close>

definition report :: "cell list \<Rightarrow> nat \<times> bytes list" where
  "report received = (if received = [] then (1, []) else (0, map payload_of received))"

section \<open>Self-hosted relays\<close>

text \<open>The address of local relay \<open>i\<close>; parsing its text fails, and \<open>unwrap\<close> panics, when the number
  is no port.\<close>

definition local_addr :: "nat \<Rightarrow> (socket_addr, 'e) outcome" where
  "local_addr i = (if 20000 + i < 65536 then Ok \<lparr>sa_host = ''127.0.0.1'', sa_port = of_nat (20000 + i)\<rparr> else Panic)"

record local_relay =
  lr_node :: relay_node
  lr_mailbox_addr :: socket_addr
  lr_identity :: relay_identity

definition local_config :: "socket_addr \<Rightarrow> string \<Rightarrow> relay_config" where
  "local_config addr rid =
     \<lparr>listen_addr = addr, relay_id = rid, static_secret_hex = None, max_connections = 16\<rparr>"

text \<open>One iteration of the loop: the relay with its node, mailbox address and identity, and its
  entry in the topology.\<close>

definition spawn_relay :: "'r externals \<Rightarrow> bool \<Rightarrow> nat \<Rightarrow> 'r \<Rightarrow> (local_relay \<times> relay_info, 'e) outcome \<times> 'r" where
  "spawn_relay X checks i r =
     (case local_addr i of
        Ok addr \<Rightarrow>
          (let rid = ''relay-'' @ show_nat i;
               (keypair, r) = generate X r;
               public_key = keypair_public_key keypair;
               node = node_new (local_config addr rid) keypair
           in (and_then (mailbox_addr checks addr) (\<lambda>mailbox_addr.
                 Ok (\<lparr>lr_node = node, lr_mailbox_addr = mailbox_addr,
                       lr_identity = \<lparr>i_id = rid, i_public_key = public_key,
                         i_main_addr = socket_addr_to_string addr\<rparr>\<rparr>,
                     \<lparr>r_id = rid, r_address = socket_addr_to_string addr, r_public_key = public_key\<rparr>)), r))
      | Err e \<Rightarrow> (Err e, r)
      | Panic \<Rightarrow> (Panic, r))"

fun spawn_relays :: "'r externals \<Rightarrow> bool \<Rightarrow> nat list \<Rightarrow> topology \<Rightarrow> string list \<Rightarrow> local_relay list \<Rightarrow> 'r
    \<Rightarrow> (topology \<times> string list \<times> local_relay list, 'e) outcome \<times> 'r" where
  "spawn_relays X checks [] t mailbox_addrs started r = (Ok (t, mailbox_addrs, started), r)"
| "spawn_relays X checks (i # is) t mailbox_addrs started r =
     (case spawn_relay X checks i r of
        (Ok (relay, info), r) \<Rightarrow>
          spawn_relays X checks is (add_relay t info)
            (mailbox_addrs @ [socket_addr_to_string (lr_mailbox_addr relay)]) (started @ [relay]) r
      | (Err e, r) \<Rightarrow> (Err e, r)
      | (Panic, r) \<Rightarrow> (Panic, r))"

text \<open>\<open>start\<close> is what the spawned tasks of all relays do to the state before the first send.\<close>

definition run_self_hosted :: "'r externals \<Rightarrow> bool \<Rightarrow> (local_relay list \<Rightarrow> 'w \<Rightarrow> 'w) \<Rightarrow> 'w net \<Rightarrow> 'w dialer
    \<Rightarrow> ('w \<Rightarrow> 'w) \<Rightarrow> string \<Rightarrow> nat \<Rightarrow> 'r \<times> 'w \<Rightarrow> (cell list, 'e) outcome \<times> 'r \<times> 'w" where
  "run_self_hosted X checks start N dial settle message hops = (\<lambda>(r, w).
     case spawn_relays X checks [0..<hops] topology_new [] [] r of
       (Ok (t, mailbox_addrs, started), r) \<Rightarrow>
         send_and_receive X N dial settle t hops message mailbox_addrs (r, start started w)
     | (Err e, r) \<Rightarrow> (Err e, r, w)
     | (Panic, r) \<Rightarrow> (Panic, r, w))"

definition cli_main :: "'r externals \<Rightarrow> bool \<Rightarrow> (string \<Rightarrow> (topology, topology_file_error) outcome)
    \<Rightarrow> (local_relay list \<Rightarrow> 'w \<Rightarrow> 'w) \<Rightarrow> 'w net \<Rightarrow> 'w dialer \<Rightarrow> ('w \<Rightarrow> 'w) \<Rightarrow> string list \<Rightarrow> 'r \<times> 'w
    \<Rightarrow> (nat \<times> bytes list, unit) outcome \<times> 'r \<times> 'w" where
  "cli_main X checks load start N dial settle argv st =
     (let (res, st) =
        (case parse_args argv of
           Ok (SelfHosted message hops) \<Rightarrow>
             run_self_hosted X checks start N dial settle message hops st
         | Ok (External topology_path message) \<Rightarrow>
             run_external X checks load N dial settle topology_path message st
         | Err e \<Rightarrow> (Err e, st)
         | Panic \<Rightarrow> (Panic, st))
      in (and_then res (\<lambda>received. Ok (report received)), st))"

section \<open>Lemmas\<close>

lemma parse_show_u16: "parse_unsigned (2 ^ 16) (show_nat (unat (p :: u16))) = Some (unat p)"
proof -
  have d: "list_all is_digit (show_nat (unat p))" "show_nat (unat p) \<noteq> []"
    using show_nat_digits by auto
  then obtain c cs where s: "show_nat (unat p) = c # cs" by (cases "show_nat (unat p)") auto
  with d have "c \<noteq> CHR ''+''" by (auto simp: is_digit_def)
  then have "(case show_nat (unat p) of c # (d # r) \<Rightarrow> if c = CHR ''+'' then d # r else show_nat (unat p)
      | _ \<Rightarrow> show_nat (unat p)) = show_nat (unat p)"
    by (simp add: s split: list.split)
  then show ?thesis
    using d unat_u16_less [of p] by (simp add: parse_unsigned_def Let_def decimal_val_show)
qed

lemma show_nat_no_colon: "CHR '':'' \<notin> set (show_nat n)"
  using show_nat_digits [of n] by (auto simp: list_all_iff is_digit_def)

lemma mailbox_address_from_show:
  "mailbox_address_from checks (socket_addr_to_string a) =
     and_then (add_port checks (sa_port a) 1000) (\<lambda>p. Ok (sa_host a @ '':'' @ show_nat (unat p)))"
  by (simp add: mailbox_address_from_def socket_addr_to_string_def parse_show_u16 [simplified]
      rsplit_once_last show_nat_no_colon)

lemma mailbox_address_from_eq:
  "mailbox_address_from checks (socket_addr_to_string a) =
     and_then (mailbox_addr checks a) (\<lambda>m. Ok (socket_addr_to_string m))"
  unfolding mailbox_address_from_show
  by (simp add: mailbox_addr_def and_then_assoc socket_addr_to_string_def)

section \<open>Properties\<close>

text \<open>C40. The client polls where the relay listens: the mailbox address computed from the text of a
  relay's address is the text of the address the relay's own start-up computes, the port plus
  1000. For a port of 64536 or more, both panic in a build with overflow checks and both wrap to a
  port below 1000 otherwise.\<close>

theorem mailbox_address_agrees:
  "mailbox_address_from checks (socket_addr_to_string a) =
     and_then (mailbox_addr checks a) (\<lambda>m. Ok (socket_addr_to_string m)) \<and>
   (if unat (sa_port a) < 64536
    then mailbox_addr checks a = Ok (a\<lparr>sa_port := sa_port a + 1000\<rparr>) \<and> unat (sa_port a + 1000) = unat (sa_port a) + 1000
    else mailbox_addr True a = Panic \<and> mailbox_addr False a = Ok (a\<lparr>sa_port := sa_port a + 1000\<rparr>) \<and>
      unat (sa_port a + 1000) < 1000)"
proof (cases "unat (sa_port a) < 64536")
  case True
  then show ?thesis
    unfolding mailbox_address_from_eq by (simp add: mailbox_addr_def add_port_ok unat_add_port)
next
  case False
  then show ?thesis
    unfolding mailbox_address_from_eq using unat_u16_less [of "sa_port a"]
    by (auto simp: mailbox_addr_def add_port_overflow unat_add_port_overflow)
qed

end
