(* ===== verification/Delivery.thy ===== *)
theory Delivery
  imports Admission Cli
begin

text \<open>
  The way of a message from \<open>VeilClient::send\<close> over the fabric and the mailboxes to
  \<open>Receiver::poll\<close>: the lemmas behind the end-to-end theorem. The mailbox of a relay holds what
  the relay delivered, moved there by the task of \<open>main.rs\<close>.
\<close>

section \<open>From dispatched cells to frames with destinations\<close>

definition mailboxes_of :: "(string \<Rightarrow> string) \<Rightarrow> string list \<Rightarrow> fabric \<Rightarrow> string \<Rightarrow> mailbox" where
  "mailboxes_of M as S m =
     (case find (\<lambda>a. M a = m) as of
        Some a \<Rightarrow> pump (delivery (the (f_nodes S a))) mailbox_new
      | None \<Rightarrow> mailbox_new)"

text \<open>One connection of the log: a single frame with a destination, and the cell the recipient
  finds there.\<close>

definition carries :: "'r externals \<Rightarrow> (string \<Rightarrow> keypair option) \<Rightarrow> keypair \<Rightarrow> cell
    \<Rightarrow> string \<times> bytes \<Rightarrow> (string \<times> bytes) \<times> (string \<times> bytes) \<Rightarrow> bool" where
  "carries X K recipient c out x \<longleftrightarrow>
     out = (fst (fst x), write_frame (snd (fst x))) \<and> length (snd (fst x)) < 4294967296 \<and>
     reaches X K (fst x) (snd x) \<and> open_envelope X recipient (snd (snd x)) = Ok (Some c)"

lemma dispatched_carries:
  assumes "relays_ready X K (cl_topology client)" "dispatched X K client recipient c (sc, out)"
  shows "\<exists>x. carries X K recipient c out x"
proof -
  obtain path onion env where p: "valid_path (cl_topology client) path" "path \<noteq> []"
      "out = (r_address (hd path), write_frame onion)" "length onion < 4294967296"
      "layer_from X path (path_keys K path) env 0 onion" "open_envelope X recipient env = Ok (Some c)"
    using assms(2) by (cases out) (auto simp: dispatched_def)
  from p(5) obtain ps where "journey X (path_keys K path) onion = ps @ [Deliver env]"
      "list_all2 (\<lambda>p succ. \<exists>inner. p = Forward (r_address succ) inner) ps (tl path)"
    by (auto simp: layer_from_def drop_Suc)
  from journey_reaches [OF this(1) p(2) this(2) ready_path(3) [OF assms(1) p(1)]] p show ?thesis
    by (intro exI [of _ "((r_address (hd path), onion), (r_address (last path), env))"])
      (simp add: carries_def)
qed

lemma log_carries:
  assumes "relays_ready X K (cl_topology client)" "length sent = length log"
    and "list_all2 (dispatched X K client recipient) cells (zip sent log)"
  shows "\<exists>xs. length xs = length cells \<and> length log = length cells \<and>
    (\<forall>i < length cells. carries X K recipient (cells ! i) (log ! i) (xs ! i))"
proof -
  have len: "length log = length cells" using list_all2_lengthD [OF assms(3)] assms(2) by simp
  have "\<exists>x. carries X K recipient (cells ! i) (log ! i) x" if "i < length cells" for i
  proof (rule dispatched_carries [OF assms(1)])
    show "dispatched X K client recipient (cells ! i) (sent ! i, log ! i)"
      using list_all2_nthD [OF assms(3) that] that len assms(2) by simp
  qed
  then show ?thesis using len Skolem_list_nth [of "length cells" "\<lambda>i. carries X K recipient (cells ! i) (log ! i)"]
    by blast
qed

lemma carries_wire:
  assumes "length xs = length cells" "length log = length cells"
    and "\<forall>i < length cells. carries X K recipient (cells ! i) (log ! i) (xs ! i)"
  defines "ws \<equiv> map (\<lambda>x. (fst (fst x), [snd (fst x)])) xs"
  shows "log = wire_of ws" "frames_small ws" "rel_mset (reaches X K) (on_wire ws) (mset (map snd xs))"
    "map (\<lambda>d. open_envelope X recipient (snd d)) (map snd xs) = map (\<lambda>c. Ok (Some c)) cells"
proof -
  have at: "log ! i = (fst (fst (xs ! i)), write_frame (snd (fst (xs ! i))))"
      "length (snd (fst (xs ! i))) < 4294967296" "reaches X K (fst (xs ! i)) (snd (xs ! i))"
      "open_envelope X recipient (snd (snd (xs ! i))) = Ok (Some (cells ! i))" if "i < length cells" for i
    using assms(3) that by (simp_all add: carries_def)
  note ws = ws_def
  show "log = wire_of ws"
    using assms(1,2) at(1) by (intro nth_equalityI) (simp_all add: ws wire_of_def)
  show "frames_small ws"
  proof -
    have "length (snd (fst x)) < 4294967296" if "x \<in> set xs" for x
      using that at(2) assms(1) by (metis in_set_conv_nth)
    then show ?thesis unfolding frames_small_def ws by auto
  qed
  have "concat (map tagged ws) = map fst xs"
    by (simp add: ws tagged_def comp_def)
  moreover have "list_all2 (reaches X K) (map fst xs) (map snd xs)"
    using at(3) assms(1) by (simp add: list_all2_conv_all_nth)
  ultimately show "rel_mset (reaches X K) (on_wire ws) (mset (map snd xs))"
    unfolding rel_mset_def on_wire_def by metis
  show "map (\<lambda>d. open_envelope X recipient (snd d)) (map snd xs) = map (\<lambda>c. Ok (Some c)) cells"
    using assms(1) at(4) by (intro nth_equalityI) simp_all
qed

section \<open>From deliveries to cells\<close>

lemma mset_map_filter:
  "mset (List.map_filter f xs) = image_mset (\<lambda>x. the (f x)) (filter_mset (\<lambda>x. f x \<noteq> None) (mset xs))"
  by (simp add: List.map_filter_def comp_def)

lemma mset_opened: "mset xs = mset ys \<Longrightarrow> mset (opened X identity xs) = mset (opened X identity ys)"
  unfolding opened_def mset_map_filter by (rule arg_cong)

lemma opened_all:
  "map (open_envelope X identity) raws = map (\<lambda>c. Ok (Some c)) cells \<Longrightarrow> opened X identity raws = cells"
proof (induction raws arbitrary: cells)
  case (Cons raw raws)
  then obtain c cs where "cells = c # cs" by (cases cells) auto
  with Cons show ?case by (simp add: opened_Cons)
qed simp

lemma mailbox_queue:
  assumes "inj_on M (set as)" "a \<in> set as"
  shows "queue (mailboxes_of M as S (M a)) = delivery (the (f_nodes S a))"
proof -
  obtain b where b: "find (\<lambda>a'. M a' = M a) as = Some b"
    using assms(2) by (cases "find (\<lambda>a'. M a' = M a) as") (auto simp: find_None_iff)
  then have "b \<in> set as" "M b = M a" by (auto simp: find_Some_iff)
  then have "b = a" using assms by (auto dest: inj_onD)
  with b show ?thesis by (simp add: mailboxes_of_def pump_eq mailbox_new_def)
qed

lemma opened_mailboxes:
  assumes "inj_on M (set as)" "delivered_at as (f_nodes S) = mset ds"
    and "map (\<lambda>d. open_envelope X identity (snd d)) ds = map (\<lambda>c. Ok (Some c)) cells"
  shows "mset (concat (map (\<lambda>m. opened X identity (queue (mailboxes_of M as S m))) (map M as))) = mset cells"
proof -
  let ?ds = "concat (map (\<lambda>a. map (Pair a) (delivery (the (f_nodes S a)))) as)"
  have at: "map (\<lambda>m. opened X identity (queue (mailboxes_of M as S m))) (map M as) =
      map (\<lambda>a. opened X identity (delivery (the (f_nodes S a)))) as"
    using mailbox_queue [OF assms(1)] by simp
  have flat: "concat (map (\<lambda>a. opened X identity (delivery (the (f_nodes S a)))) bs) =
      opened X identity (map snd (concat (map (\<lambda>a. map (Pair a) (delivery (the (f_nodes S a)))) bs)))" for bs
    by (induction bs) (simp_all add: comp_def)
  have "mset ?ds = mset ds" using assms(2) unfolding delivered_at_def .
  then have same: "mset (map snd ?ds) = mset (map snd ds)" unfolding mset_map by (rule arg_cong)
  have cells: "opened X identity (map snd ds) = cells"
    using assms(3) by (intro opened_all) (simp add: comp_def)
  show ?thesis unfolding at flat mset_opened [OF same] cells ..
qed

lemma delivered_sub:
  assumes "delivered_at as (f_nodes S) = mset ds" "a \<in> set as"
  shows "length (delivery (the (f_nodes S a))) \<le> length ds"
    "\<forall>b \<in> set (delivery (the (f_nodes S a))). (a, b) \<in> set ds"
proof -
  let ?del = "delivery (the (f_nodes S a))"
  have "mset (map (Pair a) ?del) \<subseteq># mset ds"
    using assms(2) unfolding assms(1) [symmetric] delivered_at_def
    by (induction as) (auto intro: subset_mset.add_increasing subset_mset.add_increasing2)
  then show "length ?del \<le> length ds" "\<forall>b \<in> set ?del. (a, b) \<in> set ds"
    by (metis size_mset_mono size_mset length_map, auto dest!: set_mset_mono simp: image_subset_iff)
qed

lemma length_pull_message:
  "\<forall>b \<in> set bs. length b = ENVELOPE_SIZE \<Longrightarrow> length (pull_message bs) = 4 + 576 * length bs"
proof (induction bs)
  case (Cons b bs)
  then have "length (write_frame b) = 576" by (simp add: write_frame_def ENVELOPE_SIZE_def encryption_consts)
  with Cons show ?case by (simp add: pull_message_def)
qed (simp add: pull_message_def)

lemma mailboxes_small:
  assumes "inj_on M (set as)" "delivered_at as (f_nodes S) = mset ds" "length ds < 65536"
    and "\<forall>d \<in> set ds. length (snd d) = ENVELOPE_SIZE" "\<forall>a \<in> set as. ids (M a) \<noteq> None"
    and "4 + 576 * length ds \<le> n"
  shows "mailboxes_ok ids n (mailboxes_of M as S) (map M as)"
proof -
  have "batch_ok (queue (mailboxes_of M as S (M a))) \<and>
      length (pull_message (queue (mailboxes_of M as S (M a)))) \<le> n" if a: "a \<in> set as" for a
  proof -
    note sub = delivered_sub [OF assms(2) a]
    have size: "\<forall>b \<in> set (delivery (the (f_nodes S a))). length b = ENVELOPE_SIZE"
      using sub(2) assms(4) by force
    with sub(1) assms(3) have "batch_ok (delivery (the (f_nodes S a)))"
      by (auto simp: batch_ok_def list_all_iff ENVELOPE_SIZE_def encryption_consts)
    with sub(1) assms(6) show ?thesis
      by (simp add: mailbox_queue [OF assms(1) a] length_pull_message [OF size])
  qed
  with assms(5) show ?thesis by (simp add: mailboxes_ok_def)
qed

section \<open>From cells to the message\<close>

lemma completions_append: "completions (xs @ ys) = completions xs @ completions ys"
  by (simp add: completions_def List.map_filter_def)

lemma completions_none: "completions (replicate n (Ok None)) = []"
  by (induction n) (simp_all add: completions_def List.map_filter_def)

section \<open>The whole way\<close>

lemma opened_size: "open_envelope X identity raw = Ok (Some c) \<Longrightarrow> length raw = ENVELOPE_SIZE"
  by (auto simp: open_envelope_def unwrap_def split: if_splits)

lemma delivered_mailboxes:
  assumes "inj_on M (set as)" "\<forall>a \<in> set as. ids (M a) \<noteq> None" "delivered_at as (f_nodes S) = mset ds"
    and "map (\<lambda>d. open_envelope X recipient (snd d)) ds = map (\<lambda>c. Ok (Some c)) cells"
    and "fragments_of mid message cells" "4 + 576 * length cells \<le> n"
  shows "mailboxes_ok ids n (mailboxes_of M as S) (map M as)"
proof -
  have len: "length ds = length cells" using arg_cong [OF assms(4), of length] by simp
  have "length (snd d) = ENVELOPE_SIZE" if "d \<in> set ds" for d
  proof -
    from that assms(4) have "open_envelope X recipient (snd d) \<in> set (map (\<lambda>c. Ok (Some c)) cells)"
      by (metis (mono_tags, lifting) image_eqI list.set_map)
    then show ?thesis using opened_size by fastforce
  qed
  moreover have "length ds < 65536" using assms(5) len by (simp add: fragments_of_def)
  ultimately show ?thesis using mailboxes_small [OF assms(1,3), of ids n] assms(2,6) len by simp
qed

lemma receive_after_delivery:
  assumes laws: "hkdf_ok X" "aead_ok X" and as: "distinct as" "inj_on M (set as)" "\<forall>a \<in> set as. ids (M a) \<noteq> None"
    and ds: "delivered_at as (f_nodes S) = mset ds"
      "map (\<lambda>d. open_envelope X recipient (snd d)) ds = map (\<lambda>c. Ok (Some c)) cells"
    and frags: "fragments_of mid message cells" and room: "4 + 576 * length cells \<le> n"
  shows "\<exists>cs. receive X (fleet_dialer ids n) recipient (map M as) (mailboxes_of M as S) =
    (Ok cs, emptied (map M as) (mailboxes_of M as S)) \<and> mset cs = mset cells"
proof -
  have "distinct (map M as)" using as by (simp add: distinct_map)
  from receive_loop_fleet [OF laws this delivered_mailboxes [OF as(2,3) ds frags room]] opened_mailboxes [OF as(2) ds]
  show ?thesis by (simp add: receive_def)
qed

lemma sent_message_carried:
  assumes laws: "rng_ok X" "dh_ok X" "hkdf_ok X" "aead_ok X" "order_ok X"
    and t: "topology_inv (cl_topology client)" "relays_ready X K (cl_topology client)" "1 \<le> hop_count client"
      "hop_count client \<le> topology_len (cl_topology client)" "hop_count client \<le> max_hops"
    and s: "session_with X recipient s" "message \<noteq> []" "length message \<le> MAX_MESSAGE_SIZE"
  shows "\<exists>cells sent r' ws ds. send X wire_net client s message (r, w) = (Ok sent, r', w @ wire_of ws) \<and>
    fragments_of (fst (fill_bytes X 16 r)) message cells \<and> map payload_of cells = chunks PAYLOAD_CAPACITY message \<and>
    length sent = length cells \<and> length ws = length cells \<and> frames_small ws \<and>
    rel_mset (reaches X K) (on_wire ws) (mset ds) \<and>
    map (\<lambda>d. open_envelope X recipient (snd d)) ds = map (\<lambda>c. Ok (Some c)) cells"
proof -
  obtain cells sent log r' where sd: "send X wire_net client s message (r, w) = (Ok sent, r', w @ log)"
      "fragments_of (fst (fill_bytes X 16 r)) message cells" "length sent = length log"
      "list_all2 (dispatched X K client recipient) cells (zip sent log)"
      "map payload_of cells = chunks PAYLOAD_CAPACITY message"
    using send_ok [OF laws t s, of r w] by blast
  obtain xs where xs: "length xs = length cells" "length log = length cells"
      "\<forall>i < length cells. carries X K recipient (cells ! i) (log ! i) (xs ! i)"
    using log_carries [OF t(2) sd(3,4)] by auto
  from carries_wire [OF xs] sd xs show ?thesis
    by (intro exI [of _ cells] exI [of _ sent] exI [of _ r']
        exI [of _ "map (\<lambda>x. (fst (fst x), [snd (fst x)])) xs"] exI [of _ "map snd xs"]) simp
qed

text \<open>Limits that leave room for one connection per cell of a message and per relay.\<close>

definition room_for :: "(string \<Rightarrow> relay_config) \<Rightarrow> string list \<Rightarrow> nat \<Rightarrow> bool" where
  "room_for cfg as n \<longleftrightarrow> (\<forall>a \<in> set as. div_ceil n PAYLOAD_CAPACITY + length as \<le> max_connections (cfg a))"

lemma room_within_limits:
  assumes "room_for cfg as n" "length wire = div_ceil n PAYLOAD_CAPACITY"
  shows "within_limits cfg as wire"
  using assms card_conns_le [of wire] unfolding room_for_def within_limits_def by (metis add_le_mono1 le_trans)

lemma sent_message_delivered:
  assumes laws: "rng_ok X" "dh_ok X" "hkdf_ok X" "aead_ok X" "order_ok X"
    and t: "topology_inv t" "relays_ready X K t" "1 \<le> n" "n \<le> topology_len t" "n \<le> max_hops"
    and s: "session_with X recipient s" "message \<noteq> []" "length message \<le> MAX_MESSAGE_SIZE"
    and as: "distinct as" "set as = dom K" "room_for cfg as (length message)"
  shows "\<exists>cells sent r' log mid. send X wire_net (client_new t n) s message (r, []) = (Ok sent, r', log) \<and>
    fragments_of mid message cells \<and> map payload_of cells = chunks PAYLOAD_CAPACITY message \<and>
    length sent = length cells \<and> length log = length cells \<and>
    (\<exists>L. (limited_step X)\<^sup>*\<^sup>* (limited_start K cfg log) L \<and> quiescent X L) \<and>
    (\<forall>L. (limited_step X)\<^sup>*\<^sup>* (limited_start K cfg log) L \<and> quiescent X L \<longrightarrow>
       (\<exists>ds. delivered_at as (f_nodes (lf_fabric L)) = mset ds \<and>
          map (\<lambda>d. open_envelope X recipient (snd d)) ds = map (\<lambda>c. Ok (Some c)) cells))"
proof -
  obtain cells sent r' ws ds mid where sd: "send X wire_net (client_new t n) s message (r, []) = (Ok sent, r', wire_of ws)"
      "fragments_of mid message cells" "map payload_of cells = chunks PAYLOAD_CAPACITY message"
      "length sent = length cells" "length ws = length cells" "frames_small ws"
      "rel_mset (reaches X K) (on_wire ws) (mset ds)"
      "map (\<lambda>d. open_envelope X recipient (snd d)) ds = map (\<lambda>c. Ok (Some c)) cells"
    using sent_message_carried [OF laws, of "client_new t n" K recipient s message r "[]"] t s
    by (auto simp: client_new_def)
  have "length (wire_of ws) = div_ceil (length message) PAYLOAD_CAPACITY"
    using arg_cong [OF sd(3), of length] length_chunks [of PAYLOAD_CAPACITY message] sd(5)
    by (simp add: PAYLOAD_CAPACITY_eq)
  note lim = room_within_limits [OF as(3) this]
  note inv = limited_inv_start(1) [OF sd(7,6) as(2), of cfg]
  have "delivered_at as (f_nodes (lf_fabric L)) = mset ds"
    if "(limited_step X)\<^sup>*\<^sup>* (limited_start K cfg (wire_of ws)) L" "quiescent X L" for L
    by (rule run_delivers [OF laws(3,4) as(1,2) lim inv that])
  moreover from limited_runs_out [OF laws(3,4) as(1,2) lim inv]
  have "\<exists>L. (limited_step X)\<^sup>*\<^sup>* (limited_start K cfg (wire_of ws)) L \<and> quiescent X L" .
  ultimately show ?thesis
    using sd(1-5,8) by (intro exI [of _ cells] exI [of _ sent] exI [of _ r'] exI [of _ "wire_of ws"] exI [of _ mid]) auto
qed

end
