(* ===== verification/Cli_World.thy ===== *)
theory Cli_World
  imports Delivery
begin

text \<open>
  The command line program over one world: the relays of a fabric with their connection limits, the
  identities their mailbox listeners serve, and their mailboxes. Sending puts connections on the
  wire of the fabric; the pause lets the relays run until nothing is left to do and the delivered
  cells reach the mailboxes; receiving pulls from the mailboxes. The lemmas lift sending over the
  wire alone and receiving from a fleet to the world.
\<close>

section \<open>The world\<close>

record world =
  w_fabric :: limited_fabric
  w_ids :: "string \<Rightarrow> relay_identity option"
  w_mail :: "string \<Rightarrow> mailbox"

definition w_wire :: "world \<Rightarrow> (string \<times> bytes) list" where
  "w_wire w = f_wire (lf_fabric (w_fabric w))"

definition set_wire :: "(string \<times> bytes) list \<Rightarrow> world \<Rightarrow> world" where
  "set_wire wire w = w\<lparr>w_fabric := (w_fabric w)\<lparr>lf_fabric := (lf_fabric (w_fabric w))\<lparr>f_wire := wire\<rparr>,
     lf_clients := length wire\<rparr>\<rparr>"

text \<open>A function that works on the wire, as one that works on the world.\<close>

definition on_world :: "((string \<times> bytes) list \<Rightarrow> 'a \<times> (string \<times> bytes) list) \<Rightarrow> world \<Rightarrow> 'a \<times> world" where
  "on_world f w = (let (x, wire) = f (w_wire w) in (x, set_wire wire w))"

definition world_net :: "world net" where
  "world_net = \<lparr>net_connect = (\<lambda>a. on_world (net_connect wire_net a)),
     net_write = (\<lambda>h bs. on_world (net_write wire_net h bs))\<rparr>"

definition world_dialer :: "nat \<Rightarrow> world dialer" where
  "world_dialer n w a =
     (case w_ids w a of
        Some i \<Rightarrow> Ok (\<lambda>req. let (s, mb) = answer (w_mail w a) i n req in (Ok s, w\<lparr>w_mail := (w_mail w)(a := mb)\<rparr>))
      | None \<Rightarrow> Err ConnectionFailed)"

text \<open>Starting the relays: their nodes at their addresses, with empty mailboxes and listeners.\<close>

definition start_world :: "local_relay list \<Rightarrow> world \<Rightarrow> world" where
  "start_world started w =
     \<lparr>w_fabric = \<lparr>lf_fabric = \<lparr>f_nodes = map_of (map (\<lambda>l. (i_main_addr (lr_identity l), lr_node l)) started), f_wire = []\<rparr>,
        lf_status = (\<lambda>_. Waiting), lf_clients = 0\<rparr>,
      w_ids = map_of (map (\<lambda>l. (socket_addr_to_string (lr_mailbox_addr l), lr_identity l)) started),
      w_mail = (\<lambda>_. mailbox_new)\<rparr>"

text \<open>The mailbox address that belongs to a relay's address.\<close>

definition mailbox_of :: "string \<Rightarrow> string" where
  "mailbox_of a = (case mailbox_address_from False a :: (string, unit) outcome of Ok m \<Rightarrow> m | _ \<Rightarrow> [])"

text \<open>A pause that is long enough: the relays have nothing left to do, and what they delivered is in
  their mailboxes.\<close>

definition settles :: "'r externals \<Rightarrow> string list \<Rightarrow> (world \<Rightarrow> world) \<Rightarrow> bool" where
  "settles X as settle \<longleftrightarrow>
     (\<forall>w. (\<exists>L. (limited_step X)\<^sup>*\<^sup>* (w_fabric w) L \<and> quiescent X L) \<longrightarrow>
        (limited_step X)\<^sup>*\<^sup>* (w_fabric w) (w_fabric (settle w)) \<and> quiescent X (w_fabric (settle w)) \<and>
        w_ids (settle w) = w_ids w \<and>
        w_mail (settle w) = mailboxes_of mailbox_of as (lf_fabric (w_fabric (settle w))))"

lemma settles_exists: "\<exists>settle. settles X as settle"
proof -
  define run where "run w = (SOME L. (limited_step X)\<^sup>*\<^sup>* (w_fabric w) L \<and> quiescent X L)" for w :: world
  have "(limited_step X)\<^sup>*\<^sup>* (w_fabric w) (run w) \<and> quiescent X (run w)"
    if "\<exists>L. (limited_step X)\<^sup>*\<^sup>* (w_fabric w) L \<and> quiescent X L" for w
    unfolding run_def by (rule someI_ex [OF that])
  then show ?thesis
    by (intro exI [of _ "\<lambda>w. w\<lparr>w_fabric := run w, w_mail := mailboxes_of mailbox_of as (lf_fabric (run w))\<rparr>"])
      (simp add: settles_def)
qed

section \<open>Lifting\<close>

lemma w_wire_set [simp]: "w_wire (set_wire wire w) = wire" "set_wire v (set_wire wire w) = set_wire v w"
  by (simp_all add: w_wire_def set_wire_def)

lemma send_frame_world: "send_frame world_net a b = on_world (send_frame wire_net a b)"
proof
  fix w
  obtain res wire where c: "net_connect wire_net a (w_wire w) = (res, wire)" by fastforce
  show "send_frame world_net a b w = on_world (send_frame wire_net a b) w"
    by (simp add: send_frame_def world_net_def wire_net_def net_write_frame_def then_st_def on_world_def)
qed

definition wire_current :: "world \<Rightarrow> bool" where
  "wire_current w \<longleftrightarrow> lf_clients (w_fabric w) = length (w_wire w)"

lemma wire_current_set [simp]: "wire_current (set_wire wire w)"
  by (simp add: wire_current_def set_wire_def w_wire_def)

lemma set_wire_same: "wire_current w \<Longrightarrow> set_wire (w_wire w) w = w"
  by (simp add: wire_current_def set_wire_def w_wire_def)

lemma send_cells_world:
  assumes "wire_current w"
  shows "send_cells X world_net client s cells sent (r, w) =
    (let (res, r', wire) = send_cells X wire_net client s cells sent (r, w_wire w) in (res, r', set_wire wire w))"
  using assms
proof (induction cells arbitrary: sent r w)
  case Nil
  then show ?case by (simp add: set_wire_same)
next
  case (Cons c cells)
  obtain p r1 where p: "prepare_cell X client s c r = (p, r1)" by fastforce
  show ?case
  proof (cases p)
    case (Ok x)
    obtain path onion where x: "x = (path, onion)" by fastforce
    have f: "send_frame world_net (r_address (hd path)) onion w =
        (Ok (), set_wire (w_wire w @ [(r_address (hd path), write_frame onion)]) w)"
      by (simp add: send_frame_world on_world_def send_frame_wire)
    show ?thesis
      using Cons.IH [of "set_wire (w_wire w @ [(r_address (hd path), write_frame onion)]) w"]
      by (simp add: p Ok x f send_frame_wire split: prod.split)
  qed (use Cons.prems in \<open>simp_all add: p set_wire_same\<close>)
qed

lemma send_world:
  assumes "wire_current w"
  shows "send X world_net client s message (r, w) =
    (let (res, r', wire) = send X wire_net client s message (r, w_wire w) in (res, r', set_wire wire w))"
proof -
  obtain p r1 where p: "fragment_message X message r = (p, r1)" by fastforce
  show ?thesis
    by (cases p) (simp_all add: send_def p send_cells_world [OF assms] set_wire_same [OF assms])
qed

lemma pull_world:
  "pull (world_dialer n) a w =
     (let (res, mail) = pull (fleet_dialer (w_ids w) n) a (w_mail w) in (res, w\<lparr>w_mail := mail\<rparr>))"
  by (simp add: pull_def world_dialer_def fleet_dialer_def split: option.split prod.split)

lemma receive_loop_world:
  "receive_loop X (world_dialer n) identity addrs acc w =
     (let (res, mail) = receive_loop X (fleet_dialer (w_ids w) n) identity addrs acc (w_mail w)
      in (res, w\<lparr>w_mail := mail\<rparr>))"
proof (induction addrs arbitrary: acc w)
  case (Cons a addrs)
  obtain res mail where p: "pull (fleet_dialer (w_ids w) n) a (w_mail w) = (res, mail)" by fastforce
  show ?case
  proof (cases res)
    case (Ok envelopes)
    show ?thesis
      using Cons.IH [of _ "w\<lparr>w_mail := mail\<rparr>"]
      by (cases "open_all X identity envelopes acc") (simp_all add: pull_world p Ok split: prod.split)
  qed (simp_all add: pull_world p)
qed simp

lemma receive_world:
  "receive X (world_dialer n) identity addrs w =
     (let (res, mail) = receive X (fleet_dialer (w_ids w) n) identity addrs (w_mail w) in (res, w\<lparr>w_mail := mail\<rparr>))"
  by (simp add: receive_def receive_loop_world)

section \<open>Sending and receiving in the world\<close>

lemma send_and_receive_delivers:
  assumes laws: "rng_ok X" "dh_ok X" "hkdf_ok X" "aead_ok X" "order_ok X"
    and t: "topology_inv t" "relays_ready X K t" "1 \<le> n" "n \<le> topology_len t" "n \<le> max_hops"
    and m: "message \<noteq> []" "length message \<le> MAX_MESSAGE_SIZE"
    and as: "distinct as" "set as = dom K" "room_for cfg as (length message)" "inj_on mailbox_of (set as)"
    and w: "w_fabric w = limited_start K cfg []" "\<forall>a \<in> set as. w_ids w (mailbox_of a) \<noteq> None"
    and settle: "settles X as settle" "4 + 576 * div_ceil (length message) PAYLOAD_CAPACITY \<le> avail"
  shows "\<exists>cs r' w'. send_and_receive X world_net (world_dialer avail) settle t n message (map mailbox_of as) (r, w) =
    (Ok cs, r', w') \<and> mset (map payload_of cs) = mset (chunks PAYLOAD_CAPACITY (as_bytes message))"
proof -
  obtain recipient r1 where g: "generate X r = (recipient, r1)" by fastforce
  have wf: "keypair_wf X recipient" using generate_wf [OF laws(2), of r] g by simp
  obtain s r2 where s: "establish X (keypair_public_key recipient) r1 = (Ok s, r2)" "session_with X recipient s"
    using establish_ok [OF laws(2,3) wf, of r1] by (auto simp: keypair_public_key_def)
  have m': "as_bytes message \<noteq> []" "length (as_bytes message) \<le> MAX_MESSAGE_SIZE"
      "room_for cfg as (length (as_bytes message))"
    using m as(3) by simp_all
  obtain cells sent r3 log mid where sd: "send X wire_net (client_new t n) s (as_bytes message) (r2, []) = (Ok sent, r3, log)"
      "fragments_of mid (as_bytes message) cells" "map payload_of cells = chunks PAYLOAD_CAPACITY (as_bytes message)"
      "\<exists>L. (limited_step X)\<^sup>*\<^sup>* (limited_start K cfg log) L \<and> quiescent X L"
      "\<forall>L. (limited_step X)\<^sup>*\<^sup>* (limited_start K cfg log) L \<and> quiescent X L \<longrightarrow>
         (\<exists>ds. delivered_at as (f_nodes (lf_fabric L)) = mset ds \<and>
            map (\<lambda>d. open_envelope X recipient (snd d)) ds = map (\<lambda>c. Ok (Some c)) cells)"
    using sent_message_delivered [OF laws t s(2) m'(1,2) as(1,2) m'(3)] by metis
  have w0: "wire_current w" "w_wire w = []" by (simp_all add: wire_current_def w_wire_def w(1) limited_start_def fabric_start_def)
  let ?w = "set_wire log w"
  have fab: "w_fabric ?w = limited_start K cfg log" "w_ids ?w = w_ids w"
    by (simp_all add: set_wire_def w(1) limited_start_def fabric_start_def)
  have "\<exists>L. (limited_step X)\<^sup>*\<^sup>* (w_fabric ?w) L \<and> quiescent X L" using sd(4) unfolding fab by blast
  from settle(1) [unfolded settles_def, rule_format, OF this]
  have st: "(limited_step X)\<^sup>*\<^sup>* (limited_start K cfg log) (w_fabric (settle ?w))" "quiescent X (w_fabric (settle ?w))"
      "w_ids (settle ?w) = w_ids w" "w_mail (settle ?w) = mailboxes_of mailbox_of as (lf_fabric (w_fabric (settle ?w)))"
    unfolding fab by simp_all
  have "length cells = div_ceil (length message) PAYLOAD_CAPACITY"
    using arg_cong [OF sd(3), of length] length_chunks [of PAYLOAD_CAPACITY "as_bytes message"]
    by (simp add: PAYLOAD_CAPACITY_eq)
  with settle(2) have avail: "4 + 576 * length cells \<le> avail" by simp
  obtain ds where ds: "delivered_at as (f_nodes (lf_fabric (w_fabric (settle ?w)))) = mset ds"
      "map (\<lambda>d. open_envelope X recipient (snd d)) ds = map (\<lambda>c. Ok (Some c)) cells"
    using sd(5) st(1,2) by blast
  obtain cs mail where cs: "receive X (fleet_dialer (w_ids w) avail) recipient (map mailbox_of as)
      (mailboxes_of mailbox_of as (lf_fabric (w_fabric (settle ?w)))) = (Ok cs, mail)" "mset cs = mset cells"
    using receive_after_delivery [OF laws(3,4) as(1,4) w(2) ds sd(2) avail] by blast
  have "receive X (world_dialer avail) recipient (map mailbox_of as) (settle ?w) = (Ok cs, (settle ?w)\<lparr>w_mail := mail\<rparr>)"
    by (simp add: receive_world st(3,4) cs(1))
  moreover have "send X world_net (client_new t n) s (as_bytes message) (r2, w) = (Ok sent, r3, ?w)"
    by (simp add: send_world [OF w0(1)] w0(2) sd(1))
  moreover have "mset (map payload_of cs) = mset (chunks PAYLOAD_CAPACITY (as_bytes message))"
    unfolding sd(3) [symmetric] mset_map cs(2) ..
  ultimately show ?thesis by (simp add: send_and_receive_def g s(1))
qed

section \<open>Self-hosted relays\<close>

definition local_socket :: "nat \<Rightarrow> socket_addr" where
  "local_socket i = \<lparr>sa_host = ''127.0.0.1'', sa_port = of_nat (20000 + i)\<rparr>"

definition local_address :: "nat \<Rightarrow> string" where
  "local_address i = socket_addr_to_string (local_socket i)"

definition local_of :: "nat \<Rightarrow> keypair \<Rightarrow> local_relay" where
  "local_of i kp = \<lparr>lr_node = node_new (local_config (local_socket i) (''relay-'' @ show_nat i)) kp,
     lr_mailbox_addr = (local_socket i)\<lparr>sa_port := sa_port (local_socket i) + 1000\<rparr>,
     lr_identity = \<lparr>i_id = ''relay-'' @ show_nat i, i_public_key = keypair_public_key kp, i_main_addr = local_address i\<rparr>\<rparr>"

definition local_info :: "nat \<Rightarrow> keypair \<Rightarrow> relay_info" where
  "local_info i kp = \<lparr>r_id = ''relay-'' @ show_nat i, r_address = local_address i, r_public_key = keypair_public_key kp\<rparr>"

lemma local_port: "i < 44536 \<Longrightarrow> unat (sa_port (local_socket i)) = 20000 + i"
  using unat_of_nat_u16 [of "20000 + i"] by (simp add: local_socket_def)

lemma local_addr_ok: "i < 44536 \<Longrightarrow> local_addr i = Ok (local_socket i)"
  by (simp add: local_addr_def local_socket_def)

lemma local_address_eq: "i < 44536 \<Longrightarrow> local_address i = ''127.0.0.1:'' @ show_nat (20000 + i)"
  using local_port [of i] by (simp add: local_address_def socket_addr_to_string_def) (simp add: local_socket_def)

lemma mailbox_of_local:
  assumes "i < 44536"
  shows "mailbox_of (local_address i) = ''127.0.0.1:'' @ show_nat (21000 + i)"
    "socket_addr_to_string (lr_mailbox_addr (local_of i kp)) = mailbox_of (local_address i)"
proof -
  let ?a = "local_socket i"
  have p: "unat (sa_port ?a) + 1000 < 65536" using local_port [OF assms] assms by simp
  have m: "mailbox_addr False ?a = (Ok (?a\<lparr>sa_port := sa_port ?a + 1000\<rparr>) :: (socket_addr, unit) outcome)"
    by (simp add: mailbox_addr_def add_port_ok [OF p])
  have shown: "mailbox_of (local_address i) = socket_addr_to_string (?a\<lparr>sa_port := sa_port ?a + 1000\<rparr>)"
    by (simp add: mailbox_of_def local_address_def mailbox_address_from_eq m)
  then show "mailbox_of (local_address i) = ''127.0.0.1:'' @ show_nat (21000 + i)"
    using unat_add_port [OF p] local_port [OF assms]
    by (simp add: socket_addr_to_string_def) (simp add: local_socket_def)
  show "socket_addr_to_string (lr_mailbox_addr (local_of i kp)) = mailbox_of (local_address i)"
    unfolding shown by (simp add: local_of_def)
qed

text \<open>With more than 1000 local relays, a relay's own port is the mailbox port of another.\<close>

lemma local_ports_collide: "i + 1000 < 44536 \<Longrightarrow> local_address (i + 1000) = mailbox_of (local_address i)"
proof -
  assume i: "i + 1000 < 44536"
  have "20000 + (i + 1000) = 21000 + i" by simp
  then have "local_address (i + 1000) = ''127.0.0.1:'' @ show_nat (21000 + i)"
    by (simp only: local_address_eq [OF i])
  moreover have "mailbox_of (local_address i) = ''127.0.0.1:'' @ show_nat (21000 + i)"
    by (rule mailbox_of_local(1)) (use i in simp)
  ultimately show ?thesis by (simp only:)
qed

lemma spawn_relay_ok:
  assumes "i < 44536" "generate X r = (kp, r')"
  shows "spawn_relay X checks i r = (Ok (local_of i kp, local_info i kp), r')"
proof -
  have p: "unat (sa_port (local_socket i)) + 1000 < 65536" using local_port [OF assms(1)] assms(1) by simp
  show ?thesis
    by (simp add: spawn_relay_def local_addr_ok [OF assms(1)] assms(2) mailbox_addr_def add_port_ok [OF p] local_of_def local_info_def local_address_def Let_def)
qed

lemma spawn_relays_ok:
  assumes "dh_ok X" "\<forall>i \<in> set ns. i < 44536"
  shows "\<exists>kps r'. length kps = length ns \<and> (\<forall>kp \<in> set kps. keypair_wf X kp) \<and>
    (spawn_relays X checks ns t addrs started r :: (topology \<times> string list \<times> local_relay list, 'e) outcome \<times> 'r) =
      (Ok (foldl add_relay t (map2 local_info ns kps), addrs @ map (\<lambda>i. mailbox_of (local_address i)) ns,
         started @ map2 local_of ns kps), r')"
  using assms(2)
proof (induction ns arbitrary: t addrs started r)
  case Nil
  show ?case by (intro exI [of _ "[]"]) simp
next
  case (Cons i ns)
  obtain kp r1 where g: "generate X r = (kp, r1)" by fastforce
  have wf: "keypair_wf X kp" using generate_wf [OF assms(1), of r] g by simp
  have i: "i < 44536" "\<forall>i \<in> set ns. i < 44536" using Cons.prems by simp_all
  obtain kps r' where IH: "length kps = length ns" "\<forall>kp \<in> set kps. keypair_wf X kp"
      "(spawn_relays X checks ns (add_relay t (local_info i kp)) (addrs @ [mailbox_of (local_address i)])
         (started @ [local_of i kp]) r1 :: (topology \<times> string list \<times> local_relay list, 'e) outcome \<times> 'r) =
      (Ok (foldl add_relay (add_relay t (local_info i kp)) (map2 local_info ns kps),
         (addrs @ [mailbox_of (local_address i)]) @ map (\<lambda>i. mailbox_of (local_address i)) ns,
         (started @ [local_of i kp]) @ map2 local_of ns kps), r')"
    using Cons.IH [OF i(2)] by blast
  show ?case
    using IH wf mailbox_of_local(2) [OF i(1), of kp]
    by (intro exI [of _ "kp # kps"] exI [of _ r']) (simp add: spawn_relay_ok [OF i(1) g])
qed

text \<open>What the started relays give: a fabric, a topology whose keys they hold, and mailboxes.\<close>

definition local_map :: "nat \<Rightarrow> (nat \<Rightarrow> 'a) \<Rightarrow> string \<Rightarrow> 'a option" where
  "local_map n g = map_of (map (\<lambda>i. (local_address i, g i)) [0..<n])"

definition local_keys :: "keypair list \<Rightarrow> string \<Rightarrow> keypair option" where
  "local_keys kps = local_map (length kps) (nth kps)"

definition local_configs :: "nat \<Rightarrow> string \<Rightarrow> relay_config" where
  "local_configs n a = the (local_map n (\<lambda>i. local_config (local_socket i) (''relay-'' @ show_nat i)) a)"

lemma local_address_inject: "i < 44536 \<Longrightarrow> j < 44536 \<Longrightarrow> local_address i = local_address j \<longleftrightarrow> i = j"
  by (simp add: local_address_eq show_nat_inject)

lemma local_addresses_distinct: "n \<le> 44536 \<Longrightarrow> distinct (map local_address [0..<n])"
  by (auto simp: distinct_map inj_on_def local_address_inject)

lemma mailbox_of_inj: "n \<le> 44536 \<Longrightarrow> inj_on mailbox_of (set (map local_address [0..<n]))"
  by (auto simp: inj_on_def mailbox_of_local show_nat_inject)

lemma local_map_at: "n \<le> 44536 \<Longrightarrow> i < n \<Longrightarrow> local_map n g (local_address i) = Some (g i)"
  unfolding local_map_def using local_addresses_distinct [of n]
  by (intro map_of_is_SomeI) (auto simp: comp_def)

lemma local_map_dom: "dom (local_map n g) = set (map local_address [0..<n])"
  by (auto simp: local_map_def dom_map_of_conv_image_fst image_image)

lemma local_map_option:
  assumes "n \<le> 44536"
  shows "local_map n (\<lambda>i. f (local_address i) (g i)) a = map_option (f a) (local_map n g a)"
proof (cases "a \<in> set (map local_address [0..<n])")
  case True
  then obtain i where "i < n" "a = local_address i" by auto
  then show ?thesis by (simp add: local_map_at [OF assms])
next
  case False
  then show ?thesis using False local_map_dom [of n g] local_map_dom [of n "\<lambda>i. f (local_address i) (g i)"]
    by (metis domIff option.simps(8))
qed

lemma map2_upt: "map2 f [0..<length ys] ys = map (\<lambda>i. f i (ys ! i)) [0..<length ys]"
  by (rule nth_equalityI) simp_all

lemma start_world_fabric:
  assumes "length kps \<le> 44536"
  shows "w_fabric (start_world (map2 local_of [0..<length kps] kps) w) =
    limited_start (local_keys kps) (local_configs (length kps)) []"
proof -
  let ?n = "length kps"
  have "map_of (map (\<lambda>l. (i_main_addr (lr_identity l), lr_node l)) (map2 local_of [0..<?n] kps)) =
      local_map ?n (\<lambda>i. node_new (local_configs ?n (local_address i)) (kps ! i))"
    unfolding map2_upt local_map_def
    by (rule arg_cong [of _ _ map_of])
      (simp add: local_of_def local_configs_def local_map_at [OF assms])
  also have "\<dots> = (\<lambda>a. map_option (node_new (local_configs ?n a)) (local_keys kps a))"
    unfolding local_keys_def by (rule ext) (rule local_map_option [OF assms])
  finally show ?thesis
    by (simp add: start_world_def limited_start_def fabric_start_def)
qed

lemma start_world_ids:
  assumes "length kps \<le> 44536" "a \<in> set (map local_address [0..<length kps])"
  shows "w_ids (start_world (map2 local_of [0..<length kps] kps) w) (mailbox_of a) \<noteq> None"
proof -
  let ?l = "map2 local_of [0..<length kps] kps"
  obtain i where i: "i < length kps" "a = local_address i" using assms(2) by auto
  have "local_of i (kps ! i) \<in> set ?l" unfolding map2_upt using i(1) by auto
  moreover have "socket_addr_to_string (lr_mailbox_addr (local_of i (kps ! i))) = mailbox_of a"
    using mailbox_of_local(2) [of i "kps ! i"] i assms(1) by simp
  ultimately have "mailbox_of a \<in> fst ` set (map (\<lambda>l. (socket_addr_to_string (lr_mailbox_addr l), lr_identity l)) ?l)"
    by force
  then show ?thesis by (simp add: start_world_def map_of_eq_None_iff)
qed

lemma local_topology:
  assumes "length kps \<le> 44536" "\<forall>kp \<in> set kps. keypair_wf X kp"
  defines "t \<equiv> foldl add_relay topology_new (map2 local_info [0..<length kps] kps)"
  shows "topology_inv t" "topology_len t = length kps" "relays_ready X (local_keys kps) t"
proof -
  let ?vs = "map2 local_info [0..<length kps] kps"
  have t: "t = topo.add_all topology_new ?vs" by (simp add: t_def topo.add_all_def)
  have vs: "?vs = map (\<lambda>i. local_info i (kps ! i)) [0..<length kps]" by (rule map2_upt)
  show "topology_inv t" unfolding t by (intro topo.inv_add_all topology_inv_new)
  have "r_id ` set ?vs = (\<lambda>i. ''relay-'' @ show_nat i) ` {..<length kps}"
    unfolding vs by (force simp: local_info_def)
  moreover have "inj (\<lambda>i. ''relay-'' @ show_nat i)" by (simp add: inj_def show_nat_inject)
  ultimately show "topology_len t = length kps"
    unfolding t by (simp add: topo.size_add_all card_image inj_on_subset)
  show "relays_ready X (local_keys kps) t"
    unfolding relays_ready_def
  proof (intro allI impI)
    fix k p
    assume "topology_get t k = Some p"
    then have "p \<in> set ?vs" unfolding t by (rule topo.get_add_all_mem)
    then obtain i where i: "i < length kps" "p = local_info i (kps ! i)" unfolding vs by auto
    have "ascii (local_address i)"
      using ascii_show_nat [of "20000 + i"] i(1) assms(1) by (simp add: local_address_eq ascii_def)
    moreover have "length (local_address i) < 65536"
    proof -
      have "length (show_nat (20000 + i)) \<le> 5" using show_nat_length [of "20000 + i" 4] i(1) assms(1) by simp
      then show ?thesis using i(1) assms(1) by (simp add: local_address_eq)
    qed
    ultimately show "valid_str (r_address p) \<and> length (r_address p) < 65536 \<and>
        (\<exists>kp. local_keys kps (r_address p) = Some kp \<and> keypair_wf X kp \<and> public kp = r_public_key p)"
      using i assms(1,2) local_map_at [of "length kps" i "nth kps"]
      by (simp add: local_info_def local_keys_def keypair_public_key_def ascii_valid_str)
  qed
qed

section \<open>Properties\<close>

lemma chunks_nonempty: "message \<noteq> [] \<Longrightarrow> mset ps = mset (chunks PAYLOAD_CAPACITY (as_bytes message)) \<Longrightarrow> ps \<noteq> []"
proof -
  assume m: "message \<noteq> []" and ps: "mset ps = mset (chunks PAYLOAD_CAPACITY (as_bytes message))"
  have "concat (chunks PAYLOAD_CAPACITY (as_bytes message)) = as_bytes message"
    by (rule concat_chunks) (simp add: PAYLOAD_CAPACITY_eq)
  then have "chunks PAYLOAD_CAPACITY (as_bytes message) \<noteq> []"
    using m by (metis as_bytes_eq_Nil concat.simps(1))
  with ps show "ps \<noteq> []" by auto
qed

lemma report_delivered:
  assumes "message \<noteq> []" "mset (map payload_of cs) = mset (chunks PAYLOAD_CAPACITY (as_bytes message))"
  shows "report cs = (0, map payload_of cs)"
  using chunks_nonempty [OF assms] by (auto simp: report_def)


definition empty_world :: world where
  "empty_world = \<lparr>w_fabric = limited_start Map.empty sample_config [], w_ids = Map.empty, w_mail = (\<lambda>_. mailbox_new)\<rparr>"


lemma mailbox_addresses_all:
  assumes "\<forall>p \<in> set ps. mailbox_address_from checks (r_address p) = (Ok (M (r_address p)) :: (string, 'e) outcome)"
  shows "mailbox_addresses checks ps = (Ok (map M (map r_address ps)) :: (string list, 'e) outcome)"
  using assms by (induction ps) simp_all


text \<open>A fleet of one sample relay.\<close>

lemma sample_topology_all: "topology_all demo (sample_fleet [1]) = [fst (sample_relay 1)]"
proof -
  have "length (topology_all demo (sample_fleet [1])) = 1"
    using length_topology_all [OF demo_order_ok, of "sample_fleet [1]"] sample_fleet_len [of "[1]"] by simp
  then obtain p where p: "topology_all demo (sample_fleet [1]) = [p]" by (auto simp: length_Suc_conv)
  then have "topology_get (sample_fleet [1]) (r_id p) = Some p"
    using topology_all_spec(2) [OF demo_order_ok sample_fleet_inv, of p "[1]"] by simp
  then have "p \<in> set (map (fst \<circ> sample_relay) [1])"
    unfolding sample_fleet_def topo.add_all_def [symmetric] by (rule topo.get_add_all_mem)
  with p show ?thesis by simp
qed

lemma sample_mailbox:
  "mailbox_address_from checks (r_address (fst (sample_relay n))) = Ok (mailbox_of (r_address (fst (sample_relay n))))"
proof -
  let ?a = "\<lparr>sa_host = ''10.0.'' @ show_nat n @ ''.1'', sa_port = 9001\<rparr>"
  have a: "r_address (fst (sample_relay n)) = socket_addr_to_string ?a"
  proof -
    have "digit_char 9 = CHR ''9''" "digit_char 0 = CHR ''0''" "digit_char 1 = CHR ''1''"
      by (simp_all add: digit_char_def char_of_def bit_iff_odd)
    then have "show_nat 9001 = ''9001''" by (simp add: show_nat.simps)
    then show ?thesis by (simp add: sample_relay_def Let_def socket_addr_to_string_def)
  qed
  have "mailbox_addr c ?a = Ok (?a\<lparr>sa_port := 10001\<rparr>)" for c by (simp add: mailbox_addr_def add_port_def)
  then show ?thesis by (simp add: a mailbox_of_def mailbox_address_from_eq mailbox_addr_def add_port_def)
qed


end
