(* ===== verification/Mailbox_Server.thy ===== *)
theory Mailbox_Server
  imports Relay_Main
begin

text \<open>
  The mailbox side of a running relay: the delivery channel, the task of \<open>main.rs\<close> that moves
  delivered cells into the mailbox, and the accept loop \<open>serve\<close> of \<open>pull_listener.rs\<close>, whose
  tasks answer one request each. Their steps interleave in any order. A task that answers a pull
  drains the mailbox under its lock and then uses only its own connection, so one step covers it.
  A connection may carry any request bytes and may break after any number of answered bytes.
\<close>

section \<open>Definitions\<close>

text \<open>What was delivered and what was answered is kept for the statements only: a request, the
  bytes its connection took at most, and the bytes sent.\<close>

record mailbox_server =
  ms_channel :: "bytes list"
  ms_mailbox :: mailbox
  ms_identity :: relay_identity
  ms_delivered :: "bytes list"
  ms_answers :: "(bytes \<times> nat \<times> bytes) list"

inductive server_step :: "mailbox_server \<Rightarrow> mailbox_server \<Rightarrow> bool" where
  deliver: "server_step S (S\<lparr>ms_channel := ms_channel S @ [b], ms_delivered := ms_delivered S @ [b]\<rparr>)"
| recv: "ms_channel S = b # bs \<Longrightarrow>
    server_step S (S\<lparr>ms_channel := bs, ms_mailbox := pump [b] (ms_mailbox S)\<rparr>)"
| serve: "answer (ms_mailbox S) (ms_identity S) n request = (sent, mb) \<Longrightarrow>
    server_step S (S\<lparr>ms_mailbox := mb, ms_answers := ms_answers S @ [(request, n, sent)]\<rparr>)"

inductive_cases server_stepE: "server_step S T"

definition server_start :: "relay_identity \<Rightarrow> mailbox_server" where
  "server_start i = \<lparr>ms_channel = [], ms_mailbox = mailbox_new, ms_identity = i, ms_delivered = [], ms_answers = []\<rparr>"

definition asks_pull :: "bytes \<Rightarrow> bool" where
  "asks_pull request \<longleftrightarrow> take 1 request = [PULL_REQUEST_BYTE]"

section \<open>Lemmas\<close>

lemma answer_any:
  "answer mb i n request =
     (if asks_pull request then (take n (pull_message (queue mb)), mb\<lparr>queue := []\<rparr>)
      else (fst (answer mb i n request), mb))"
proof (cases request)
  case Nil
  then show ?thesis by (simp add: asks_pull_def answer_def handle_request_def read_from_def read_exact_def)
next
  case (Cons b rest)
  have "outgoing (snd (then_st (write_all (u32_to_be_bytes (of_nat (length (queue mb))))) (\<lambda>_. write_cells (queue mb))
      \<lparr>incoming = rest, room = n, outgoing = []\<rparr>)) = take n (pull_message (queue mb))"
    using writes_result [OF writes_pull [of "queue mb"], of "\<lparr>incoming = rest, room = n, outgoing = []\<rparr>"] by simp
  then show ?thesis
    by (auto simp: Cons asks_pull_def answer_def handle_request_def read_from_def read_exact_def mailbox_drain_def
        split: prod.splits)
qed

text \<open>The batches of the answers so far, what is queued and what is in the channel are what was
  delivered.\<close>

definition batch_for :: "bytes list \<Rightarrow> bytes \<times> nat \<times> bytes \<Rightarrow> bool" where
  "batch_for cells = (\<lambda>(request, n, sent).
     if asks_pull request then sent = take n (pull_message cells) else cells = [])"

definition server_inv :: "mailbox_server \<Rightarrow> bool" where
  "server_inv S \<longleftrightarrow> (\<exists>batches. list_all2 batch_for batches (ms_answers S) \<and>
     concat batches @ queue (ms_mailbox S) @ ms_channel S = ms_delivered S)"

lemma server_inv_step:
  assumes "server_step S T" "server_inv S"
  shows "server_inv T"
proof -
  obtain batches where b: "list_all2 batch_for batches (ms_answers S)"
      "concat batches @ queue (ms_mailbox S) @ ms_channel S = ms_delivered S"
    using assms(2) by (auto simp: server_inv_def)
  from assms(1) show ?thesis
  proof (rule server_stepE)
    fix x
    assume "T = S\<lparr>ms_channel := ms_channel S @ [x], ms_delivered := ms_delivered S @ [x]\<rparr>"
    then show ?thesis using b unfolding server_inv_def by (intro exI [of _ batches]) (simp flip: append_assoc)
  next
    fix x bs
    assume "T = S\<lparr>ms_channel := bs, ms_mailbox := mailbox_push x (ms_mailbox S)\<rparr>" "ms_channel S = x # bs"
    then show ?thesis using b unfolding server_inv_def by (intro exI [of _ batches]) (simp add: mailbox_push_def)
  next
    fix n request sent mb
    assume T: "T = S\<lparr>ms_mailbox := mb, ms_answers := ms_answers S @ [(request, n, sent)]\<rparr>"
      and a: "answer (ms_mailbox S) (ms_identity S) n request = (sent, mb)"
    let ?batch = "if asks_pull request then queue (ms_mailbox S) else []"
    have "batch_for ?batch (request, n, sent)" "?batch @ queue mb = queue (ms_mailbox S)"
      using answer_any [of "ms_mailbox S" "ms_identity S" n request] unfolding a
      by (auto simp: batch_for_def split: if_splits)
    with b T show ?thesis unfolding server_inv_def
      by (intro exI [of _ "batches @ [?batch]"]) (auto intro: list_all2_appendI)
  qed
qed

interpretation server_runs: step_invariant server_step server_inv
  by unfold_locales (rule server_inv_step)

lemma server_inv_start: "server_inv (server_start i)"
  by (simp add: server_inv_def server_start_def mailbox_new_def)

section \<open>Properties\<close>

text \<open>Whatever the interleaving of deliveries, of the task that fills the mailbox and of the
  requests of any number of clients, every cell a relay delivers is handed to exactly one pull, in
  the order of delivery, or is still queued: the answers to the pulls carry disjoint consecutive
  batches, as far as their connections hold, and requests of other kinds carry none.\<close>

lemma server_hands_out_once:
  assumes "server_step\<^sup>*\<^sup>* (server_start i) S"
  shows "\<exists>batches. length batches = length (ms_answers S) \<and>
    concat batches @ queue (ms_mailbox S) @ ms_channel S = ms_delivered S \<and>
    (\<forall>k < length batches. \<forall>request n sent. ms_answers S ! k = (request, n, sent) \<longrightarrow>
       (if asks_pull request then sent = take n (pull_message (batches ! k)) else batches ! k = []))"
proof -
  obtain batches where b: "list_all2 batch_for batches (ms_answers S)"
      "concat batches @ queue (ms_mailbox S) @ ms_channel S = ms_delivered S"
    using server_runs.inv_run [OF assms server_inv_start] by (auto simp: server_inv_def)
  from list_all2_nthD [OF b(1)] have "\<forall>k < length batches. batch_for (batches ! k) (ms_answers S ! k)" by blast
  then show ?thesis
    using b(2) list_all2_lengthD [OF b(1)] by (intro exI [of _ batches]) (auto simp: batch_for_def)
qed

end
