(* ===== verification/Relay_Process.thy ===== *)
theory Relay_Process
  imports Mailbox_Server
begin

text \<open>
  The running \<open>veil-relay\<close> program, \<open>main\<close> of \<open>crates/veil-relay/src/main.rs\<close> from end to end: after
  its start-up the accept loop with its connection tasks (\<open>relay_step\<close>), the task that fills the
  mailbox, the mailbox listener with its request tasks, and the task that logs the counters every
  30 seconds, all interleaved. \<open>Metrics::snapshot\<close> loads the four counters one after the other, so
  other tasks may run in between. An error of \<open>accept\<close> ends the program; one of the mailbox
  listener ends only that listener. The program refines the mailbox server of \<open>Mailbox_Server\<close>.
\<close>

section \<open>Definitions\<close>

text \<open>\<open>rp_listening\<close> says whether the mailbox listener runs, \<open>rp_loaded\<close> are the counters the snapshot
  in progress has loaded, \<open>rp_exit\<close> is the result of \<open>main\<close> once it has returned, \<open>rp_answers\<close> is for
  the statements only.\<close>

record 'w relay_process =
  rp_system :: "'w relay_system"
  rp_mailbox :: mailbox
  rp_identity :: relay_identity
  rp_listening :: bool
  rp_loaded :: "u64 list"
  rp_log :: "metrics list"
  rp_exit :: "(unit, boot_error) outcome option"
  rp_answers :: "(bytes \<times> nat \<times> bytes) list"

definition counters_of :: "metrics \<Rightarrow> u64 list" where
  "counters_of m = [cells_forwarded m, cells_delivered m, decrypt_failures m, connections_rejected m]"

abbreviation rp_node :: "'w relay_process \<Rightarrow> relay_node" where
  "rp_node P \<equiv> sys_node (rp_system P)"

inductive process_step :: "'r externals \<Rightarrow> 'w net \<Rightarrow> 'w relay_process \<Rightarrow> 'w relay_process \<Rightarrow> bool"
  for X :: "'r externals" and N :: "'w net" where
  relay: "rp_exit P = None \<Longrightarrow> relay_step X N (rp_system P) S \<Longrightarrow> process_step X N P (P\<lparr>rp_system := S\<rparr>)"
| accept_error: "rp_exit P = None \<Longrightarrow> process_step X N P (P\<lparr>rp_exit := Some (Err (BootRelay (Io e)))\<rparr>)"
| recv: "rp_exit P = None \<Longrightarrow> delivery (rp_node P) = b # bs \<Longrightarrow>
    process_step X N P (P\<lparr>rp_system := (rp_system P)\<lparr>sys_node := (rp_node P)\<lparr>delivery := bs\<rparr>\<rparr>,
      rp_mailbox := pump [b] (rp_mailbox P)\<rparr>)"
| serve: "rp_exit P = None \<Longrightarrow> rp_listening P \<Longrightarrow> answer (rp_mailbox P) (rp_identity P) n request = (sent, mb) \<Longrightarrow>
    process_step X N P (P\<lparr>rp_mailbox := mb, rp_answers := rp_answers P @ [(request, n, sent)]\<rparr>)"
| serve_error: "rp_exit P = None \<Longrightarrow> process_step X N P (P\<lparr>rp_listening := False\<rparr>)"
| load: "rp_exit P = None \<Longrightarrow> length (rp_loaded P) < 4 \<Longrightarrow>
    process_step X N P (P\<lparr>rp_loaded := rp_loaded P @ [counters_of (node_metrics (rp_node P)) ! length (rp_loaded P)]\<rparr>)"
| log: "rp_exit P = None \<Longrightarrow> rp_loaded P = [f, d, u, c] \<Longrightarrow>
    process_step X N P (P\<lparr>rp_loaded := [], rp_log := rp_log P @
      [\<lparr>cells_forwarded = f, cells_delivered = d, decrypt_failures = u, connections_rejected = c\<rparr>]\<rparr>)"

inductive_cases process_stepE: "process_step X N P Q"

definition process_start :: "relay_boot \<Rightarrow> bool \<Rightarrow> 'w \<Rightarrow> 'w relay_process" where
  "process_start b listening w = \<lparr>rp_system = \<lparr>sys_node = boot_node b, sys_net = w, sys_conns = [], sys_frames = [],
       sys_aborted = 0, sys_refused = 0\<rparr>,
     rp_mailbox = mailbox_new, rp_identity = boot_identity b, rp_listening = listening, rp_loaded = [], rp_log = [],
     rp_exit = None, rp_answers = []\<rparr>"

text \<open>\<open>main\<close>: a relay that cannot bind its own address ends with the error; one that cannot bind its
  mailbox address runs without the listener.\<close>

definition relay_main :: "'r externals \<Rightarrow> bool \<Rightarrow> (string \<Rightarrow> (relay_config, relay_error) outcome)
    \<Rightarrow> (socket_addr \<Rightarrow> (unit, io_error) outcome) \<Rightarrow> string list \<Rightarrow> 'r \<Rightarrow> 'w
    \<Rightarrow> ('w relay_process, boot_error) outcome \<times> 'r" where
  "relay_main X overflow_checks load bind args r w =
     (let (booted, r) = boot X overflow_checks load args r
      in (and_then booted (\<lambda>b.
            and_then (map_err (\<lambda>e. BootRelay (Io e)) (bind (listen_addr (node_config (boot_node b))))) (\<lambda>_.
              Ok (process_start b (is_ok (bind (boot_mailbox_addr b))) w))), r))"

section \<open>Lemmas\<close>

text \<open>The loads of a snapshot with nothing in between are \<open>snapshot\<close>.\<close>

lemma snapshot_counters: "snapshot m = snapshot m' \<longleftrightarrow> counters_of m = counters_of m'"
  by (simp add: snapshot_def counters_of_def)

text \<open>The mailbox server a relay process implements: its deliveries are the bodies of the frames
  it read.\<close>

definition server_of :: "'r externals \<Rightarrow> keypair \<Rightarrow> 'w relay_process \<Rightarrow> mailbox_server" where
  "server_of X kp P = \<lparr>ms_channel = delivery (rp_node P), ms_mailbox = rp_mailbox P, ms_identity = rp_identity P,
     ms_delivered = deliveries X kp (sys_frames (rp_system P)), ms_answers = rp_answers P\<rparr>"

text \<open>The values loaded for the delivery counter, in order, are past numbers of deliveries.\<close>

definition delivered_loads :: "'w relay_process \<Rightarrow> u64 list" where
  "delivered_loads P = map cells_delivered (rp_log P) @ (if 1 < length (rp_loaded P) then [rp_loaded P ! 1] else [])"

definition process_inv :: "'r externals \<Rightarrow> relay_config \<Rightarrow> keypair \<Rightarrow> 'w relay_process \<Rightarrow> bool" where
  "process_inv X cfg kp P \<longleftrightarrow> (\<exists>taken. relay_inv X cfg kp taken (rp_system P)) \<and> length (rp_loaded P) \<le> 4 \<and>
     (\<exists>ns. delivered_loads P = map of_nat ns \<and> sorted ns \<and>
        (\<forall>n \<in> set ns. n \<le> length (deliveries X kp (sys_frames (rp_system P)))))"

lemma relay_step_frames:
  assumes "relay_step X N S T" "relay_inv X cfg kp taken S"
  obtains fs where "sys_frames T = sys_frames S @ fs" "delivery (sys_node T) = delivery (sys_node S) @ deliveries X kp fs"
proof -
  have "\<exists>fs. sys_frames T = sys_frames S @ fs" using assms(1) by cases auto
  then obtain fs where fs: "sys_frames T = sys_frames S @ fs" by blast
  have "taken @ delivery (sys_node T) = taken @ delivery (sys_node S) @ deliveries X kp fs"
    using assms(2) relay_inv_step [OF assms] by (simp add: relay_inv_def fs deliveries_append)
  with that fs show ?thesis by simp
qed

lemma process_inv_step:
  assumes "process_step X N P Q" "process_inv X cfg kp P"
  shows "process_inv X cfg kp Q"
proof -
  obtain taken ns where i: "relay_inv X cfg kp taken (rp_system P)" "length (rp_loaded P) \<le> 4"
      "delivered_loads P = map of_nat ns" "sorted ns"
      "\<forall>n \<in> set ns. n \<le> length (deliveries X kp (sys_frames (rp_system P)))"
    using assms(2) by (auto simp: process_inv_def)
  from assms(1) show ?thesis
  proof cases
    case (relay S)
    from relay_step_frames [OF relay(3) i(1)] obtain fs where "sys_frames S = sys_frames (rp_system P) @ fs" by blast
    then have "\<forall>n \<in> set ns. n \<le> length (deliveries X kp (sys_frames S))" using i(5) by (auto simp: deliveries_append)
    with relay i relay_inv_step [OF relay(3) i(1)] show ?thesis by (auto simp: process_inv_def delivered_loads_def)
  next
    case (recv b bs)
    then have "relay_inv X cfg kp (taken @ [b]) (rp_system Q)"
      using i(1) by (simp add: relay_inv_def tallies_def)
    with recv i show ?thesis by (auto simp: process_inv_def delivered_loads_def)
  next
    case load
    let ?n = "length (deliveries X kp (sys_frames (rp_system P)))"
    have "cells_delivered (node_metrics (rp_node P)) = of_nat ?n"
      using i(1) by (simp add: relay_inv_def tallies_def node_new_def metrics_default_def)
    then have "delivered_loads Q = map of_nat (if length (rp_loaded P) = 1 then ns @ [?n] else ns)"
        (is "_ = map _ ?ms")
      using i(3) load by (cases "rp_loaded P"; cases "tl (rp_loaded P)") (auto simp: delivered_loads_def counters_of_def)
    moreover have "sorted ?ms" "\<forall>n \<in> set ?ms. n \<le> ?n" using i(4,5) by (auto simp: sorted_append)
    moreover have "rp_system Q = rp_system P" "length (rp_loaded Q) \<le> 4" using load by simp_all
    ultimately show ?thesis using i(1) unfolding process_inv_def by metis
  qed (use assms(2) in \<open>auto simp: process_inv_def delivered_loads_def\<close>)
qed

lemma process_refines_server:
  assumes "process_step X N P Q" "process_inv X cfg kp P"
  shows "server_step\<^sup>*\<^sup>* (server_of X kp P) (server_of X kp Q)"
proof -
  obtain taken where i: "relay_inv X cfg kp taken (rp_system P)" using assms(2) by (auto simp: process_inv_def)
  have many: "server_step\<^sup>*\<^sup>* S (S\<lparr>ms_channel := ms_channel S @ bs, ms_delivered := ms_delivered S @ bs\<rparr>)" for S bs
  proof (induction bs arbitrary: S)
    case (Cons b bs)
    let ?S = "S\<lparr>ms_channel := ms_channel S @ [b], ms_delivered := ms_delivered S @ [b]\<rparr>"
    have "server_step S ?S" by (rule server_step.deliver)
    with Cons.IH [of ?S] show ?case by (simp add: converse_rtranclp_into_rtranclp)
  qed simp
  from assms(1) show ?thesis
  proof cases
    case (relay S)
    obtain fs where "sys_frames S = sys_frames (rp_system P) @ fs"
        "delivery (sys_node S) = delivery (rp_node P) @ deliveries X kp fs"
      by (rule relay_step_frames [OF relay(3) i])
    with many [of "server_of X kp P" "deliveries X kp fs"] relay show ?thesis
      by (simp add: server_of_def deliveries_append)
  next
    case (recv b bs)
    with server_step.recv [of "server_of X kp P" b bs] show ?thesis by (auto simp: server_of_def)
  next
    case (serve n request sent mb)
    with server_step.serve [of "server_of X kp P" n request sent mb] show ?thesis by (auto simp: server_of_def)
  qed (simp_all add: server_of_def)
qed

interpretation relay_program: forward_simulation "process_step X N" "process_inv X cfg kp" server_step "server_of X kp"
  for X N cfg kp
  by unfold_locales (rule process_inv_step process_refines_server; assumption)+

text \<open>An error of \<open>accept\<close>, as when the process has no file descriptors left, ends the program at any
  moment, and what is in the mailbox then is never handed out.\<close>

lemma accept_error_ends_relay:
  assumes "rp_exit P = None"
  shows "\<exists>Q. process_step X N P Q \<and> rp_mailbox Q = rp_mailbox P \<and> (\<forall>R. (process_step X N)\<^sup>*\<^sup>* Q R \<longrightarrow> R = Q)"
proof -
  let ?Q = "P\<lparr>rp_exit := Some (Err (BootRelay (Io ConnectionFailed)))\<rparr>"
  have stuck: "\<not> process_step X N ?Q R" for R by (auto elim: process_stepE)
  have "process_step X N P ?Q" by (rule process_step.accept_error [OF assms])
  moreover have "R = ?Q" if "(process_step X N)\<^sup>*\<^sup>* ?Q R" for R
    using that stuck by (auto elim: converse_rtranclpE)
  ultimately show ?thesis by fastforce
qed

lemma boot_node_new:
  assumes "boot X checks load args r = (Ok b, r')"
  obtains cfg kp where "boot_node b = node_new cfg kp" "i_id (boot_identity b) = relay_id cfg"
    "i_public_key (boot_identity b) = keypair_public_key kp" "i_main_addr (boot_identity b) = socket_addr_to_string (listen_addr cfg)"
  using assms that unfolding boot_def Let_def
  by (auto simp: outcome_simps split: outcome.splits option.splits prod.splits)

lemma process_inv_start:
  assumes "boot_node b = node_new cfg kp"
  shows "process_inv X cfg kp (process_start b listening w)"
proof -
  have "rp_system (process_start b listening w) = relay_start cfg kp w"
    by (simp add: process_start_def relay_start_def assms)
  with relay_inv_start [of X cfg kp w] show ?thesis
    by (auto simp: process_inv_def delivered_loads_def process_start_def)
qed

lemma server_step_identity: "server_step S T \<Longrightarrow> ms_identity T = ms_identity S"
  by (cases rule: server_step.cases) auto

lemma relay_main_Ok:
  assumes "relay_main X checks load bind args r w = (Ok P, r')"
  obtains b listening cfg kp where "P = process_start b listening w" "boot_node b = node_new cfg kp"
    "i_public_key (boot_identity b) = keypair_public_key kp"
proof -
  obtain res r1 where boot: "boot X checks load args r = (res, r1)" by fastforce
  then obtain b listening where b: "res = Ok b" "P = process_start b listening w"
    using assms by (cases res) (auto simp: relay_main_def outcome_simps split: outcome.splits)
  from boot_node_new [OF boot [unfolded b(1)]] b(2) that show ?thesis by metis
qed

section \<open>Properties\<close>

text \<open>C4. Started from any configuration it accepts, and whatever the interleaving of its connections,
  of the task that fills the mailbox, of the requests of any number of clients, of failing
  listeners and of the logging of counters, the relay program serves each cell once: the bodies of
  the frames it read that were for it are, in order, those handed out by the answers to pulls, in
  disjoint consecutive batches as far as their connections held, those in the mailbox, and those
  about to be moved there; requests of other kinds carry none. The published key is the one it
  peels with, and each logged number of deliveries was the true one, modulo 2^64, at some moment
  not before that of the previous entry.\<close>

theorem relay_program_serves_once:
  assumes "relay_main X checks load bind args r w = (Ok P\<^sub>0, r')" "(process_step X N)\<^sup>*\<^sup>* P\<^sub>0 P"
  shows "\<exists>batches ns. length batches = length (rp_answers P) \<and>
    concat batches @ queue (rp_mailbox P) @ delivery (rp_node P) =
      deliveries X (node_keypair (rp_node P)) (sys_frames (rp_system P)) \<and>
    (\<forall>k < length batches. \<forall>request n sent. rp_answers P ! k = (request, n, sent) \<longrightarrow>
       (if asks_pull request then sent = take n (pull_message (batches ! k)) else batches ! k = [])) \<and>
    i_public_key (rp_identity P) = keypair_public_key (node_keypair (rp_node P)) \<and>
    map cells_delivered (rp_log P) = map of_nat ns \<and> sorted ns \<and>
    (\<forall>n \<in> set ns. n \<le> length (deliveries X (node_keypair (rp_node P)) (sys_frames (rp_system P))))"
proof -
  obtain b listening cfg kp where b: "P\<^sub>0 = process_start b listening w" "boot_node b = node_new cfg kp"
      "i_public_key (boot_identity b) = keypair_public_key kp"
    by (rule relay_main_Ok [OF assms(1)])
  note start = process_inv_start [OF b(2), of X listening w]
  note run = assms(2) [unfolded b(1)]
  obtain ns ms where inv: "node_keypair (rp_node P) = kp" "map cells_delivered (rp_log P) @ ms = map of_nat ns" "sorted ns"
      "\<forall>n \<in> set ns. n \<le> length (deliveries X kp (sys_frames (rp_system P)))"
    using relay_program.inv_run [OF run start]
    by (auto simp: process_inv_def relay_inv_def delivered_loads_def simp del: map_append)
  have "server_inv (server_of X kp P) \<and> ms_identity (server_of X kp P) = boot_identity b"
  proof (rule relay_program.spec_invariant [OF run start])
    show "server_inv (server_of X kp (process_start b listening w)) \<and>
        ms_identity (server_of X kp (process_start b listening w)) = boot_identity b"
      by (simp add: server_of_def process_start_def b(2) node_new_def server_inv_def mailbox_new_def)
  qed (use server_inv_step server_step_identity in auto)
  then obtain batches where s: "list_all2 batch_for batches (rp_answers P)" "rp_identity P = boot_identity b"
      "concat batches @ queue (rp_mailbox P) @ delivery (rp_node P) = deliveries X kp (sys_frames (rp_system P))"
    by (auto simp: server_inv_def server_of_def)
  have "map cells_delivered (rp_log P) = map of_nat (take (length (rp_log P)) ns)"
    using arg_cong [OF inv(2), of "take (length (rp_log P))"] by (simp add: take_map)
  moreover have "sorted (take (length (rp_log P)) ns)"
      "\<forall>n \<in> set (take (length (rp_log P)) ns). n \<le> length (deliveries X kp (sys_frames (rp_system P)))"
    using inv(3,4) by (auto simp: sorted_wrt_take dest: in_set_takeD)
  moreover have "\<forall>k < length batches. batch_for (batches ! k) (rp_answers P ! k)"
    using list_all2_nthD [OF s(1)] by blast
  ultimately show ?thesis
    using s(2,3) b(3) list_all2_lengthD [OF s(1)] unfolding inv(1)
    by (intro exI [of _ batches] exI [of _ "take (length (rp_log P)) ns"]) (auto simp: batch_for_def)
qed

text \<open>A relay that was sent one cell, moved it into the mailbox and answered one pull.\<close>

lemma sample_process_run:
  assumes kp: "boot_node b = node_new cfg kp" "0 < max_connections cfg"
    and frame: "peel_onion_layer X kp frame = Ok (Deliver cell)" "length frame < 4294967296"
  shows "\<exists>P sent. (process_step X N)\<^sup>*\<^sup>* (process_start b True w) P \<and> sys_frames (rp_system P) = [frame] \<and>
    rp_answers P = [([PULL_REQUEST_BYTE], n, sent)] \<and> queue (rp_mailbox P) = [] \<and> delivery (rp_node P) = [] \<and>
    node_keypair (rp_node P) = kp"
proof -
  let ?A = "process_start b True w"
  obtain n1 where n1: "accept_connection (node_new cfg kp) = (True, n1)" "node_keypair n1 = kp" "delivery n1 = []" "delivery_open n1"
    using kp(2) by (simp add: accept_connection_def node_new_def)
  let ?B = "?A\<lparr>rp_system := (rp_system ?A)\<lparr>sys_node := n1, sys_conns := sys_conns (rp_system ?A) @ [write_frame frame]\<rparr>\<rparr>"
  have ab: "process_step X N ?A ?B"
    by (intro process_step.relay relay_step.accepted) (simp_all add: process_start_def kp(1) n1)
  have rd: "read_frame (write_frame frame) = Ok (frame, [])" using read_write_frame [OF frame(2), of "[]"] by simp
  let ?m = "count_delivered (send_delivery cell n1)"
  have p: "process_frame X N frame (n1, w) = (Ok (), ?m, w)" using frame(1) n1(2) by (simp add: process_frame_def)
  then have cs: "connection_step X N (write_frame frame) (n1, w) = (Continue [], ?m, w)"
    by (simp add: connection_step_eq rd)
  let ?C = "?B\<lparr>rp_system := (rp_system ?B)\<lparr>sys_node := ?m, sys_net := w, sys_conns := (sys_conns (rp_system ?B))[0 := []],
      sys_frames := sys_frames (rp_system ?B) @ frame_read (sys_conns (rp_system ?B) ! 0)\<rparr>\<rparr>"
  have bc: "process_step X N ?B ?C"
    by (intro process_step.relay relay_step.progressed) (simp_all add: process_start_def cs)
  have m: "delivery ?m = [cell]" "node_keypair ?m = kp" using n1 by (simp_all add: count_delivered_def send_delivery_def)
  let ?D = "?C\<lparr>rp_system := (rp_system ?C)\<lparr>sys_node := (rp_node ?C)\<lparr>delivery := []\<rparr>\<rparr>, rp_mailbox := pump [cell] (rp_mailbox ?C)\<rparr>"
  have cd: "process_step X N ?C ?D" using m(1) by (intro process_step.recv) (simp_all add: process_start_def)
  obtain sent mb where a: "answer (rp_mailbox ?D) (rp_identity ?D) n [PULL_REQUEST_BYTE] = (sent, mb)" by fastforce
  let ?E = "?D\<lparr>rp_mailbox := mb, rp_answers := rp_answers ?D @ [([PULL_REQUEST_BYTE], n, sent)]\<rparr>"
  have de: "process_step X N ?D ?E" using a by (intro process_step.serve) (simp_all add: process_start_def)
  have "(process_step X N)\<^sup>*\<^sup>* ?A ?E"
    using ab bc cd de by (meson converse_rtranclp_into_rtranclp r_into_rtranclp)
  moreover have "queue mb = []" using a by (auto simp: answer_pull)
  ultimately show ?thesis using m(2) by (intro exI [of _ ?E]) (simp add: process_start_def frame_read_def rd)
qed

theorem relay_program_serves_once_witness:
  "\<exists>P\<^sub>0 P frame. relay_main demo True (\<lambda>_. Ok (node_config sample_node)) (\<lambda>_. Ok ()) [''veil-relay''] 3 (0, []) = (Ok P\<^sub>0, 4) \<and>
     (process_step demo sample_net)\<^sup>*\<^sup>* P\<^sub>0 P \<and> sys_frames (rp_system P) = [frame] \<and>
     rp_answers P = [([PULL_REQUEST_BYTE], 99, take 99 (pull_message [[7]]))]"
proof -
  let ?cfg = "node_config sample_node"
  obtain kp where g: "generate demo 3 = (kp, 4)" by (simp add: generate_def demo_def)
  let ?b = "\<lparr>boot_node = node_new ?cfg kp, boot_mailbox_addr = (listen_addr ?cfg)\<lparr>sa_port := 10001\<rparr>,
      boot_identity = \<lparr>i_id = relay_id ?cfg, i_public_key = keypair_public_key kp,
        i_main_addr = socket_addr_to_string (listen_addr ?cfg)\<rparr>\<rparr>"
  have main: "relay_main demo True (\<lambda>_. Ok ?cfg) (\<lambda>_. Ok ()) [''veil-relay''] 3 (0, []) = (Ok (process_start ?b True (0, [])), 4)"
    by (simp add: relay_main_def boot_def g mailbox_addr_def add_port_def sample_node_def node_new_def)
  have wf: "keypair_wf demo kp" using generate_wf [OF demo_dh_ok, of 3] g by simp
  obtain frame where frame: "peel_onion_layer demo kp frame = Ok (Deliver [7])" "length frame < 4294967296"
    using build_peel [OF demo_rng_ok demo_dh_ok demo_hkdf_ok demo_aead_ok wf, of "Deliver [7]" 5]
    by (auto simp: length_encode_payload aead_max_def)
  have "0 < max_connections ?cfg" by (simp add: sample_node_def node_new_def)
  from sample_process_run [OF _ this frame, of ?b sample_net "(0, [])" 99] obtain P sent where
      P: "(process_step demo sample_net)\<^sup>*\<^sup>* (process_start ?b True (0, [])) P" "sys_frames (rp_system P) = [frame]"
      "rp_answers P = [([PULL_REQUEST_BYTE], 99, sent)]" "queue (rp_mailbox P) = []" "delivery (rp_node P) = []"
      "node_keypair (rp_node P) = kp" by auto
  from relay_program_serves_once [OF main P(1)] P(2-6) obtain batches where "length batches = 1"
      "concat batches = [[7]]" "asks_pull [PULL_REQUEST_BYTE] \<longrightarrow> sent = take 99 (pull_message (batches ! 0))"
    by (auto simp: frame(1))
  then have "sent = take 99 (pull_message [[7]])" by (auto simp: asks_pull_def length_Suc_conv)
  with main P(1-3) show ?thesis by blast
qed

end
