(* ===== verification/Forward_Tasks.thy ===== *)
theory Forward_Tasks
  imports Client
begin

text \<open>
  \<open>RelayNode::forward\<close> of \<open>crates/veil-relay/src/node.rs\<close> as it runs in many connection tasks at once.
  A task gives up the processor between its uses of the pool's lock and of a connection's lock, so
  one task may replace or remove a pooled connection that another is about to use. A step is what
  a task does under one lock: looking up or dialling a connection, writing a whole frame on it, or
  removing it from the pool. A task that runs alone is \<open>forward\<close>. What the tasks need of the network
  is the locale \<open>durable_net\<close>.
\<close>

section \<open>Definitions\<close>

datatype forward_task =
    Fetch string bytes
  | Writing string bytes nat
  | Removing string bytes
  | Refetch string bytes
  | Rewriting string bytes nat
  | Done "(unit, relay_error) outcome"

definition after_fetch :: "(nat \<Rightarrow> forward_task) \<Rightarrow> (nat, relay_error) outcome \<times> relay_node \<times> 'w
    \<Rightarrow> forward_task \<times> relay_node \<times> 'w" where
  "after_fetch cont = (\<lambda>(res, st).
     (case res of Ok h \<Rightarrow> cont h | Err e \<Rightarrow> Done (Err e) | Panic \<Rightarrow> Done Panic, st))"

definition after_write :: "(io_error \<Rightarrow> forward_task) \<Rightarrow> relay_node \<Rightarrow> (unit, io_error) outcome \<times> 'w
    \<Rightarrow> forward_task \<times> relay_node \<times> 'w" where
  "after_write failed node = (\<lambda>(res, w).
     (case res of Ok _ \<Rightarrow> Done (Ok ()) | Err e \<Rightarrow> failed e | Panic \<Rightarrow> Done Panic, node, w))"

fun task_step :: "'w net \<Rightarrow> forward_task \<Rightarrow> relay_node \<times> 'w \<Rightarrow> forward_task \<times> relay_node \<times> 'w" where
  "task_step N (Fetch hop b) st = after_fetch (Writing hop b) (get_or_connect N hop st)"
| "task_step N (Writing hop b h) (node, w) = after_write (\<lambda>_. Removing hop b) node (net_write_frame N h b w)"
| "task_step N (Removing hop b) (node, w) = (Refetch hop b, node\<lparr>outbound := AList.delete hop (outbound node)\<rparr>, w)"
| "task_step N (Refetch hop b) st = after_fetch (Rewriting hop b) (get_or_connect N hop st)"
| "task_step N (Rewriting hop b h) (node, w) = after_write (\<lambda>e. Done (Err (Io e))) node (net_write_frame N h b w)"
| "task_step N (Done res) st = (Done res, st)"

text \<open>The frame a task has still to write, if any, and how many steps it has left at most.\<close>

fun pending :: "forward_task \<Rightarrow> (string \<times> bytes) option" where
  "pending (Fetch hop b) = Some (hop, b)"
| "pending (Writing hop b h) = Some (hop, b)"
| "pending (Removing hop b) = Some (hop, b)"
| "pending (Refetch hop b) = Some (hop, b)"
| "pending (Rewriting hop b h) = Some (hop, b)"
| "pending (Done res) = None"

fun remaining :: "forward_task \<Rightarrow> nat" where
  "remaining (Fetch hop b) = 5"
| "remaining (Writing hop b h) = 4"
| "remaining (Removing hop b) = 3"
| "remaining (Refetch hop b) = 2"
| "remaining (Rewriting hop b h) = 1"
| "remaining (Done res) = 0"

text \<open>The tasks of a node, in any order; \<open>fw_written\<close> lists, for the statements only, the frames that
  were written whole.\<close>

record 'w forwarding =
  fw_tasks :: "forward_task list"
  fw_node :: relay_node
  fw_net :: 'w
  fw_written :: "(string \<times> bytes) list"

definition newly_written :: "forward_task \<Rightarrow> forward_task \<Rightarrow> (string \<times> bytes) list" where
  "newly_written t u = (if u = Done (Ok ()) then (case pending t of Some job \<Rightarrow> [job] | None \<Rightarrow> []) else [])"

inductive forwarding_step :: "'w net \<Rightarrow> 'w forwarding \<Rightarrow> 'w forwarding \<Rightarrow> bool" for N :: "'w net" where
  run: "i < length (fw_tasks F) \<Longrightarrow> 0 < remaining (fw_tasks F ! i) \<Longrightarrow>
    task_step N (fw_tasks F ! i) (fw_node F, fw_net F) = (t, node, w) \<Longrightarrow>
    forwarding_step N F (F\<lparr>fw_tasks := (fw_tasks F)[i := t], fw_node := node, fw_net := w,
      fw_written := fw_written F @ newly_written (fw_tasks F ! i) t\<rparr>)"

definition forwarding_start :: "(string \<times> bytes) list \<Rightarrow> relay_node \<Rightarrow> 'w \<Rightarrow> 'w forwarding" where
  "forwarding_start jobs node w =
     \<lparr>fw_tasks = map (\<lambda>(hop, b). Fetch hop b) jobs, fw_node = node, fw_net = w, fw_written = []\<rparr>"

section \<open>A task alone\<close>

lemma after_simps [simp]:
  "after_fetch cont (Ok h, st) = (cont h, st)" "after_fetch cont (Err e, st) = (Done (Err e), st)"
  "after_fetch cont (Panic, st) = (Done Panic, st)"
  "after_write failed node (Ok u, w) = (Done (Ok ()), node, w)" "after_write failed node (Err x, w) = (failed x, node, w)"
  "after_write failed node (Panic, w) = (Done Panic, node, w)"
  by (simp_all add: after_fetch_def after_write_def)

lemma task_alone:
  assumes "forward N hop b (node, w) = (res, node', w')"
  shows "((\<lambda>(t, st). task_step N t st) ^^ 5) (Fetch hop b, node, w) = (Done res, node', w')"
proof -
  obtain r1 n1 w1 where g1: "get_or_connect N hop (node, w) = (r1, n1, w1)" by (metis prod_cases3)
  show ?thesis
  proof (cases r1)
    case (Ok h)
    obtain r2 w2 where wr: "net_write_frame N h b w1 = (r2, w2)" by fastforce
    let ?n = "n1\<lparr>outbound := AList.delete hop (outbound n1)\<rparr>"
    obtain r3 n3 w3 where g2: "get_or_connect N hop (?n, w2) = (r3, n3, w3)" by (metis prod_cases3)
    show ?thesis
    proof (cases r2)
      case (Err e)
      show ?thesis
      proof (cases r3)
        case (Ok k)
        obtain r4 w4 where "net_write_frame N k b w3 = (r4, w4)" by fastforce
        with assms g1 wr g2 \<open>r1 = Ok h\<close> Err Ok show ?thesis
          by (cases r4) (simp_all add: forward_def then_st_def numeral_eq_Suc)
      qed (use assms g1 wr g2 Ok Err in \<open>simp_all add: forward_def then_st_def numeral_eq_Suc\<close>)
    qed (use assms g1 wr Ok in \<open>simp_all add: forward_def then_st_def numeral_eq_Suc\<close>)
  qed (use assms g1 in \<open>simp_all add: forward_def then_st_def numeral_eq_Suc\<close>)
qed

section \<open>Tasks over a durable network\<close>

text \<open>A network on which dialling works and a dialled connection lasts: frames written on it
  arrive. Other connections, such as those in a pool that have gone stale, may fail in any way but
  a panic.\<close>

locale durable_net =
  fixes N :: "'w net" and live :: "nat \<Rightarrow> 'w \<Rightarrow> bool"
  assumes dial: "\<exists>h w'. net_connect N a w = (Ok h, w') \<and> live h w' \<and> (\<forall>k. live k w \<longrightarrow> live k w')"
    and write_whole: "\<exists>res w'. net_write_frame N h b w = (res, w') \<and> res \<noteq> Panic \<and> (live h w \<longrightarrow> res = Ok ()) \<and>
      (\<forall>k. live k w \<longrightarrow> live k w')"
begin

text \<open>No stale connection to a hop is left in the pool.\<close>

definition renewed :: "string \<Rightarrow> relay_node \<Rightarrow> 'w \<Rightarrow> bool" where
  "renewed hop node w \<longleftrightarrow> (\<forall>h. map_of (outbound node) hop = Some h \<longrightarrow> live h w)"

fun task_ok :: "forward_task \<Rightarrow> relay_node \<Rightarrow> 'w \<Rightarrow> bool" where
  "task_ok (Refetch hop b) node w = renewed hop node w"
| "task_ok (Rewriting hop b h) node w = (renewed hop node w \<and> live h w)"
| "task_ok (Done res) node w = (res = Ok ())"
| "task_ok _ node w = True"

text \<open>What a step leaves to the other tasks.\<close>

definition harmless :: "relay_node \<times> 'w \<Rightarrow> relay_node \<times> 'w \<Rightarrow> bool" where
  "harmless = (\<lambda>(node, w) (node', w'). (\<forall>k. live k w \<longrightarrow> live k w') \<and> (\<forall>hop. renewed hop node w \<longrightarrow> renewed hop node' w'))"

lemma task_ok_harmless: "task_ok t node w \<Longrightarrow> harmless (node, w) (node', w') \<Longrightarrow> task_ok t node' w'"
  by (cases t) (auto simp: harmless_def)

lemma fetch:
  obtains h node' w' where "get_or_connect N hop (node, w) = (Ok h, node', w')" "harmless (node, w) (node', w')"
    "renewed hop node w \<Longrightarrow> live h w'"
proof (cases "map_of (outbound node) hop")
  case None
  obtain h w' where d: "net_connect N hop w = (Ok h, w')" "live h w'" "\<forall>k. live k w \<longrightarrow> live k w'" using dial by blast
  have "harmless (node, w) (node\<lparr>outbound := AList.update hop h (outbound node)\<rparr>, w')"
    using d(2,3) by (auto simp: harmless_def renewed_def update_conv')
  with d that None show ?thesis by (simp add: get_or_connect_def)
next
  case (Some h)
  with that [of h node w] show ?thesis by (simp add: get_or_connect_def harmless_def renewed_def)
qed

lemma task_step_ok:
  assumes "task_ok t node w" "task_step N t (node, w) = (u, node', w')"
  shows "task_ok u node' w' \<and> harmless (node, w) (node', w')"
proof (cases t)
  case (Fetch hop b)
  obtain h n v where "get_or_connect N hop (node, w) = (Ok h, n, v)" "harmless (node, w) (n, v)" by (rule fetch)
  with Fetch assms(2) show ?thesis by auto
next
  case (Writing hop b h)
  obtain res v where "net_write_frame N h b w = (res, v)" "res \<noteq> Panic" "\<forall>k. live k w \<longrightarrow> live k v" using write_whole by blast
  with Writing assms(2) show ?thesis by (cases res) (auto simp: harmless_def renewed_def)
next
  case (Removing hop b)
  with assms(2) show ?thesis by (auto simp: harmless_def renewed_def delete_conv' split: if_splits)
next
  case (Refetch hop b)
  obtain h n v where g: "get_or_connect N hop (node, w) = (Ok h, n, v)" "harmless (node, w) (n, v)"
      "renewed hop node w \<longrightarrow> live h v"
    using fetch [of hop node w] by blast
  with Refetch assms show ?thesis by (auto simp: harmless_def)
next
  case (Rewriting hop b h)
  obtain v where "net_write_frame N h b w = (Ok (), v)" "\<forall>k. live k w \<longrightarrow> live k v"
    using write_whole [of h b w] Rewriting assms(1) by auto
  with Rewriting assms(2) show ?thesis by (auto simp: harmless_def renewed_def)
qed (use assms in \<open>auto simp: harmless_def\<close>)

lemma task_step_progress:
  assumes "task_ok t node w" "0 < remaining t" "task_step N t (node, w) = (u, node', w')"
  shows "remaining u < remaining t" "pending u = (if u = Done (Ok ()) then None else pending t)"
proof -
  have ok: "task_ok u node' w'" using task_step_ok [OF assms(1,3)] by blast
  show "remaining u < remaining t" "pending u = (if u = Done (Ok ()) then None else pending t)"
    using assms(2,3) ok
    by (cases t; auto simp: after_fetch_def after_write_def split: outcome.splits prod.splits)+
qed

definition forwarding_inv :: "(string \<times> bytes) list \<Rightarrow> 'w forwarding \<Rightarrow> bool" where
  "forwarding_inv jobs F \<longleftrightarrow> (\<forall>t \<in> set (fw_tasks F). task_ok t (fw_node F) (fw_net F)) \<and>
     mset (List.map_filter pending (fw_tasks F)) + mset (fw_written F) = mset jobs"

definition work :: "'w forwarding \<Rightarrow> nat" where
  "work F = (\<Sum>t \<leftarrow> fw_tasks F. remaining t)"

lemma mset_map_filter_update:
  assumes "i < length ts" "f (ts ! i) = Some x"
  shows "mset (List.map_filter f (ts[i := u])) + {#x#} =
    mset (List.map_filter f ts) + (case f u of Some y \<Rightarrow> {#y#} | None \<Rightarrow> {#})"
  using assms by (induction ts arbitrary: i) (auto simp: List.map_filter_simps less_Suc_eq_0_disj split: option.splits nat.splits)

lemma forwarding_inv_step:
  assumes "forwarding_step N F G" "forwarding_inv jobs F"
  shows "forwarding_inv jobs G \<and> work G < work F"
  using assms(1)
proof cases
  case (run i t node w)
  let ?t = "fw_tasks F ! i"
  have ok: "\<forall>u \<in> set (fw_tasks F). task_ok u (fw_node F) (fw_net F)" using assms(2) by (simp add: forwarding_inv_def)
  then have one: "task_ok ?t (fw_node F) (fw_net F)" using run(2) by simp
  note st = task_step_ok [OF one run(4)] and pr = task_step_progress [OF one run(3,4)]
  have "\<forall>u \<in> set ((fw_tasks F)[i := t]). task_ok u node w"
  proof
    fix u assume "u \<in> set ((fw_tasks F)[i := t])"
    then consider "u = t" | "u \<in> set (fw_tasks F)" using set_update_subset_insert by fastforce
    then show "task_ok u node w"
    proof cases
      case 2
      then have "task_ok u (fw_node F) (fw_net F)" using ok by blast
      then show ?thesis using st by (blast intro: task_ok_harmless)
    qed (use st in blast)
  qed
  moreover obtain job where "pending ?t = Some job" using run(3) by (cases ?t) auto
  then have "mset (List.map_filter pending ((fw_tasks F)[i := t])) + mset (newly_written ?t t) =
      mset (List.map_filter pending (fw_tasks F))"
    using mset_map_filter_update [OF run(2), of pending job t] pr(2) by (auto simp: newly_written_def)
  then have "mset (List.map_filter pending ((fw_tasks F)[i := t])) + mset (fw_written F @ newly_written ?t t) = mset jobs"
    using assms(2) by (simp add: forwarding_inv_def ac_simps)
  ultimately have "forwarding_inv jobs G" using run(1) by (simp add: forwarding_inv_def)
  moreover have "work G < work F"
    using run pr(1) elem_le_sum_list [of i "map remaining (fw_tasks F)"]
    by (simp add: work_def map_update sum_list_update)
  ultimately show ?thesis by blast
qed

lemma forwarding_inv_start: "forwarding_inv jobs (forwarding_start jobs node w)"
proof -
  have "List.map_filter pending (map (\<lambda>(hop, b). Fetch hop b) jobs) = jobs"
    by (induction jobs) (auto simp: List.map_filter_simps)
  then show ?thesis by (auto simp: forwarding_inv_def forwarding_start_def)
qed

lemma forwarding_run:
  assumes "(forwarding_step N ^^ n) (forwarding_start jobs node w) F"
  shows "forwarding_inv jobs F \<and> n + work F \<le> 5 * length jobs"
  using assms
proof (induction n arbitrary: F)
  case 0
  have "(\<Sum>t \<leftarrow> map (\<lambda>(hop, b). Fetch hop b) jobs. remaining t) = 5 * length jobs" by (induction jobs) auto
  with 0 forwarding_inv_start show ?case by (auto simp: work_def forwarding_start_def)
next
  case (Suc n)
  then obtain G where "(forwarding_step N ^^ n) (forwarding_start jobs node w) G" "forwarding_step N G F" by auto
  with Suc.IH forwarding_inv_step show ?case by fastforce
qed

lemma forwarding_finished:
  assumes "forwarding_inv jobs F" "\<nexists>G. forwarding_step N F G"
  shows "fw_tasks F = replicate (length (fw_tasks F)) (Done (Ok ()))" "mset (fw_written F) = mset jobs"
proof -
  have "remaining t = 0" if t: "t \<in> set (fw_tasks F)" for t
  proof (rule ccontr)
    assume left: "remaining t \<noteq> 0"
    obtain i where i: "i < length (fw_tasks F)" "fw_tasks F ! i = t" using t by (metis in_set_conv_nth)
    obtain u node v where "task_step N t (fw_node F, fw_net F) = (u, node, v)" by (metis prod_cases3)
    with forwarding_step.run [OF i(1), of N u node v] i(2) left assms(2) show False by blast
  qed
  then have all: "t = Done (Ok ())" if "t \<in> set (fw_tasks F)" for t
    using assms(1) that by (cases t) (force simp: forwarding_inv_def)+
  then show "fw_tasks F = replicate (length (fw_tasks F)) (Done (Ok ()))" by (simp add: replicate_eqI)
  have "List.map_filter pending (fw_tasks F) = []" using all by (force simp: List.map_filter_def filter_empty_conv)
  then show "mset (fw_written F) = mset jobs" using assms(1) by (simp add: forwarding_inv_def)
qed

end

text \<open>The wire of the fabric is durable, and so is the network on whose first connection writes fail.\<close>

interpretation wire_durable: durable_net wire_net "\<lambda>h w. h < length w"
  by unfold_locales (auto simp: wire_net_def net_write_frame_def then_st_def)

interpretation sample_durable: durable_net sample_net "\<lambda>h _. h \<noteq> 0"
  by unfold_locales (auto simp: sample_net_def net_write_frame_def then_st_def)

section \<open>Properties\<close>

text \<open>C13. However the forwarding tasks of a relay interleave, and whatever stale connections its pool
  holds at first, over a network on which a dialled connection lasts no forwarding fails and none
  runs forever: every run ends after at most five steps per frame, at no time has a frame been
  written whole more often than it was to be forwarded, and at the end each has been, once.\<close>

theorem concurrent_forwards_complete:
  assumes "durable_net N live" "(forwarding_step N ^^ n) (forwarding_start jobs node w) F"
  shows "n \<le> 5 * length jobs \<and> (\<forall>res. Done res \<in> set (fw_tasks F) \<longrightarrow> res = Ok ()) \<and>
    mset (fw_written F) \<subseteq># mset jobs \<and>
    ((\<nexists>G. forwarding_step N F G) \<longrightarrow>
      fw_tasks F = replicate (length (fw_tasks F)) (Done (Ok ())) \<and> mset (fw_written F) = mset jobs)"
proof -
  note run = durable_net.forwarding_run [OF assms]
  then have "mset (fw_written F) \<subseteq># mset jobs"
    unfolding durable_net.forwarding_inv_def [OF assms(1)] by (metis mset_subset_eq_add_right)
  moreover have "\<forall>res. Done res \<in> set (fw_tasks F) \<longrightarrow> res = Ok ()"
    using run by (force simp: durable_net.forwarding_inv_def [OF assms(1)] durable_net.task_ok.simps [OF assms(1)])
  ultimately show ?thesis using run durable_net.forwarding_finished [OF assms(1)] by auto
qed

theorem concurrent_forwards_complete_witness:
  "\<exists>n F. (forwarding_step sample_net ^^ n) (forwarding_start [(''a:1'', [5]), (''b:2'', [6]), (''a:1'', [7])] sample_node (0, [])) F \<and>
     map_of (outbound sample_node) ''a:1'' = Some 0 \<and> n \<le> 15 \<and>
     mset (fw_written F) = mset [(''a:1'', [5]), (''b:2'', [6]), (''a:1'', [7])]"
proof -
  let ?S = "forwarding_start [(''a:1'', [5]), (''b:2'', [6]), (''a:1'', [7])] sample_node (0, [])"
  note all = concurrent_forwards_complete [OF sample_durable.durable_net_axioms]
  have "\<exists>n F. (forwarding_step sample_net ^^ n) ?S F \<and> (\<nexists>G. forwarding_step sample_net F G)"
    using all by (intro bounded_run_ends [where k = 15]) fastforce
  then obtain n F where F: "(forwarding_step sample_net ^^ n) ?S F" "\<nexists>G. forwarding_step sample_net F G" by blast
  moreover have "map_of (outbound sample_node) ''a:1'' = Some 0" by (simp add: sample_node_def node_new_def)
  ultimately show ?thesis using all [OF F(1)] by auto
qed

end
