(* ===== verification/Running.thy ===== *)
theory Running
  imports Delivery
begin

text \<open>
  The whole program at work: the relays of \<open>Admission\<close>, the tasks of \<open>main.rs\<close> that move delivered
  cells into the mailboxes, and a receiver that polls the mailboxes again and again while the
  relays work. All of it interleaves, also between the pulls of one poll. Several messages of
  several clients are under way at once. The lemmas account for every cell: it is on the wire,
  delivered, in a mailbox, pulled, or fed to the reassembler.
\<close>

section \<open>Several messages\<close>

text \<open>Sends by clients, one after the other.\<close>

record send_request =
  q_client :: veil_client
  q_session :: session
  q_message :: bytes

fun send_all :: "'r externals \<Rightarrow> 'w net \<Rightarrow> send_request list \<Rightarrow> 'r \<times> 'w
    \<Rightarrow> (sent_circuit list list, client_error) outcome \<times> 'r \<times> 'w" where
  "send_all X N [] st = (Ok [], st)"
| "send_all X N (q # qs) st =
     then_st (send X N (q_client q) (q_session q) (q_message q)) (\<lambda>sent.
     then_st (send_all X N qs) (\<lambda>rest st. (Ok (sent # rest), st))) st"

text \<open>The message identifiers that the sends draw.\<close>

fun message_ids :: "'r externals \<Rightarrow> 'w net \<Rightarrow> send_request list \<Rightarrow> 'r \<times> 'w \<Rightarrow> message_id list" where
  "message_ids X N [] st = []"
| "message_ids X N (q # qs) st =
     fst (fill_bytes X 16 (fst st)) #
     message_ids X N qs (snd (send X N (q_client q) (q_session q) (q_message q) st))"

definition request_ok :: "'r externals \<Rightarrow> (string \<Rightarrow> keypair option) \<Rightarrow> keypair \<Rightarrow> send_request \<Rightarrow> bool" where
  "request_ok X K recipient q \<longleftrightarrow>
     topology_inv (cl_topology (q_client q)) \<and> relays_ready X K (cl_topology (q_client q)) \<and>
     1 \<le> hop_count (q_client q) \<and> hop_count (q_client q) \<le> topology_len (cl_topology (q_client q)) \<and>
     hop_count (q_client q) \<le> max_hops \<and> session_with X recipient (q_session q) \<and>
     q_message q \<noteq> [] \<and> length (q_message q) \<le> MAX_MESSAGE_SIZE"

definition cells_of_request :: "send_request \<Rightarrow> nat" where
  "cells_of_request q = div_ceil (length (q_message q)) PAYLOAD_CAPACITY"

definition total_cells :: "send_request list \<Rightarrow> nat" where
  "total_cells qs = (\<Sum>q \<leftarrow> qs. cells_of_request q)"

section \<open>The system\<close>

text \<open>\<open>sy_taken\<close> is the number of cells the mailbox task of a relay has received from the relay's
  delivery channel, \<open>sy_poll\<close> the poll in progress: the mailboxes still to pull and the cells
  opened so far; \<open>sy_got\<close> is what the polls returned.\<close>

record system =
  sy_net :: limited_fabric
  sy_taken :: "string \<Rightarrow> nat"
  sy_mail :: "string \<Rightarrow> mailbox"
  sy_receiver :: receiver
  sy_poll :: "(string list \<times> cell list) option"
  sy_got :: "bytes list"

text \<open>The identities served at the mailbox addresses and what their connections take are the
  dialer's; \<open>M\<close> gives a relay's mailbox address.\<close>

inductive system_step :: "'r externals \<Rightarrow> (string \<Rightarrow> mailbox) dialer \<Rightarrow> (string \<Rightarrow> string) \<Rightarrow> string list
    \<Rightarrow> system \<Rightarrow> system \<Rightarrow> bool"
  for X :: "'r externals" and dial :: "(string \<Rightarrow> mailbox) dialer" and M :: "string \<Rightarrow> string" and as :: "string list" where
  relay: "limited_step X (sy_net S) L \<Longrightarrow> system_step X dial M as S (S\<lparr>sy_net := L\<rparr>)"
| fill: "a \<in> set as \<Longrightarrow> f_nodes (lf_fabric (sy_net S)) a = Some node \<Longrightarrow> sy_taken S a < length (delivery node) \<Longrightarrow>
    system_step X dial M as S (S\<lparr>sy_taken := (sy_taken S)(a := Suc (sy_taken S a)),
      sy_mail := (sy_mail S)(M a := pump [delivery node ! sy_taken S a] (sy_mail S (M a)))\<rparr>)"
| poll_begin: "sy_poll S = None \<Longrightarrow> system_step X dial M as S (S\<lparr>sy_poll := Some (map M as, [])\<rparr>)"
| poll_pull: "sy_poll S = Some (m # ms, cells) \<Longrightarrow>
    receive_loop X dial (rcv_identity (sy_receiver S)) [m] cells (sy_mail S) = (Ok cells', mail) \<Longrightarrow>
    system_step X dial M as S (S\<lparr>sy_poll := Some (ms, cells'), sy_mail := mail\<rparr>)"
| poll_fail: "sy_poll S = Some (m # ms, cells) \<Longrightarrow>
    receive_loop X dial (rcv_identity (sy_receiver S)) [m] cells (sy_mail S) = (Err e, mail) \<Longrightarrow>
    system_step X dial M as S (S\<lparr>sy_poll := None, sy_mail := mail\<rparr>)"
| poll_end: "sy_poll S = Some ([], cells) \<Longrightarrow>
    feed insert_cell (rcv_reassembler (sy_receiver S)) cells [] =
      (Ok done :: (bytes list, receive_error) outcome, R) \<Longrightarrow>
    system_step X dial M as S (S\<lparr>sy_poll := None, sy_receiver := (sy_receiver S)\<lparr>rcv_reassembler := R\<rparr>,
      sy_got := sy_got S @ done\<rparr>)"

inductive_cases system_stepE: "system_step X dial M as S T"

definition system_start :: "(string \<Rightarrow> keypair option) \<Rightarrow> (string \<Rightarrow> relay_config) \<Rightarrow> (string \<times> bytes) list
    \<Rightarrow> keypair \<Rightarrow> system" where
  "system_start K cfg log recipient =
     \<lparr>sy_net = limited_start K cfg log, sy_taken = (\<lambda>_. 0), sy_mail = (\<lambda>_. mailbox_new),
      sy_receiver = receiver_new recipient, sy_poll = None, sy_got = []\<rparr>"

text \<open>Nothing is left to do but to poll empty mailboxes.\<close>

definition settled :: "'r externals \<Rightarrow> (string \<Rightarrow> string) \<Rightarrow> string list \<Rightarrow> system \<Rightarrow> bool" where
  "settled X M as S \<longleftrightarrow> quiescent X (sy_net S) \<and> sy_poll S = None \<and>
     (\<forall>a \<in> set as. sy_taken S a = length (delivery (the (f_nodes (lf_fabric (sy_net S)) a))) \<and>
        queue (sy_mail S (M a)) = [])"

text \<open>The steps of a poll with nothing in between are \<open>Receiver::poll\<close>.\<close>

lemma receive_loop_Cons:
  "receive_loop X dial identity (m # ms) acc w =
     (case receive_loop X dial identity [m] acc w of
        (Ok acc', w') \<Rightarrow> receive_loop X dial identity ms acc' w'
      | (Err e, w') \<Rightarrow> (Err e, w')
      | (Panic, w') \<Rightarrow> (Panic, w'))"
  by (auto split: outcome.split prod.split)

lemma pulls_as_steps:
  assumes "sy_poll S = Some (ms, acc)"
    and "receive_loop X dial (rcv_identity (sy_receiver S)) ms acc (sy_mail S) = (Ok cells, mail)"
  shows "(system_step X dial M as)\<^sup>*\<^sup>* S (S\<lparr>sy_poll := Some ([], cells), sy_mail := mail\<rparr>)"
  using assms
proof (induction ms arbitrary: S acc)
  case (Cons m ms)
  obtain acc' mail' where one: "receive_loop X dial (rcv_identity (sy_receiver S)) [m] acc (sy_mail S) = (Ok acc', mail')"
      "receive_loop X dial (rcv_identity (sy_receiver S)) ms acc' mail' = (Ok cells, mail)"
    using Cons.prems(2) by (subst (asm) receive_loop_Cons) (auto simp del: receive_loop.simps split: outcome.splits prod.splits)
  let ?T = "S\<lparr>sy_poll := Some (ms, acc'), sy_mail := mail'\<rparr>"
  have "system_step X dial M as S ?T" by (rule system_step.poll_pull [OF Cons.prems(1) one(1)])
  moreover have "(system_step X dial M as)\<^sup>*\<^sup>* ?T (?T\<lparr>sy_poll := Some ([], cells), sy_mail := mail\<rparr>)"
    using Cons.IH [of ?T acc'] one(2) by simp
  ultimately show ?case by (simp add: converse_rtranclp_into_rtranclp)
next
  case Nil
  then have "S = S\<lparr>sy_poll := Some ([], cells), sy_mail := mail\<rparr>" by simp
  then show ?case by (metis rtranclp.rtrancl_refl)
qed

lemma poll_as_steps:
  assumes "sy_poll S = None" "poll X dial (map M as) (sy_receiver S, sy_mail S) = (Ok ms, rcv, mail)"
  shows "(system_step X dial M as)\<^sup>*\<^sup>* S (S\<lparr>sy_receiver := rcv, sy_mail := mail, sy_got := sy_got S @ ms\<rparr>)"
proof -
  obtain cells R where c: "receive_loop X dial (rcv_identity (sy_receiver S)) (map M as) [] (sy_mail S) = (Ok cells, mail)"
      "feed insert_cell (rcv_reassembler (sy_receiver S)) cells [] = (Ok ms :: (bytes list, receive_error) outcome, R)"
      "rcv = (sy_receiver S)\<lparr>rcv_reassembler := R\<rparr>"
    using assms(2) by (auto simp: poll_def receive_def split: outcome.splits prod.splits)
  let ?A = "S\<lparr>sy_poll := Some (map M as, [])\<rparr>"
  let ?B = "?A\<lparr>sy_poll := Some ([], cells), sy_mail := mail\<rparr>"
  have "system_step X dial M as S ?A" by (rule system_step.poll_begin [OF assms(1)])
  moreover have "(system_step X dial M as)\<^sup>*\<^sup>* ?A ?B"
    using pulls_as_steps [of ?A "map M as" "[]" X dial cells mail M as] c(1) by simp
  ultimately have "(system_step X dial M as)\<^sup>*\<^sup>* S ?B" by (rule converse_rtranclp_into_rtranclp)
  moreover have "system_step X dial M as ?B (S\<lparr>sy_receiver := rcv, sy_mail := mail, sy_got := sy_got S @ ms\<rparr>)"
  proof -
    have e: "?B\<lparr>sy_poll := None, sy_receiver := (sy_receiver ?B)\<lparr>rcv_reassembler := R\<rparr>, sy_got := sy_got ?B @ ms\<rparr> =
        S\<lparr>sy_receiver := rcv, sy_mail := mail, sy_got := sy_got S @ ms\<rparr>"
      using assms(1) c(3) by (cases S) simp
    have "sy_poll ?B = Some ([], cells)" by simp
    from system_step.poll_end [OF this, of ms R X dial M as] c(2) show ?thesis unfolding e by simp
  qed
  ultimately show ?thesis by (rule rtranclp.rtrancl_into_rtrancl)
qed

section \<open>Reassembly of several messages\<close>

type_synonym batch = "(message_id \<times> bytes \<times> cell list) list"

definition batch_wf :: "batch \<Rightarrow> bool" where
  "batch_wf bs \<longleftrightarrow> distinct (map fst bs) \<and> (\<forall>(mid, m, cells) \<in> set bs. fragments_of mid m cells)"

definition batch_messages :: "batch \<Rightarrow> bytes list" where
  "batch_messages bs = map (\<lambda>(_, m, _). m) bs"

definition batch_cells :: "batch \<Rightarrow> cell list" where
  "batch_cells bs = concat (map (\<lambda>(_, _, cells). cells) bs)"

lemma results_for_Cons:
  "results_for mid (c # cs) (r # rs) = (if message_id_of c = mid then [r] else []) @ results_for mid cs rs"
  by (simp add: results_for_def)

lemma completions_split:
  assumes "distinct mids" "\<forall>c \<in> set cs. message_id_of c \<in> set mids" "length rs = length cs"
  shows "mset (completions rs) = (\<Sum>mid \<leftarrow> mids. mset (completions (results_for mid cs rs)))"
  using assms(2,3)
proof (induction cs arbitrary: rs)
  case (Cons c cs)
  then obtain r rs' where rs: "rs = r # rs'" by (cases rs) auto
  let ?x = "mset (completions [r])" and ?c = "message_id_of c"
  have "(\<Sum>mid \<leftarrow> mids. if ?c = mid then ?x else {#}) = ?x"
    using assms(1) Cons.prems(1) by (simp add: sum_list_distinct_conv_sum_set)
  moreover have "mset (completions (results_for mid (c # cs) (r # rs'))) =
      (if ?c = mid then ?x else {#}) + mset (completions (results_for mid cs rs'))" for mid
    unfolding results_for_Cons completions_append by (simp add: completions_none [of 0, simplified])
  ultimately show ?case
    using Cons.IH [of rs'] Cons.prems arg_cong [OF completions_append [of "[r]" rs'], of mset]
    unfolding rs by (simp add: sum_list_addf)
qed (simp add: completions_def results_for_def List.map_filter_def)

lemma entry_run_some_fragments:
  assumes "fragments_of mid m cells" "mset ds \<subseteq># mset cells"
  shows "completions (fst (entry_run None ds)) = (if mset ds = mset cells then [m] else [])"
proof (cases "mset ds = mset cells")
  case True
  then show ?thesis using entry_run_fragments [OF assms(1) True]
    by (simp add: completions_append completions_none) (simp add: completions_def List.map_filter_def)
next
  case False
  obtain es where es: "mset cells = mset (ds @ es)" "es \<noteq> []"
    using assms(2) False ex_mset [of "mset cells - mset ds"] by (metis add_cancel_left_right mset_append mset_zero_iff subset_mset.add_diff_inverse)
  have n: "length cells = length ds + length es" using arg_cong [OF es(1), of size] by simp
  have "mset (map idx cells) = mset (map idx (ds @ es))" using es(1) by (metis mset_map)
  then have "distinct (map idx (ds @ es))"
    using fragments_of_idx(1) [OF assms(1)] by (metis distinct_upt mset_eq_imp_distinct_iff)
  moreover have "\<forall>d \<in> set ds. fragment_at mid (length cells) (idx d) d"
    using fragments_of_idx(2) [OF assms(1)] mset_eq_setD [OF es(1)] by auto
  moreover have "length cells < 65536" using assms(1) by (simp add: fragments_of_def)
  ultimately have "entry_run None ds = (replicate (length ds) (Ok None), if ds = [] then None else Some (entry_with (length cells) ds))"
    using n es(2) by (intro entry_run_progress) auto
  with False show ?thesis by (simp add: completions_none)
qed

lemma batch_cells_id:
  assumes "batch_wf bs" "c \<in> set (batch_cells bs)"
  shows "message_id_of c \<in> set (map fst bs)"
proof -
  obtain mid m cells where b: "(mid, m, cells) \<in> set bs" "c \<in> set cells"
    using assms(2) by (auto simp: batch_cells_def)
  then have "fragments_of mid m cells" using assms(1) by (auto simp: batch_wf_def)
  from fragments_of_idx(2) [OF this] b show ?thesis by (force simp: fragment_at_def)
qed

lemma batch_cells_filter:
  assumes "batch_wf bs" "(mid, m, cells) \<in> set bs"
  shows "filter (\<lambda>c. message_id_of c = mid) (batch_cells bs) = cells"
  using assms
proof (induction bs)
  case (Cons b bs)
  obtain mid' m' cells' where b: "b = (mid', m', cells')" by (cases b)
  have wf: "batch_wf bs" "fragments_of mid' m' cells'" "mid' \<notin> fst ` set bs"
    using Cons.prems(1) by (auto simp: batch_wf_def b)
  have ids: "\<forall>c \<in> set cells'. message_id_of c = mid'"
    using fragments_of_idx(2) [OF wf(2)] by (simp add: fragment_at_def)
  show ?case
  proof (cases "mid = mid'")
    case True
    then have "filter (\<lambda>c. message_id_of c = mid) (batch_cells bs) = []"
      using batch_cells_id [OF wf(1)] wf(3) by (auto simp: filter_empty_conv)
    moreover have "cells = cells'" using Cons.prems(2) True wf(3) by (force simp: b)
    moreover have "filter (\<lambda>c. message_id_of c = mid) cells' = cells'" using ids True by simp
    ultimately show ?thesis by (simp add: b batch_cells_def)
  next
    case False
    with ids have "filter (\<lambda>c. message_id_of c = mid) cells' = []" by (auto simp: filter_empty_conv)
    with Cons.IH [OF wf(1)] Cons.prems(2) False show ?thesis by (simp add: b batch_cells_def)
  qed
qed simp

lemma sum_list_subset_mset: "(\<And>x. x \<in> set xs \<Longrightarrow> f x \<subseteq># g x) \<Longrightarrow> (\<Sum>x \<leftarrow> xs. f x) \<subseteq># (\<Sum>x \<leftarrow> xs. g x)"
  by (induction xs) (simp_all add: subset_mset.add_mono)

lemma mset_map_sum_list: "mset (map f xs) = (\<Sum>x \<leftarrow> xs. {#f x#})"
  by (induction xs) simp_all

text \<open>Whatever part of the cells of several messages has arrived, in whatever order, the completed
  messages are among them, and they are all of them when all cells have arrived.\<close>

lemma batch_completions:
  assumes "batch_wf bs" "mset fed \<subseteq># mset (batch_cells bs)"
  defines "got \<equiv> completions (fst (insert_all reassembler_new fed))"
  shows "mset got \<subseteq># mset (batch_messages bs)"
    "mset fed = mset (batch_cells bs) \<Longrightarrow> mset got = mset (batch_messages bs)"
proof -
  have ids: "\<forall>c \<in> set fed. message_id_of c \<in> set (map fst bs)"
    using batch_cells_id [OF assms(1)] set_mset_mono [OF assms(2)] by auto
  let ?of = "\<lambda>b. filter (\<lambda>c. message_id_of c = fst b) fed"
  have sub: "mset (?of b) \<subseteq># mset (snd (snd b))" if "b \<in> set bs" for b
    using batch_cells_filter [OF assms(1), of "fst b" "fst (snd b)" "snd (snd b)"] that
      multiset_filter_mono [OF assms(2), of "\<lambda>c. message_id_of c = fst b"]
    by (metis mset_filter prod.collapse)
  have frag: "fragments_of (fst b) (fst (snd b)) (snd (snd b))" if "b \<in> set bs" for b
    using assms(1) that by (auto simp: batch_wf_def)
  have got: "mset got = (\<Sum>b \<leftarrow> bs. mset (completions (fst (entry_run None (?of b)))))"
    using completions_split [OF _ ids length_insert_all, of reassembler_new] assms(1)
    by (simp add: got_def insert_all_project(1) batch_wf_def comp_def)
  have one: "mset (completions (fst (entry_run None (?of b)))) =
      (if mset (?of b) = mset (snd (snd b)) then {#fst (snd b)#} else {#})" if "b \<in> set bs" for b
    using entry_run_some_fragments [OF frag [OF that] sub [OF that]] by simp
  have all: "mset (batch_messages bs) = (\<Sum>b \<leftarrow> bs. {#fst (snd b)#})"
    by (simp add: batch_messages_def split_def flip: mset_map_sum_list)
  show "mset got \<subseteq># mset (batch_messages bs)"
    unfolding got all by (rule sum_list_subset_mset) (simp add: one)
  show "mset got = mset (batch_messages bs)" if eq: "mset fed = mset (batch_cells bs)"
  proof -
    have "mset (?of b) = mset (snd (snd b))" if "b \<in> set bs" for b
      using batch_cells_filter [OF assms(1), of "fst b" "fst (snd b)" "snd (snd b)"] that eq
      by (metis mset_filter prod.collapse)
    then show ?thesis unfolding got all by (intro arg_cong [of _ _ sum_list] map_cong) (simp_all add: one)
  qed
qed

section \<open>What several sends put on the wire\<close>

lemma rel_mset_union:
  assumes "rel_mset R A B" "rel_mset R C D"
  shows "rel_mset R (A + C) (B + D)"
proof -
  obtain as bs cs ds where "mset as = A" "mset bs = B" "list_all2 R as bs" "mset cs = C" "mset ds = D" "list_all2 R cs ds"
    using assms unfolding rel_mset_def by blast
  then show ?thesis unfolding rel_mset_def
    by (intro exI [of _ "as @ cs"] exI [of _ "bs @ ds"]) (simp add: list_all2_appendI)
qed

lemma send_all_carried:
  assumes laws: "rng_ok X" "dh_ok X" "hkdf_ok X" "aead_ok X" "order_ok X"
    and "\<forall>q \<in> set qs. request_ok X K recipient q"
  shows "\<exists>sents r' ws ds bs. send_all X wire_net qs (r, w) = (Ok sents, r', w @ wire_of ws) \<and>
    length ws = total_cells qs \<and> length (batch_cells bs) = total_cells qs \<and> frames_small ws \<and>
    rel_mset (reaches X K) (on_wire ws) (mset ds) \<and>
    map (\<lambda>d. open_envelope X recipient (snd d)) ds = map (\<lambda>c. Ok (Some c)) (batch_cells bs) \<and>
    map fst bs = message_ids X wire_net qs (r, w) \<and> batch_messages bs = map q_message qs \<and>
    (\<forall>(mid, m, cells) \<in> set bs. fragments_of mid m cells)"
  using assms(6)
proof (induction qs arbitrary: r w)
  case Nil
  show ?case
    by (intro exI [of _ "[]"] exI [of _ r])
      (simp add: wire_of_def frames_small_def on_wire_def batch_cells_def batch_messages_def rel_mset_Zero total_cells_def)
next
  case (Cons q qs)
  have q: "request_ok X K recipient q" using Cons.prems by simp
  obtain cells sent r1 ws1 ds1 where one:
      "send X wire_net (q_client q) (q_session q) (q_message q) (r, w) = (Ok sent, r1, w @ wire_of ws1)"
      "fragments_of (fst (fill_bytes X 16 r)) (q_message q) cells"
      "map payload_of cells = chunks PAYLOAD_CAPACITY (q_message q)" "length ws1 = length cells" "frames_small ws1"
      "rel_mset (reaches X K) (on_wire ws1) (mset ds1)"
      "map (\<lambda>d. open_envelope X recipient (snd d)) ds1 = map (\<lambda>c. Ok (Some c)) cells"
    using sent_message_carried [OF laws, of "q_client q" K recipient "q_session q" "q_message q" r w] q
    unfolding request_ok_def by blast
  obtain sents r2 ws2 ds2 bs where more:
      "send_all X wire_net qs (r1, w @ wire_of ws1) = (Ok sents, r2, (w @ wire_of ws1) @ wire_of ws2)"
      "length ws2 = total_cells qs" "length (batch_cells bs) = total_cells qs" "frames_small ws2"
      "rel_mset (reaches X K) (on_wire ws2) (mset ds2)"
      "map (\<lambda>d. open_envelope X recipient (snd d)) ds2 = map (\<lambda>c. Ok (Some c)) (batch_cells bs)"
      "map fst bs = message_ids X wire_net qs (r1, w @ wire_of ws1)" "batch_messages bs = map q_message qs"
      "\<forall>(mid, m, cells) \<in> set bs. fragments_of mid m cells"
    using Cons.IH [of r1 "w @ wire_of ws1"] Cons.prems by auto
  have len: "length cells = cells_of_request q"
    using arg_cong [OF one(3), of length] length_chunks [of PAYLOAD_CAPACITY "q_message q"]
    by (simp add: cells_of_request_def PAYLOAD_CAPACITY_eq)
  have "rel_mset (reaches X K) (on_wire (ws1 @ ws2)) (mset (ds1 @ ds2))"
    using rel_mset_union [OF one(6) more(5)] by (simp add: on_wire_def)
  moreover have "frames_small (ws1 @ ws2)" using one(5) more(4) by (auto simp: frames_small_def)
  ultimately show ?case
    using one more len
    by (intro exI [of _ "sent # sents"] exI [of _ r2] exI [of _ "ws1 @ ws2"] exI [of _ "ds1 @ ds2"]
        exI [of _ "(fst (fill_bytes X 16 r), q_message q, cells) # bs"])
      (simp add: then_st_def wire_of_def batch_cells_def batch_messages_def total_cells_def)
qed

section \<open>Deliveries only grow\<close>

lemma process_frame_delivery:
  assumes "process_frame X wire_net f (node, w) = (Ok (), node', w')"
  shows "\<exists>bs. delivery node' = delivery node @ bs"
proof (cases "peel_onion_layer X (node_keypair node) f")
  case (Ok p)
  with assms show ?thesis
    by (cases p) (auto simp: process_frame_def forward_wire_net then_st_def count_forwarded_def count_delivered_def
        send_delivery_def split: option.splits)
qed (use assms in \<open>auto simp: process_frame_def count_failure_def\<close>)

definition delivery_at :: "limited_fabric \<Rightarrow> string \<Rightarrow> bytes list" where
  "delivery_at L a = delivery (the (f_nodes (lf_fabric L) a))"

lemma limited_step_delivery:
  assumes "limited_step X L M"
  shows "\<exists>bs. delivery_at M a = delivery_at L a @ bs"
  using assms
proof (rule limited_stepE)
  fix h b s node ok node'
  assume "M = lf_update L h (if ok then Served else Refused) b node' (f_wire (lf_fabric L))"
    "f_nodes (lf_fabric L) b = Some node" "accept_connection node = (ok, node')"
  then show ?thesis by (auto simp: delivery_at_def accept_connection_def count_rejected_def split: if_splits)
next
  fix h b s node s' node' wire'
  assume M: "M = lf_update L h Served b node' wire'" "f_nodes (lf_fabric L) b = Some node"
    "connection_step X wire_net s (node, (f_wire (lf_fabric L))[h := (b, s')]) = (Continue s', node', wire')"
  then obtain f where "process_frame X wire_net f (node, (f_wire (lf_fabric L))[h := (b, s')]) = (Ok (), node', wire')"
    unfolding connection_step_Continue_iff by blast
  from process_frame_delivery [OF this] M show ?thesis by (auto simp: delivery_at_def)
next
  fix h b s node res node' wire'
  assume M: "M = lf_update L h Ended b (release_permit node') wire'" "f_nodes (lf_fabric L) b = Some node"
    "connection_step X wire_net s (node, (f_wire (lf_fabric L))[h := (b, [])]) = (Finished res, node', wire')"
  from connection_step_Finished_wire(1) [OF M(3)] M show ?thesis
    by (auto simp: delivery_at_def release_permit_def)
qed

section \<open>The invariant\<close>

text \<open>The relays \<open>as\<close> with room for the connections of the log, reachable mailboxes whose connections
  take a full response, and the deliveries \<open>ds\<close> the log is destined for.\<close>

definition fleet_runs :: "(string \<Rightarrow> keypair option) \<Rightarrow> (string \<Rightarrow> relay_config) \<Rightarrow> string list \<Rightarrow> (string \<Rightarrow> string)
    \<Rightarrow> (string \<Rightarrow> relay_identity option) \<Rightarrow> nat \<Rightarrow> (string \<times> bytes) list \<Rightarrow> (string \<times> bytes) list \<Rightarrow> bool" where
  "fleet_runs K cfg as M ids n log ds \<longleftrightarrow>
     distinct as \<and> set as = dom K \<and> within_limits cfg as log \<and> inj_on M (set as) \<and>
     (\<forall>a \<in> set as. ids (M a) \<noteq> None) \<and> (\<forall>d \<in> set ds. length (snd d) = ENVELOPE_SIZE) \<and>
     length ds < 4294967296 \<and> 4 + 576 * length ds \<le> n"

lemma fleet_runsD:
  assumes "fleet_runs K cfg as M ids n log ds"
  shows "distinct as" "set as = dom K" "within_limits cfg as log" "inj_on M (set as)"
  using assms unfolding fleet_runs_def by blast+

lemma sent_fleet_runs:
  assumes "map (\<lambda>d. open_envelope X recipient (snd d)) ds = map (\<lambda>c. Ok (Some c)) cells"
    and "length cells = t" "length log = t" "distinct as" "set as = dom K"
    and "\<forall>a \<in> set as. t + length as \<le> max_connections (cfg a)" "inj_on M (set as)"
    and "\<forall>a \<in> set as. ids (M a) \<noteq> None" "t < 4294967296" "4 + 576 * t \<le> n"
  shows "fleet_runs K cfg as M ids n log ds"
proof -
  have len: "length ds = t" using arg_cong [OF assms(1), of length] assms(2) by simp
  have size: "length (snd d) = ENVELOPE_SIZE" if "d \<in> set ds" for d
  proof -
    from that have "open_envelope X recipient (snd d) \<in> set (map (\<lambda>c. Ok (Some c)) cells)"
      unfolding assms(1) [symmetric] by simp
    then show ?thesis using opened_size by fastforce
  qed
  have "within_limits cfg as log"
    using assms(3,6) card_conns_le [of log] unfolding within_limits_def by (metis add_le_mono1 le_trans)
  with assms(4,5,7-10) len size show ?thesis unfolding fleet_runs_def by blast
qed

text \<open>The cells in the first \<open>pulled a\<close> deliveries of every relay \<open>a\<close>.\<close>

definition pulled_cells :: "'r externals \<Rightarrow> keypair \<Rightarrow> string list \<Rightarrow> limited_fabric \<Rightarrow> (string \<Rightarrow> nat) \<Rightarrow> cell list" where
  "pulled_cells X recipient as L pulled =
     concat (map (\<lambda>a. opened X recipient (take (pulled a) (delivery_at L a))) as)"

definition in_hand :: "system \<Rightarrow> cell list" where
  "in_hand S = (case sy_poll S of Some (_, cells) \<Rightarrow> cells | None \<Rightarrow> [])"

definition mail_inv :: "(string \<Rightarrow> string) \<Rightarrow> string list \<Rightarrow> system \<Rightarrow> (string \<Rightarrow> nat) \<Rightarrow> bool" where
  "mail_inv M as S pulled \<longleftrightarrow>
     (\<forall>a \<in> set as. pulled a \<le> sy_taken S a \<and> sy_taken S a \<le> length (delivery_at (sy_net S) a) \<and>
        queue (sy_mail S (M a)) = drop (pulled a) (take (sy_taken S a) (delivery_at (sy_net S) a)))"

definition receiver_inv :: "'r externals \<Rightarrow> keypair \<Rightarrow> (string \<Rightarrow> string) \<Rightarrow> string list \<Rightarrow> system \<Rightarrow> (string \<Rightarrow> nat)
    \<Rightarrow> cell list \<Rightarrow> bool" where
  "receiver_inv X recipient M as S pulled fed \<longleftrightarrow>
     rcv_identity (sy_receiver S) = recipient \<and>
     sy_got S = completions (fst (insert_all reassembler_new fed)) \<and>
     rcv_reassembler (sy_receiver S) = snd (insert_all reassembler_new fed) \<and>
     mset (fed @ in_hand S) = mset (pulled_cells X recipient as (sy_net S) pulled) \<and>
     (\<forall>ms cells. sy_poll S = Some (ms, cells) \<longrightarrow> distinct ms \<and> set ms \<subseteq> M ` set as)"

definition system_inv :: "'r externals \<Rightarrow> (string \<Rightarrow> keypair option) \<Rightarrow> (string \<Rightarrow> relay_config) \<Rightarrow> string list
    \<Rightarrow> (string \<Rightarrow> string) \<Rightarrow> keypair \<Rightarrow> (string \<times> bytes) list \<Rightarrow> (string \<times> bytes) list \<Rightarrow> system \<Rightarrow> bool" where
  "system_inv X K cfg as M recipient log ds S \<longleftrightarrow>
     (\<exists>ws. limited_inv X K cfg as log (mset ds) (sy_net S) ws) \<and>
     (\<exists>pulled fed. mail_inv M as S pulled \<and> receiver_inv X recipient M as S pulled fed)"

lemma mset_concat_upd:
  assumes "distinct as" "a \<in> set as"
  shows "mset (concat (map (f(a := f a @ e)) as)) = mset (concat (map f as)) + mset e"
  using assms
proof (induction as)
  case (Cons x as)
  show ?case
  proof (cases "x = a")
    case True
    with Cons.prems have same: "map (f(a := f a @ e)) as = map f as" by auto
    show ?thesis unfolding True list.map same by simp
  next
    case False
    with Cons show ?thesis by simp
  qed
qed simp

lemma insert_all_append:
  "fst (insert_all R (cs @ ds)) = fst (insert_all R cs) @ fst (insert_all (snd (insert_all R cs)) ds)"
  "snd (insert_all R (cs @ ds)) = snd (insert_all (snd (insert_all R cs)) ds)"
  by (induction cs arbitrary: R) (simp_all add: split_def Let_def)

lemma drop_take_Suc: "p \<le> t \<Longrightarrow> t < length xs \<Longrightarrow> drop p (take (Suc t) xs) = drop p (take t xs) @ [xs ! t]"
  by (simp add: take_Suc_conv_app_nth)

lemma take_split: "p \<le> t \<Longrightarrow> take t xs = take p xs @ drop p (take t xs)"
  by (metis append_take_drop_id min.absorb1 take_take)

text \<open>What the relays have delivered is part of what was destined.\<close>

lemma delivered_part:
  assumes "limited_inv X K cfg as log (mset ds) L ws"
  shows "delivered_at as (f_nodes (lf_fabric L)) \<subseteq># mset ds"
proof -
  obtain E where "E + delivered_at as (f_nodes (lf_fabric L)) = mset ds"
    using assms unfolding limited_inv_def fabric_inv_def by blast
  then show ?thesis by (metis mset_subset_eq_add_right)
qed

lemma delivery_small:
  assumes "limited_inv X K cfg as log (mset ds) L ws" "fleet_runs K cfg as M ids n log ds" "a \<in> set as"
  shows "length (delivery_at L a) \<le> length ds" "\<forall>b \<in> set (delivery_at L a). length b = ENVELOPE_SIZE"
proof -
  obtain es where es: "delivered_at as (f_nodes (lf_fabric L)) = mset es" using ex_mset by metis
  have sub: "mset es \<subseteq># mset ds" using delivered_part [OF assms(1)] es by simp
  note at = delivered_sub [OF es assms(3)]
  show "length (delivery_at L a) \<le> length ds"
    using at(1) size_mset_mono [OF sub] by (simp add: delivery_at_def)
  show "\<forall>b \<in> set (delivery_at L a). length b = ENVELOPE_SIZE"
    using at(2) set_mset_mono [OF sub] assms(2) by (fastforce simp: delivery_at_def fleet_runs_def)
qed

lemma mailboxes_answer:
  assumes "limited_inv X K cfg as log (mset ds) (sy_net S) ws" "fleet_runs K cfg as M ids n log ds"
    and "mail_inv M as S pulled" "set ms \<subseteq> M ` set as"
  shows "mailboxes_ok ids n (sy_mail S) ms"
proof -
  have "ids (M a) \<noteq> None \<and> batch_ok (queue (sy_mail S (M a))) \<and> length (pull_message (queue (sy_mail S (M a)))) \<le> n"
    if a: "a \<in> set as" for a
  proof -
    note small = delivery_small [OF assms(1,2) a]
    let ?q = "drop (pulled a) (take (sy_taken S a) (delivery_at (sy_net S) a))"
    have q: "queue (sy_mail S (M a)) = ?q" using assms(3) a by (simp add: mail_inv_def)
    have size: "\<forall>b \<in> set ?q. length b = ENVELOPE_SIZE" using small(2) by (meson in_set_dropD in_set_takeD)
    have len: "length ?q \<le> length ds" using small(1) by simp
    have ok: "ids (M a) \<noteq> None" "length ds < 4294967296" "4 + 576 * length ds \<le> n"
      using assms(2) a by (simp_all add: fleet_runs_def)
    have "length (pull_message ?q) \<le> n" unfolding length_pull_message [OF size] using len ok(3) by linarith
    moreover have "batch_ok ?q" unfolding batch_ok_def list_all_iff
      using size len ok(2) by (auto simp: ENVELOPE_SIZE_def encryption_consts)
    ultimately show ?thesis unfolding q using ok(1) by simp
  qed
  with assms(4) show ?thesis unfolding mailboxes_ok_def by blast
qed

section \<open>Every step keeps the invariant\<close>

lemma pulled_cells_grown:
  assumes "\<forall>a \<in> set as. pulled a \<le> length (delivery_at L a) \<and> (\<exists>bs. delivery_at L' a = delivery_at L a @ bs)"
  shows "pulled_cells X recipient as L' pulled = pulled_cells X recipient as L pulled"
proof -
  have "take (pulled a) (delivery_at L' a) = take (pulled a) (delivery_at L a)" if a: "a \<in> set as" for a
  proof -
    obtain bs where "delivery_at L' a = delivery_at L a @ bs" "pulled a \<le> length (delivery_at L a)"
      using assms a by blast
    then show ?thesis by simp
  qed
  then show ?thesis by (simp add: pulled_cells_def cong: map_cong)
qed

lemma pulled_cells_upd:
  assumes "distinct as" "a \<in> set as" "pulled a \<le> t"
  shows "mset (pulled_cells X recipient as L (pulled(a := t))) =
    mset (pulled_cells X recipient as L pulled) + mset (opened X recipient (drop (pulled a) (take t (delivery_at L a))))"
proof -
  let ?f = "\<lambda>b. opened X recipient (take (pulled b) (delivery_at L b))"
  let ?e = "opened X recipient (drop (pulled a) (take t (delivery_at L a)))"
  have "(\<lambda>b. opened X recipient (take ((pulled(a := t)) b) (delivery_at L b))) = ?f(a := ?f a @ ?e)"
    using take_split [OF assms(3), of "delivery_at L a"] by (auto simp: fun_eq_iff simp flip: opened_simps(2))
  then show ?thesis
    unfolding pulled_cells_def using mset_concat_upd [OF assms(1,2), of ?f ?e] by (simp only:)
qed

lemma system_inv_relay:
  assumes laws: "hkdf_ok X" "aead_ok X" and runs: "fleet_runs K cfg as M ids n log ds"
    and step: "limited_step X (sy_net S) L" and inv: "system_inv X K cfg as M recipient log ds S"
  shows "system_inv X K cfg as M recipient log ds (S\<lparr>sy_net := L\<rparr>)"
proof -
  obtain ws pulled fed where i: "limited_inv X K cfg as log (mset ds) (sy_net S) ws"
      "mail_inv M as S pulled" "receiver_inv X recipient M as S pulled fed"
    using inv by (auto simp: system_inv_def)
  have "\<exists>ws'. limited_inv X K cfg as log (mset ds) L ws'"
    using limited_inv_step [OF laws fleet_runsD(1-3) [OF runs] step i(1)] by blast
  moreover have grown: "\<forall>a \<in> set as. pulled a \<le> length (delivery_at (sy_net S) a) \<and>
      (\<exists>bs. delivery_at L a = delivery_at (sy_net S) a @ bs)"
    using limited_step_delivery [OF step] i(2) unfolding mail_inv_def by (meson le_trans)
  then have "mail_inv M as (S\<lparr>sy_net := L\<rparr>) pulled"
    using i(2) unfolding mail_inv_def by fastforce
  moreover have "receiver_inv X recipient M as (S\<lparr>sy_net := L\<rparr>) pulled fed"
    using i(3) by (simp add: receiver_inv_def in_hand_def pulled_cells_grown [OF grown])
  ultimately show ?thesis unfolding system_inv_def by auto
qed

lemma system_inv_fill:
  assumes runs: "fleet_runs K cfg as M ids n log ds" and inv: "system_inv X K cfg as M recipient log ds S"
    and a: "a \<in> set as" "f_nodes (lf_fabric (sy_net S)) a = Some node" "sy_taken S a < length (delivery node)"
  shows "system_inv X K cfg as M recipient log ds (S\<lparr>sy_taken := (sy_taken S)(a := Suc (sy_taken S a)),
      sy_mail := (sy_mail S)(M a := pump [delivery node ! sy_taken S a] (sy_mail S (M a)))\<rparr>)"
    (is "system_inv _ _ _ _ _ _ _ _ ?T")
proof -
  obtain ws pulled fed where i: "limited_inv X K cfg as log (mset ds) (sy_net S) ws"
      "mail_inv M as S pulled" "receiver_inv X recipient M as S pulled fed"
    using inv by (auto simp: system_inv_def)
  have node: "delivery node = delivery_at (sy_net S) a" using a(2) by (simp add: delivery_at_def)
  have "pulled b \<le> sy_taken ?T b \<and> sy_taken ?T b \<le> length (delivery_at (sy_net ?T) b) \<and>
      queue (sy_mail ?T (M b)) = drop (pulled b) (take (sy_taken ?T b) (delivery_at (sy_net ?T) b))" if b: "b \<in> set as" for b
  proof (cases "b = a")
    case True
    with i(2) a(1,3) show ?thesis by (auto simp: mail_inv_def node mailbox_push_def drop_take_Suc)
  next
    case False
    then have "M b \<noteq> M a" using inj_onD [OF fleet_runsD(4) [OF runs]] a(1) b by blast
    with False i(2) b show ?thesis by (simp add: mail_inv_def)
  qed
  then have "mail_inv M as ?T pulled" unfolding mail_inv_def by blast
  moreover have "receiver_inv X recipient M as ?T pulled fed"
    using i(3) by (simp add: receiver_inv_def in_hand_def)
  ultimately show ?thesis using i(1) unfolding system_inv_def by auto
qed

lemma pull_step_fleet:
  assumes laws: "hkdf_ok X" "aead_ok X" and runs: "fleet_runs K cfg as M ids n log ds"
    and inv: "system_inv X K cfg as M recipient log ds S" and poll: "sy_poll S = Some (m # ms, cells)"
  shows "receive_loop X (fleet_dialer ids n) (rcv_identity (sy_receiver S)) [m] cells (sy_mail S) =
    (Ok (cells @ opened X recipient (queue (sy_mail S m))), emptied [m] (sy_mail S))"
proof -
  obtain ws pulled fed where i: "limited_inv X K cfg as log (mset ds) (sy_net S) ws"
      "mail_inv M as S pulled" "receiver_inv X recipient M as S pulled fed"
    using inv by (auto simp: system_inv_def)
  have "set [m] \<subseteq> M ` set as" using i(3) poll by (simp add: receiver_inv_def)
  from receive_loop_fleet [OF laws _ mailboxes_answer [OF i(1) runs i(2) this], of recipient cells] i(3)
  show ?thesis by (simp add: receiver_inv_def del: receive_loop.simps)
qed

lemma system_inv_pull:
  assumes runs: "fleet_runs K cfg as M ids n log ds"
    and inv: "system_inv X K cfg as M recipient log ds S" and poll: "sy_poll S = Some (m # ms, cells)"
  shows "system_inv X K cfg as M recipient log ds
    (S\<lparr>sy_poll := Some (ms, cells @ opened X recipient (queue (sy_mail S m))), sy_mail := emptied [m] (sy_mail S)\<rparr>)"
    (is "system_inv _ _ _ _ _ _ _ _ ?T")
proof -
  obtain ws pulled fed where i: "limited_inv X K cfg as log (mset ds) (sy_net S) ws"
      "mail_inv M as S pulled" "receiver_inv X recipient M as S pulled fed"
    using inv by (auto simp: system_inv_def)
  from i(3) poll obtain a where a: "a \<in> set as" "m = M a" by (auto simp: receiver_inv_def)
  note as = fleet_runsD(1,4) [OF runs]
  let ?pulled = "pulled(a := sy_taken S a)"
  have at: "pulled a \<le> sy_taken S a" "queue (sy_mail S m) = drop (pulled a) (take (sy_taken S a) (delivery_at (sy_net S) a))"
    using i(2) a by (simp_all add: mail_inv_def)
  have "M b \<noteq> m" if "b \<in> set as" "b \<noteq> a" for b using as(2) a that by (auto dest: inj_onD)
  then have "mail_inv M as ?T ?pulled"
    using i(2) a(2) by (auto simp: mail_inv_def emptied_def)
  moreover have "receiver_inv X recipient M as ?T ?pulled fed"
    using i(3) poll pulled_cells_upd [where pulled = pulled, OF as(1) a(1) at(1), of X recipient "sy_net S"] at(2)
    by (simp add: receiver_inv_def in_hand_def ac_simps)
  ultimately show ?thesis using i(1) unfolding system_inv_def by auto
qed

lemma pulled_cells_wf:
  assumes "hkdf_ok X" "aead_ok X" "receiver_inv X recipient M as S pulled fed"
  shows "list_all cell_wf (fed @ in_hand S)"
proof -
  have "list_all cell_wf (pulled_cells X recipient as (sy_net S) pulled)"
    using opened_wf [OF assms(1,2)] by (auto simp: pulled_cells_def list_all_iff)
  then show ?thesis using assms(3) unfolding receiver_inv_def list_all_iff by (metis mset_eq_setD)
qed

lemma receiver_inv_end:
  assumes laws: "hkdf_ok X" "aead_ok X" and inv: "receiver_inv X recipient M as S pulled fed"
    and poll: "sy_poll S = Some ([], cells)"
  shows "\<exists>done R. feed insert_cell (rcv_reassembler (sy_receiver S)) cells [] =
      (Ok done :: (bytes list, receive_error) outcome, R) \<and>
    receiver_inv X recipient M as (S\<lparr>sy_poll := None, sy_receiver := (sy_receiver S)\<lparr>rcv_reassembler := R\<rparr>,
      sy_got := sy_got S @ done\<rparr>) pulled (fed @ cells)"
proof -
  let ?R = "snd (insert_all reassembler_new fed)"
  have wf: "list_all cell_wf fed" "list_all cell_wf cells"
    using pulled_cells_wf [OF laws inv] poll by (simp_all add: in_hand_def)
  have "reassembler_inv ?R" using insert_all_inv [OF reassembler_inv_new wf(1)] by simp
  from feed_insert_all [OF this wf(2), where acc = "[]"] inv poll show ?thesis
    by (simp add: receiver_inv_def in_hand_def insert_all_append completions_append)
qed

lemma system_inv_step:
  assumes laws: "hkdf_ok X" "aead_ok X" and runs: "fleet_runs K cfg as M ids n log ds"
    and step: "system_step X (fleet_dialer ids n) M as S T" and inv: "system_inv X K cfg as M recipient log ds S"
  shows "system_inv X K cfg as M recipient log ds T"
  using step
proof (cases rule: system_step.cases)
  case (relay L)
  then show ?thesis using system_inv_relay [OF laws runs _ inv] by blast
next
  case (fill a node)
  then show ?thesis using system_inv_fill [OF runs inv] by blast
next
  case poll_begin
  obtain ws pulled fed where i: "limited_inv X K cfg as log (mset ds) (sy_net S) ws"
      "mail_inv M as S pulled" "receiver_inv X recipient M as S pulled fed"
    using inv by (auto simp: system_inv_def)
  have "distinct (map M as)" using fleet_runsD(1,4) [OF runs] by (simp add: distinct_map)
  then have "receiver_inv X recipient M as T pulled fed" "mail_inv M as T pulled"
    using i(2,3) poll_begin by (simp_all add: receiver_inv_def in_hand_def mail_inv_def)
  with i(1) poll_begin show ?thesis unfolding system_inv_def by auto
next
  case (poll_pull m ms cells cells' mail)
  with system_inv_pull [OF runs inv] pull_step_fleet [OF laws runs inv] show ?thesis by fastforce
next
  case (poll_fail m ms cells e mail)
  with pull_step_fleet [OF laws runs inv] show ?thesis by fastforce
next
  case (poll_end cells ok R)
  obtain ws pulled fed where i: "limited_inv X K cfg as log (mset ds) (sy_net S) ws"
      "mail_inv M as S pulled" "receiver_inv X recipient M as S pulled fed"
    using inv by (auto simp: system_inv_def)
  have "receiver_inv X recipient M as T pulled (fed @ cells)"
    using receiver_inv_end [OF laws i(3) poll_end(2)] poll_end(1,3) by auto
  moreover have "mail_inv M as T pulled" using i(2) poll_end(1) by (simp add: mail_inv_def)
  ultimately show ?thesis using i(1) poll_end(1) unfolding system_inv_def by auto
qed

text \<open>A system that runs under the laws, with room for all that was sent.\<close>

definition system_runs_inv :: "'r externals \<Rightarrow> (string \<Rightarrow> keypair option) \<Rightarrow> (string \<Rightarrow> relay_config) \<Rightarrow> string list
    \<Rightarrow> (string \<Rightarrow> string) \<Rightarrow> (string \<Rightarrow> relay_identity option) \<Rightarrow> nat \<Rightarrow> keypair \<Rightarrow> (string \<times> bytes) list
    \<Rightarrow> (string \<times> bytes) list \<Rightarrow> system \<Rightarrow> bool" where
  "system_runs_inv X K cfg as M ids n recipient log ds S \<longleftrightarrow>
     hkdf_ok X \<and> aead_ok X \<and> fleet_runs K cfg as M ids n log ds \<and> system_inv X K cfg as M recipient log ds S"

interpretation system_runs: step_invariant "system_step X (fleet_dialer ids n) M as"
    "system_runs_inv X K cfg as M ids n recipient log ds" for X ids n M as K cfg recipient log ds
  by unfold_locales (auto simp: system_runs_inv_def intro: system_inv_step)

lemma system_inv_run:
  assumes "hkdf_ok X" "aead_ok X" "fleet_runs K cfg as M ids n log ds"
    and "(system_step X (fleet_dialer ids n) M as)\<^sup>*\<^sup>* S T" "system_inv X K cfg as M recipient log ds S"
  shows "system_inv X K cfg as M recipient log ds T"
  using system_runs.inv_run [OF assms(4), of K cfg recipient log ds] assms(1-3,5) by (simp add: system_runs_inv_def)

lemma system_inv_start:
  assumes "rel_mset (reaches X K) (on_wire ws) (mset ds)" "frames_small ws" "set as = dom K"
  shows "system_inv X K cfg as M recipient (wire_of ws) ds (system_start K cfg (wire_of ws) recipient)"
proof -
  let ?S = "system_start K cfg (wire_of ws) recipient"
  have "mail_inv M as ?S (\<lambda>_. 0)" by (simp add: mail_inv_def system_start_def mailbox_new_def)
  moreover have "receiver_inv X recipient M as ?S (\<lambda>_. 0) []"
    by (simp add: receiver_inv_def system_start_def in_hand_def pulled_cells_def receiver_new_def completions_def
        List.map_filter_def)
  moreover have "limited_inv X K cfg as (wire_of ws) (mset ds) (sy_net ?S) ws"
    using limited_inv_start(1) [OF assms] by (simp add: system_start_def)
  ultimately show ?thesis unfolding system_inv_def by blast
qed

section \<open>What the receiver got\<close>

lemma mset_opened_mono:
  "mset xs \<subseteq># mset ys \<Longrightarrow> mset (opened X identity xs) \<subseteq># mset (opened X identity ys)"
  unfolding opened_def mset_map_filter by (intro image_mset_subseteq_mono multiset_filter_mono)

lemma mset_take_subset: "mset (take n xs) \<subseteq># mset xs"
  by (metis append_take_drop_id mset_append mset_subset_eq_add_left)

text \<open>The deliveries behind the pulled cells.\<close>

definition pulled_deliveries :: "string list \<Rightarrow> limited_fabric \<Rightarrow> (string \<Rightarrow> nat) \<Rightarrow> (string \<times> bytes) list" where
  "pulled_deliveries as L pulled = concat (map (\<lambda>a. map (Pair a) (take (pulled a) (delivery_at L a))) as)"

lemma pulled_cells_opened: "pulled_cells X recipient as L pulled = opened X recipient (map snd (pulled_deliveries as L pulled))"
  unfolding pulled_cells_def pulled_deliveries_def by (induction as) (simp_all add: comp_def)

lemma pulled_deliveries_part:
  "mset (pulled_deliveries as L pulled) \<subseteq># delivered_at as (f_nodes (lf_fabric L))"
  unfolding pulled_deliveries_def delivered_at_def mset_concat map_map comp_def delivery_at_def
  by (rule sum_list_subset_mset) (metis image_mset_subseteq_mono mset_map mset_take_subset)

lemma pulled_deliveries_all:
  assumes "\<forall>a \<in> set as. length (delivery_at L a) \<le> pulled a"
  shows "mset (pulled_deliveries as L pulled) = delivered_at as (f_nodes (lf_fabric L))"
  using assms unfolding pulled_deliveries_def delivered_at_def delivery_at_def by (simp cong: map_cong)

lemma settled_pulled:
  assumes "mail_inv M as S pulled" "settled X M as S"
  shows "\<forall>a \<in> set as. length (delivery_at (sy_net S) a) \<le> pulled a"
  using assms by (auto simp: mail_inv_def settled_def delivery_at_def)

lemma fed_cells:
  assumes laws: "hkdf_ok X" "aead_ok X" and runs: "fleet_runs K cfg as M ids n log ds"
    and inv: "system_inv X K cfg as M recipient log ds S"
    and ds: "map (\<lambda>d. open_envelope X recipient (snd d)) ds = map (\<lambda>c. Ok (Some c)) cells"
  shows "\<exists>fed. sy_got S = completions (fst (insert_all reassembler_new fed)) \<and> mset fed \<subseteq># mset cells \<and>
    (settled X M as S \<longrightarrow> mset fed = mset cells)"
proof -
  obtain ws pulled fed where i: "limited_inv X K cfg as log (mset ds) (sy_net S) ws"
      "mail_inv M as S pulled" "receiver_inv X recipient M as S pulled fed"
    using inv by (auto simp: system_inv_def)
  let ?P = "pulled_deliveries as (sy_net S) pulled"
  have cells: "opened X recipient (map snd ds) = cells" using ds by (intro opened_all) (simp add: comp_def)
  have fed: "sy_got S = completions (fst (insert_all reassembler_new fed))"
      "mset (fed @ in_hand S) = mset (opened X recipient (map snd ?P))"
    using i(3) by (simp_all add: receiver_inv_def pulled_cells_opened)
  have "mset ?P \<subseteq># mset ds"
    using pulled_deliveries_part delivered_part [OF i(1)] by (rule subset_mset.order_trans)
  then have "mset (map snd ?P) \<subseteq># mset (map snd ds)" by (metis image_mset_subseteq_mono mset_map)
  from mset_opened_mono [OF this, of X recipient] fed(2) have "mset (fed @ in_hand S) \<subseteq># mset cells" by (simp add: cells)
  then have "mset fed \<subseteq># mset cells"
    by (metis mset_append mset_subset_eq_add_left subset_mset.order_trans)
  moreover have "mset fed = mset cells" if st: "settled X M as S"
  proof -
    have "mset ?P = mset ds"
      using pulled_deliveries_all [OF settled_pulled [OF i(2) st]]
        quiescent_delivered [OF laws fleet_runsD(1,2) [OF runs] i(1)] st by (simp add: settled_def)
    then have "mset (map snd ?P) = mset (map snd ds)" by (metis mset_map)
    from mset_opened [OF this, of X recipient] fed(2) st show ?thesis by (simp add: cells in_hand_def settled_def)
  qed
  ultimately show ?thesis using fed(1) by blast
qed

section \<open>The system can always settle\<close>

lemma relays_as_steps:
  "(limited_step X)\<^sup>*\<^sup>* (sy_net S) L \<Longrightarrow> (system_step X dial M as)\<^sup>*\<^sup>* S (S\<lparr>sy_net := L\<rparr>)"
proof (induction rule: rtranclp_induct)
  case base
  show ?case by simp
next
  case (step L L')
  have "limited_step X (sy_net (S\<lparr>sy_net := L\<rparr>)) L'" using step.hyps(2) by simp
  from system_step.relay [OF this, of dial M as] step.IH show ?case by simp
qed

lemma fill_all:
  assumes laws: "hkdf_ok X" "aead_ok X" and runs: "fleet_runs K cfg as M ids n log ds"
    and inv: "system_inv X K cfg as M recipient log ds S"
  shows "\<exists>T. (system_step X (fleet_dialer ids n) M as)\<^sup>*\<^sup>* S T \<and> sy_net T = sy_net S \<and>
    (\<forall>a \<in> set as. sy_taken T a = length (delivery_at (sy_net S) a))"
  using inv
proof (induction "\<Sum>a \<in> set as. length (delivery_at (sy_net S) a) - sy_taken S a" arbitrary: S rule: less_induct)
  case less
  obtain ws pulled where i: "limited_inv X K cfg as log (mset ds) (sy_net S) ws" "mail_inv M as S pulled"
    using less.prems by (auto simp: system_inv_def)
  show ?case
  proof (cases "\<forall>a \<in> set as. sy_taken S a = length (delivery_at (sy_net S) a)")
    case False
    then obtain a where a: "a \<in> set as" "sy_taken S a < length (delivery_at (sy_net S) a)"
      using i(2) by (force simp: mail_inv_def)
    have "dom (f_nodes (lf_fabric (sy_net S))) = set as"
    proof -
      have "nodes_ok K ws (f_nodes (lf_fabric (sy_net S)))" using i(1) by (simp add: limited_inv_def fabric_inv_def)
      from dom_nodes [OF this] fleet_runsD(2) [OF runs] show ?thesis by simp
    qed
    then obtain node where node: "f_nodes (lf_fabric (sy_net S)) a = Some node" using a(1) by blast
    then have "sy_taken S a < length (delivery node)" using a(2) by (simp add: delivery_at_def)
    note step = system_step.fill [OF a(1) node this, of X "fleet_dialer ids n" M]
    let ?T = "S\<lparr>sy_taken := (sy_taken S)(a := Suc (sy_taken S a)),
      sy_mail := (sy_mail S)(M a := pump [delivery node ! sy_taken S a] (sy_mail S (M a)))\<rparr>"
    have "(\<Sum>b \<in> set as. length (delivery_at (sy_net ?T) b) - sy_taken ?T b) <
        (\<Sum>b \<in> set as. length (delivery_at (sy_net S) b) - sy_taken S b)"
      using a by (intro sum_strict_mono_ex1) (auto intro!: bexI [of _ a])
    from less.hyps [OF this system_inv_step [OF laws runs step less.prems]] step show ?thesis
      by (metis (no_types, lifting) converse_rtranclp_into_rtranclp system.select_convs(1) system.update_convs(2,3) system.surjective)
  qed blast
qed

lemma finish_poll:
  assumes laws: "hkdf_ok X" "aead_ok X" and runs: "fleet_runs K cfg as M ids n log ds"
    and inv: "system_inv X K cfg as M recipient log ds S"
  shows "\<exists>T. (system_step X (fleet_dialer ids n) M as)\<^sup>*\<^sup>* S T \<and> sy_net T = sy_net S \<and> sy_taken T = sy_taken S \<and>
    sy_poll T = None"
proof (cases "sy_poll S")
  case (Some p)
  obtain ms cells where p: "sy_poll S = Some (ms, cells)" using Some by (cases p) simp
  obtain ws pulled fed where i: "limited_inv X K cfg as log (mset ds) (sy_net S) ws"
      "mail_inv M as S pulled" "receiver_inv X recipient M as S pulled fed"
    using inv by (auto simp: system_inv_def)
  have "distinct ms" "set ms \<subseteq> M ` set as" using i(3) p by (simp_all add: receiver_inv_def)
  from receive_loop_fleet [OF laws this(1) mailboxes_answer [OF i(1) runs i(2) this(2)]]
  obtain cells' mail where "receive_loop X (fleet_dialer ids n) (rcv_identity (sy_receiver S)) ms cells (sy_mail S) = (Ok cells', mail)"
    by blast
  note pulls = pulls_as_steps [OF p this, of M as]
  let ?T = "S\<lparr>sy_poll := Some ([], cells'), sy_mail := mail\<rparr>"
  obtain pulled' fed' where "receiver_inv X recipient M as ?T pulled' fed'"
    using system_inv_run [OF laws runs pulls inv] by (auto simp: system_inv_def)
  from receiver_inv_end [OF laws this] obtain res R where
      "feed insert_cell (rcv_reassembler (sy_receiver ?T)) cells' [] = (Ok res :: (bytes list, receive_error) outcome, R)"
    by auto
  from system_step.poll_end [OF _ this, of X "fleet_dialer ids n" M as] rtranclp.rtrancl_into_rtrancl [OF pulls]
  have "(system_step X (fleet_dialer ids n) M as)\<^sup>*\<^sup>* S (?T\<lparr>sy_poll := None,
      sy_receiver := (sy_receiver ?T)\<lparr>rcv_reassembler := R\<rparr>, sy_got := sy_got ?T @ res\<rparr>)" by simp
  moreover have "sy_net (?T\<lparr>sy_poll := None, sy_receiver := rcv, sy_got := g\<rparr>) = sy_net S \<and>
      sy_taken (?T\<lparr>sy_poll := None, sy_receiver := rcv, sy_got := g\<rparr>) = sy_taken S \<and>
      sy_poll (?T\<lparr>sy_poll := None, sy_receiver := rcv, sy_got := g\<rparr>) = None" for rcv g by simp
  ultimately show ?thesis by blast
qed blast

lemma poll_empties:
  assumes laws: "hkdf_ok X" "aead_ok X" and runs: "fleet_runs K cfg as M ids n log ds"
    and inv: "system_inv X K cfg as M recipient log ds S" and idle: "sy_poll S = None"
  shows "\<exists>T. (system_step X (fleet_dialer ids n) M as)\<^sup>*\<^sup>* S T \<and> sy_net T = sy_net S \<and> sy_taken T = sy_taken S \<and>
    sy_poll T = None \<and> (\<forall>a \<in> set as. queue (sy_mail T (M a)) = [])"
proof -
  obtain ws pulled fed where i: "limited_inv X K cfg as log (mset ds) (sy_net S) ws"
      "mail_inv M as S pulled" "receiver_inv X recipient M as S pulled fed"
    using inv by (auto simp: system_inv_def)
  have dist: "distinct (map M as)" using fleet_runsD(1,4) [OF runs] by (simp add: distinct_map)
  have ok: "mailboxes_ok ids n (sy_mail S) (map M as)" by (rule mailboxes_answer [OF i(1) runs i(2)]) simp
  have "list_all cell_wf fed" using pulled_cells_wf [OF laws i(3)] by simp
  from insert_all_inv [OF reassembler_inv_new this] i(3)
  have "reassembler_inv (rcv_reassembler (sy_receiver S))" by (simp add: receiver_inv_def)
  from poll_fleet [OF laws dist ok this] obtain ms R where
      "poll X (fleet_dialer ids n) (map M as) (sy_receiver S, sy_mail S) =
         (Ok ms, (sy_receiver S)\<lparr>rcv_reassembler := R\<rparr>, emptied (map M as) (sy_mail S))" by blast
  from poll_as_steps [OF idle this] idle show ?thesis
    by (intro exI [of _ "S\<lparr>sy_receiver := (sy_receiver S)\<lparr>rcv_reassembler := R\<rparr>,
      sy_mail := emptied (map M as) (sy_mail S), sy_got := sy_got S @ ms\<rparr>"]) (simp add: emptied_def)
qed

lemma can_settle:
  assumes laws: "hkdf_ok X" "aead_ok X" and runs: "fleet_runs K cfg as M ids n log ds"
    and inv: "system_inv X K cfg as M recipient log ds S"
  shows "\<exists>T. (system_step X (fleet_dialer ids n) M as)\<^sup>*\<^sup>* S T \<and> settled X M as T"
proof -
  note run_inv = system_inv_run [OF laws runs]
  obtain ws where "limited_inv X K cfg as log (mset ds) (sy_net S) ws" using inv by (auto simp: system_inv_def)
  from limited_runs_out [OF laws fleet_runsD(1-3) [OF runs] this]
  obtain L where L: "(limited_step X)\<^sup>*\<^sup>* (sy_net S) L" "quiescent X L" by blast
  note r1 = relays_as_steps [OF L(1), of "fleet_dialer ids n" M as]
  from fill_all [OF laws runs run_inv [OF r1 inv]] obtain T2 where
      r2: "(system_step X (fleet_dialer ids n) M as)\<^sup>*\<^sup>* (S\<lparr>sy_net := L\<rparr>) T2" "sy_net T2 = L"
        "\<forall>a \<in> set as. sy_taken T2 a = length (delivery_at L a)" by auto
  note inv2 = run_inv [OF r2(1) run_inv [OF r1 inv]]
  from finish_poll [OF laws runs inv2] obtain T3 where
      r3: "(system_step X (fleet_dialer ids n) M as)\<^sup>*\<^sup>* T2 T3" "sy_net T3 = sy_net T2" "sy_taken T3 = sy_taken T2" "sy_poll T3 = None"
    by blast
  from poll_empties [OF laws runs run_inv [OF r3(1) inv2] r3(4)] obtain T4 where
      r4: "(system_step X (fleet_dialer ids n) M as)\<^sup>*\<^sup>* T3 T4" "sy_net T4 = sy_net T3" "sy_taken T4 = sy_taken T3" "sy_poll T4 = None"
        "\<forall>a \<in> set as. queue (sy_mail T4 (M a)) = []" by blast
  have "settled X M as T4" using r4 r3 r2 L(2) by (simp add: settled_def delivery_at_def)
  moreover have "(system_step X (fleet_dialer ids n) M as)\<^sup>*\<^sup>* S T4"
    using r1 r2(1) r3(1) r4(1) by (meson rtranclp_trans)
  ultimately show ?thesis by blast
qed

end
