(* ===== verification/Message_Service.thy ===== *)
theory Message_Service
  imports Running
begin

text \<open>
  What the whole program promises: a service that takes messages and hands each of them to its
  recipient once, at some time and in some order. The system of \<open>Running\<close> refines it: fragments,
  onion layers, relays, mailboxes and polls do not show.
\<close>

section \<open>The service\<close>

record message_service =
  sv_pending :: "bytes multiset"
  sv_received :: "bytes list"

inductive service_step :: "message_service \<Rightarrow> message_service \<Rightarrow> bool" where
  hand_over: "m \<in># sv_pending V \<Longrightarrow>
    service_step V (V\<lparr>sv_pending := sv_pending V - {#m#}, sv_received := sv_received V @ [m]\<rparr>)"

definition service_start :: "bytes list \<Rightarrow> message_service" where
  "service_start messages = \<lparr>sv_pending = mset messages, sv_received = []\<rparr>"

lemma service_hands_over:
  "mset ms \<subseteq># sv_pending V \<Longrightarrow>
    service_step\<^sup>*\<^sup>* V (V\<lparr>sv_pending := sv_pending V - mset ms, sv_received := sv_received V @ ms\<rparr>)"
proof (induction ms arbitrary: V)
  case (Cons m ms)
  let ?V = "V\<lparr>sv_pending := sv_pending V - {#m#}, sv_received := sv_received V @ [m]\<rparr>"
  have "service_step V ?V" using Cons.prems by (intro service_step.hand_over) (simp add: insert_subset_eq_iff)
  moreover have "mset ms \<subseteq># sv_pending ?V" using Cons.prems by (simp add: insert_subset_eq_iff)
  from Cons.IH [OF this] have "service_step\<^sup>*\<^sup>* ?V (V\<lparr>sv_pending := sv_pending V - mset (m # ms), sv_received := sv_received V @ m # ms\<rparr>)"
    by simp
  ultimately show ?case by (rule converse_rtranclp_into_rtranclp)
qed simp

section \<open>The system as the service\<close>

definition service_of :: "bytes list \<Rightarrow> system \<Rightarrow> message_service" where
  "service_of messages S = \<lparr>sv_pending = mset messages - mset (sy_got S), sv_received = sy_got S\<rparr>"

text \<open>The system runs on the cells of the batch \<open>bs\<close>: they are what the recipient finds in the envelopes
  \<open>ds\<close> under way.\<close>

definition service_inv :: "'r externals \<Rightarrow> (string \<Rightarrow> keypair option) \<Rightarrow> (string \<Rightarrow> relay_config) \<Rightarrow> string list
    \<Rightarrow> (string \<Rightarrow> string) \<Rightarrow> (string \<Rightarrow> relay_identity option) \<Rightarrow> nat \<Rightarrow> keypair \<Rightarrow> (string \<times> bytes) list
    \<Rightarrow> (string \<times> bytes) list \<Rightarrow> batch \<Rightarrow> system \<Rightarrow> bool" where
  "service_inv X K cfg as M ids n recipient log ds bs S \<longleftrightarrow>
     system_runs_inv X K cfg as M ids n recipient log ds S \<and> batch_wf bs \<and>
     map (\<lambda>d. open_envelope X recipient (snd d)) ds = map (\<lambda>c. Ok (Some c)) (batch_cells bs)"

lemma service_inv_got:
  assumes "service_inv X K cfg as M ids n recipient log ds bs S"
  shows "mset (sy_got S) \<subseteq># mset (batch_messages bs)"
    "settled X M as S \<Longrightarrow> mset (sy_got S) = mset (batch_messages bs)"
proof -
  have i: "hkdf_ok X" "aead_ok X" "fleet_runs K cfg as M ids n log ds" "system_inv X K cfg as M recipient log ds S"
      "batch_wf bs" "map (\<lambda>d. open_envelope X recipient (snd d)) ds = map (\<lambda>c. Ok (Some c)) (batch_cells bs)"
    using assms by (simp_all add: service_inv_def system_runs_inv_def)
  obtain fed where fed: "sy_got S = completions (fst (insert_all reassembler_new fed))" "mset fed \<subseteq># mset (batch_cells bs)"
      "settled X M as S \<longrightarrow> mset fed = mset (batch_cells bs)"
    using fed_cells [OF i(1-4,6)] by blast
  show "mset (sy_got S) \<subseteq># mset (batch_messages bs)"
    "settled X M as S \<Longrightarrow> mset (sy_got S) = mset (batch_messages bs)"
    using batch_completions [OF i(5) fed(2)] fed(1,3) by simp_all
qed

lemma system_step_got: "system_step X dial M as S T \<Longrightarrow> \<exists>ms. sy_got T = sy_got S @ ms"
  by (cases rule: system_step.cases) auto

lemma service_inv_step:
  assumes "system_step X (fleet_dialer ids n) M as S T" "service_inv X K cfg as M ids n recipient log ds bs S"
  shows "service_inv X K cfg as M ids n recipient log ds bs T"
  using assms system_runs.inv_step by (auto simp: service_inv_def)

lemma system_step_service:
  assumes "system_step X (fleet_dialer ids n) M as S T" "service_inv X K cfg as M ids n recipient log ds bs S"
  shows "service_step\<^sup>*\<^sup>* (service_of (batch_messages bs) S) (service_of (batch_messages bs) T)"
proof -
  obtain ms where got: "sy_got T = sy_got S @ ms" using system_step_got [OF assms(1)] by blast
  then have sum: "mset ms + mset (sy_got S) \<subseteq># mset (batch_messages bs)"
    using service_inv_got(1) [OF service_inv_step [OF assms]] by (simp add: add.commute)
  note mset_part = service_inv_got(1) [OF assms(2)]
  from sum have "mset ms \<subseteq># sv_pending (service_of (batch_messages bs) S)"
    by (simp add: service_of_def subset_mset.le_diff_conv2 [OF mset_part])
  from service_hands_over [OF this] got show ?thesis by (simp add: service_of_def)
qed

interpretation service: forward_simulation "system_step X (fleet_dialer ids n) M as"
    "service_inv X K cfg as M ids n recipient log ds bs" service_step "service_of (batch_messages bs)"
  for X ids n M as K cfg recipient log ds bs
  by unfold_locales (rule service_inv_step system_step_service; assumption)+

text \<open>Several sends put a system on its way.\<close>

lemma sent_system:
  assumes "rng_ok X" "dh_ok X" "hkdf_ok X" "aead_ok X" "order_ok X"
    and "\<forall>q \<in> set qs. request_ok X K recipient q" "distinct (message_ids X wire_net qs (r, []))"
    and "distinct as" "set as = dom K" "\<forall>a \<in> set as. total_cells qs + length as \<le> max_connections (cfg a)"
    and "inj_on M (set as)" "\<forall>a \<in> set as. ids (M a) \<noteq> None"
    and "total_cells qs < 4294967296" "4 + 576 * total_cells qs \<le> n"
  shows "\<exists>sents r' log ds bs. send_all X wire_net qs (r, []) = (Ok sents, r', log) \<and> batch_messages bs = map q_message qs \<and>
    service_inv X K cfg as M ids n recipient log ds bs (system_start K cfg log recipient)"
proof -
  obtain sents r' ws ds bs where sd: "send_all X wire_net qs (r, []) = (Ok sents, r', wire_of ws)"
      "length ws = total_cells qs" "length (batch_cells bs) = total_cells qs" "frames_small ws" "rel_mset (reaches X K) (on_wire ws) (mset ds)"
      "map (\<lambda>d. open_envelope X recipient (snd d)) ds = map (\<lambda>c. Ok (Some c)) (batch_cells bs)"
      "map fst bs = message_ids X wire_net qs (r, [])" "batch_messages bs = map q_message qs"
      "\<forall>(mid, m, cells) \<in> set bs. fragments_of mid m cells"
    using send_all_carried [OF assms(1-6), of r "[]"] by auto
  have "batch_wf bs" using sd(7,9) assms(7) by (simp add: batch_wf_def)
  moreover have "fleet_runs K cfg as M ids n (wire_of ws) ds"
    by (rule sent_fleet_runs [OF sd(6,3) _ assms(8-14)]) (simp add: sd(2))
  ultimately have "service_inv X K cfg as M ids n recipient (wire_of ws) ds bs (system_start K cfg (wire_of ws) recipient)"
    using system_inv_start [OF sd(5,4) assms(9)] assms(3,4) sd(6) by (simp add: service_inv_def system_runs_inv_def)
  with sd(1,8) show ?thesis by blast
qed

text \<open>A system in which one message is on its way over three relays.\<close>

definition sample_request :: "session \<Rightarrow> send_request" where
  "sample_request s = \<lparr>q_client = client_new (sample_fleet [1, 2, 3]) 2, q_session = s, q_message = [1, 2, 3]\<rparr>"

definition sample_identities :: "string \<Rightarrow> relay_identity option" where
  "sample_identities a = Some \<lparr>i_id = a, i_public_key = PublicKey [], i_main_addr = a\<rparr>"

abbreviation sample_mailbox :: "string \<Rightarrow> string" where
  "sample_mailbox a \<equiv> a @ ''-mailbox''"

lemma sample_system:
  assumes "session_with demo recipient s"
  shows "\<forall>q \<in> set [sample_request s]. request_ok demo (sample_keys [1, 2, 3]) recipient q"
    "total_cells [sample_request s] = 1"
    "distinct (sample_addresses [1, 2, 3])"
    "\<forall>a \<in> set (sample_addresses [1, 2, 3]).
       total_cells [sample_request s] + length (sample_addresses [1, 2, 3]) \<le> max_connections (sample_config a)"
    "inj_on sample_mailbox (set (sample_addresses [1, 2, 3]))"
    "\<forall>a \<in> set (sample_addresses [1, 2, 3]). sample_identities (sample_mailbox a) \<noteq> None"
proof -
  have "relays_ready demo (sample_keys [1, 2, 3]) (sample_fleet [1, 2, 3])" by (rule sample_fleet_ready) simp
  then show "\<forall>q \<in> set [sample_request s]. request_ok demo (sample_keys [1, 2, 3]) recipient q"
    using assms by (simp add: sample_request_def request_ok_def client_new_def sample_fleet_inv sample_fleet_len
        max_hops_def MAX_MESSAGE_SIZE_def cell_consts)
  show cells: "total_cells [sample_request s] = 1"
    by (simp add: sample_request_def total_cells_def cells_of_request_def div_ceil_def PAYLOAD_CAPACITY_eq)
  show "distinct (sample_addresses [1, 2, 3])" by (rule sample_addresses_distinct) simp
  show "\<forall>a \<in> set (sample_addresses [1, 2, 3]).
       total_cells [sample_request s] + length (sample_addresses [1, 2, 3]) \<le> max_connections (sample_config a)"
    unfolding cells by (simp add: sample_addresses_def sample_config_def default_max_connections_def)
qed (simp_all add: inj_on_def sample_identities_def)

end
