(* ===== verification/Discover_Relays.thy ===== *)
theory Discover_Relays
  imports Discovery Topology_File
begin

text \<open>
  \<open>crates/veil-routing/examples/discover_relays.rs\<close>: the program that discovers the relays behind the
  mailbox addresses on its command line and prints the topology as JSON.
\<close>

section \<open>Definitions\<close>

text \<open>What the program prints after its progress line: the number of relays, the JSON text, and the
  addresses that did not respond with their errors.\<close>

record discovery_report =
  d_found :: nat
  d_json :: string
  d_unreachable :: "unreachable_relay list"

text \<open>The exit status with the report: status 1 and only the usage line without an address. A panic
  of \<open>to_json\<close> is one of the program.\<close>

definition discover_relays :: "'r externals \<Rightarrow> (topology_file \<Rightarrow> string option) \<Rightarrow> 'w dialer \<Rightarrow> string list \<Rightarrow> 'w
    \<Rightarrow> (nat \<times> discovery_report option, topology_file_error) outcome \<times> 'w" where
  "discover_relays X to_string_pretty dial args w =
     (let addresses = drop 1 args in
      if addresses = [] then (Ok (1, None), w)
      else case discover_topology dial addresses w of
             (Ok (topology, unreachable), w) \<Rightarrow>
               (and_then (to_json X to_string_pretty topology) (\<lambda>json.
                  Ok (0, Some \<lparr>d_found = topology_len topology, d_json = json, d_unreachable = unreachable\<rparr>)), w)
           | (Err e, w) \<Rightarrow> (Err e, w)
           | (Panic, w) \<Rightarrow> (Panic, w))"

section \<open>Lemmas\<close>

lemma discovered_topology:
  assumes "fleet_ok ids n"
  obtains t us where "discover_topology (fleet_dialer ids n) addresses w = (Ok (t, us), w)"
    "topology_inv t" "keys_ok t" "map u_address us = filter (\<lambda>a. ids a = None) addresses"
    "\<And>i p. topology_get t i = Some p \<Longrightarrow> \<exists>a \<in> set addresses. map_option relay_of_identity (ids a) = Some p"
proof -
  let ?rs = "map relay_of_identity (List.map_filter ids addresses)"
  have t: "foldl add_relay topology_new ?rs = topo.add_all topology_new ?rs" by (simp add: topo.add_all_def)
  have inv: "topology_inv (topo.add_all topology_new ?rs)" by (intro topo.inv_add_all topology_inv_new)
  have mem: "\<exists>a \<in> set addresses. map_option relay_of_identity (ids a) = Some p"
    if "topology_get (topo.add_all topology_new ?rs) i = Some p" for i p
    using topo.get_add_all_mem [OF that] by (force simp: map_filter_members)
  have "keys_ok (topo.add_all topology_new ?rs)"
    unfolding keys_ok_def using mem assms by (fastforce simp: fleet_ok_def identity_ok_def relay_of_identity_def)
  with inv mem that show ?thesis
    by (fastforce simp: discover_topology_def discover_fleet [OF assms] t comp_def)
qed

section \<open>Properties\<close>

text \<open>What the program prints is a topology file: for a fleet of relays it exits with status 0, reports
  exactly the addresses where no relay listens, and loading the JSON text yields a topology of as
  many relays as it announced, each of them one that answered with this key and address.\<close>

lemma discover_relays_loadable:
  assumes "order_ok X" "hex_ok X" "json_ok from_str to_string_pretty" "fleet_ok ids n" "addresses \<noteq> []"
  shows "\<exists>d t. discover_relays X to_string_pretty (fleet_dialer ids n) (program # addresses) w = (Ok (0, Some d), w) \<and>
    map u_address (d_unreachable d) = filter (\<lambda>a. ids a = None) addresses \<and>
    from_json X from_str (d_json d) = Ok t \<and> topology_len t = d_found d \<and>
    (\<forall>i p. topology_get t i = Some p \<longrightarrow> (\<exists>a \<in> set addresses. map_option relay_of_identity (ids a) = Some p))"
proof -
  obtain t us where d: "discover_topology (fleet_dialer ids n) addresses w = (Ok (t, us) :: (_, topology_file_error) outcome, w)"
      "topology_inv t" "keys_ok t" "map u_address us = filter (\<lambda>a. ids a = None) addresses"
      "\<And>i p. topology_get t i = Some p \<Longrightarrow> \<exists>a \<in> set addresses. map_option relay_of_identity (ids a) = Some p"
    using discovered_topology [OF assms(4), where addresses = addresses and w = w] by blast
  let ?t = "foldl add_relay topology_new (topology_all X t)"
  obtain s where s: "to_json X to_string_pretty t = Ok s" "from_json X from_str s = Ok ?t"
    using json_roundtrip [OF assms(1-3) d(2,3)] by blast
  have get: "topology_get ?t = topology_get t" using rebuild_topology [OF assms(1) d(2)] by blast
  from d s get restored_len [OF assms(1) d(2)] assms(5) show ?thesis
    by (intro exI [of _ "\<lparr>d_found = topology_len t, d_json = s, d_unreachable = us\<rparr>"] exI [of _ ?t])
      (simp add: discover_relays_def)
qed

text \<open>Without an address it only prints its usage, with status 1.\<close>

lemma discover_relays_usage: "discover_relays X to_string_pretty dial [program] w = (Ok (1, None), w)"
  by (simp add: discover_relays_def)

end
