(* ===== verification/Core_Tests.thy ===== *)
theory Core_Tests
  imports Reassembly Crypto Demo_Externals
begin

text \<open>
  The unit tests of \<open>crates/veil-core/src\<close> on the model, each under the name it has in the source:
  a test is a truth value that depends on the third-party functions \<open>X\<close> and the generator state
  \<open>r\<close>, where the source uses them, and its lemma says that it passes for all of them. The
  tests that expect two random or encrypted values to differ are in \<open>Chance_Tests\<close>.
\<close>

section \<open>Asserting\<close>

text \<open>\<open>unwrap\<close>, \<open>expect\<close> and \<open>is_err\<close> of a result in a test.\<close>

definition unwrapped :: "('a, 'e) outcome \<Rightarrow> ('a \<Rightarrow> bool) \<Rightarrow> bool" where
  "unwrapped res test = (case res of Ok x \<Rightarrow> test x | _ \<Rightarrow> False)"

definition is_err :: "('a, 'e) outcome \<Rightarrow> bool" where
  "is_err res = (case res of Err _ \<Rightarrow> True | _ \<Rightarrow> False)"

lemma asserting [simp]:
  "unwrapped (Ok x) test = test x" "\<not> unwrapped (Err e) test" "\<not> unwrapped Panic test"
  "\<not> is_err (Ok x)" "is_err (Err e)" "\<not> is_err Panic"
  by (simp_all add: unwrapped_def is_err_def)

section \<open>cell.rs\<close>

definition data_cell_roundtrip_preserves_payload :: bool where
  "data_cell_roundtrip_preserves_payload =
     (let id = replicate 16 1 in
      unwrapped (new_data id 0 1 (as_bytes ''hello'')) (\<lambda>cell.
        unwrapped (from_bytes (to_bytes cell)) (\<lambda>parsed.
          payload_of parsed = as_bytes ''hello'' \<and> message_id_of parsed = id)))"

definition oversized_payload_is_rejected :: bool where
  "oversized_payload_is_rejected =
     (case new_data (replicate 16 0) 0 1 (replicate (PAYLOAD_CAPACITY + 1) 0) of
        Err (PayloadTooLarge _ _) \<Rightarrow> True | _ \<Rightarrow> False)"

definition invalid_sequence_is_rejected :: bool where
  "invalid_sequence_is_rejected =
     (case new_data (replicate 16 0) 5 3 (as_bytes ''x'') of Err (InvalidSequence _ _) \<Rightarrow> True | _ \<Rightarrow> False)"

definition every_cell_serializes_to_exactly_cell_size :: "'r externals \<Rightarrow> 'r \<Rightarrow> bool" where
  "every_cell_serializes_to_exactly_cell_size X r =
     unwrapped (new_data (replicate 16 0) 0 1 (as_bytes ''short'')) (\<lambda>data_cell.
       let (dummy_cell, r) = new_dummy X r
       in length (to_bytes data_cell) = CELL_SIZE \<and> length (to_bytes dummy_cell) = CELL_SIZE)"

text \<open>The cell \<open>Cell::new_data\<close> makes of data that fits.\<close>

lemma new_data_fits:
  assumes "length d \<le> 488" "i < t" "length mid = 16"
  obtains c where "new_data mid i t d = Ok c" "cell_wf c" "payload_of c = d" "message_id_of c = mid"
    "seq_index_of c = i" "seq_total_of c = t"
proof -
  obtain c where "new_data mid i t d = Ok c" using assms new_data_Ok_iff [of mid i t d] by (simp add: PAYLOAD_CAPACITY_eq)
  with that show ?thesis using assms(3) new_data_wf new_data_payload new_data_fields by blast
qed

lemma cell_tests:
  "data_cell_roundtrip_preserves_payload" "oversized_payload_is_rejected" "invalid_sequence_is_rejected"
  "rng_ok X \<Longrightarrow> every_cell_serializes_to_exactly_cell_size X r"
proof -
  obtain c where "new_data (replicate 16 1) 0 1 (as_bytes ''hello'') = Ok c" "cell_wf c"
      "payload_of c = as_bytes ''hello''" "message_id_of c = replicate 16 1"
    by (rule new_data_fits [of "as_bytes ''hello''" 0 1 "replicate 16 1"]) simp_all
  then show "data_cell_roundtrip_preserves_payload"
    by (simp add: data_cell_roundtrip_preserves_payload_def Let_def from_bytes_to_bytes)
  show "oversized_payload_is_rejected" by (simp add: oversized_payload_is_rejected_def new_data_def)
  show "invalid_sequence_is_rejected" by (simp add: invalid_sequence_is_rejected_def new_data_def PAYLOAD_CAPACITY_eq)
  obtain d where "new_data (replicate 16 0) 0 1 (as_bytes ''short'') = Ok d" "cell_wf d"
    by (rule new_data_fits [of "as_bytes ''short''" 0 1 "replicate 16 0"]) simp_all
  then show "rng_ok X \<Longrightarrow> every_cell_serializes_to_exactly_cell_size X r"
    using new_dummy_wf [OF _ prod.collapse [symmetric], of X r]
    by (simp add: every_cell_serializes_to_exactly_cell_size_def split_def length_to_bytes)
qed

section \<open>crypto/keys.rs\<close>

definition both_sides_derive_identical_shared_key :: "'r externals \<Rightarrow> 'r \<Rightarrow> bool" where
  "both_sides_derive_identical_shared_key X r =
     (let (alice, r) = generate X r; (bob, r) = generate X r;
          shared_alice = diffie_hellman X alice (keypair_public_key bob);
          shared_bob = diffie_hellman X bob (keypair_public_key alice)
      in unwrapped (derive_key X shared_alice (as_bytes ''test-context'')) (\<lambda>key_alice.
           unwrapped (derive_key X shared_bob (as_bytes ''test-context'')) (\<lambda>key_bob. key_alice = key_bob)))"

definition hex_roundtrip_preserves_the_same_identity :: "'r externals \<Rightarrow> 'r \<Rightarrow> bool" where
  "hex_roundtrip_preserves_the_same_identity X r =
     (let (original, r) = generate X r; hex = to_hex X original
      in unwrapped (from_hex X hex) (\<lambda>restored.
           pk_bytes (keypair_public_key original) = pk_bytes (keypair_public_key restored)))"

definition restored_keypair_derives_identical_shared_secrets :: "'r externals \<Rightarrow> 'r \<Rightarrow> bool" where
  "restored_keypair_derives_identical_shared_secrets X r =
     (let (original, r) = generate X r; (peer, r) = generate X r; hex = to_hex X original
      in unwrapped (from_hex X hex) (\<lambda>restored.
           unwrapped (derive_key X (diffie_hellman X original (keypair_public_key peer)) (as_bytes ''ctx'')) (\<lambda>key_original.
             unwrapped (derive_key X (diffie_hellman X restored (keypair_public_key peer)) (as_bytes ''ctx'')) (\<lambda>key_restored.
               key_original = key_restored))))"

definition invalid_hex_is_rejected :: "'r externals \<Rightarrow> bool" where
  "invalid_hex_is_rejected X = is_err (from_hex X ''this is not hex'')"

definition wrong_length_hex_is_rejected :: "'r externals \<Rightarrow> bool" where
  "wrong_length_hex_is_rejected X = is_err (from_hex X ''aabbcc'')"

lemma from_hex_wrong_length: "hex_halves X \<Longrightarrow> length (trim s) \<noteq> 64 \<Longrightarrow> is_err (from_hex X s)"
  unfolding hex_halves_def by (cases "hex_decode X (trim s)") (fastforce simp: from_hex_def Let_def outcome_simps)+

lemma key_tests:
  "dh_ok X \<Longrightarrow> hkdf_ok X \<Longrightarrow> both_sides_derive_identical_shared_key X r"
  "dh_ok X \<Longrightarrow> hex_ok X \<Longrightarrow> hex_roundtrip_preserves_the_same_identity X r"
  "dh_ok X \<Longrightarrow> hex_ok X \<Longrightarrow> hkdf_ok X \<Longrightarrow> restored_keypair_derives_identical_shared_secrets X r"
  "hex_halves X \<Longrightarrow> invalid_hex_is_rejected X" "hex_halves X \<Longrightarrow> wrong_length_hex_is_rejected X"
proof -
  have same: "from_hex X (to_hex X (fst (generate X r))) = Ok (fst (generate X r))" if "dh_ok X" "hex_ok X"
    using keypair_hex_roundtrip [OF that, of "[]" "[]" r] by (simp add: as_bytes_def)
  show "both_sides_derive_identical_shared_key X r" if dh: "dh_ok X" and kdf: "hkdf_ok X"
  proof -
    obtain alice r1 where a: "generate X r = (alice, r1)" by fastforce
    obtain bob r2 where b: "generate X r1 = (bob, r2)" by fastforce
    have "keypair_wf X alice" "keypair_wf X bob"
      using generate_wf [OF dh, of r] generate_wf [OF dh, of r1] a b by simp_all
    from dh_agree [OF dh this] derive_key_ok [OF kdf, of "diffie_hellman X alice (public bob)" "as_bytes ''test-context''"]
    show ?thesis by (auto simp: both_sides_derive_identical_shared_key_def a b keypair_public_key_def)
  qed
  show "hex_roundtrip_preserves_the_same_identity X r" if "dh_ok X" "hex_ok X"
    using same [OF that] by (simp add: hex_roundtrip_preserves_the_same_identity_def split_def)
  show "restored_keypair_derives_identical_shared_secrets X r" if "dh_ok X" "hex_ok X" "hkdf_ok X"
  proof -
    obtain original r1 where o: "generate X r = (original, r1)" by fastforce
    obtain peer r2 where p: "generate X r1 = (peer, r2)" by fastforce
    from same [OF that(1,2)] derive_key_ok [OF that(3), of "diffie_hellman X original (keypair_public_key peer)" "as_bytes ''ctx''"]
    show ?thesis by (auto simp: restored_keypair_derives_identical_shared_secrets_def o p)
  qed
  have "trim ''this is not hex'' = ''this is not hex''" "trim ''aabbcc'' = ''aabbcc''" by code_simp+
  then show "invalid_hex_is_rejected X" "wrong_length_hex_is_rejected X" if "hex_halves X"
    using from_hex_wrong_length [OF that]
    by (simp_all add: invalid_hex_is_rejected_def wrong_length_hex_is_rejected_def)
qed

section \<open>crypto/encryption.rs\<close>

definition encrypt_then_decrypt_recovers_original_cell :: "'r externals \<Rightarrow> 'r \<Rightarrow> bool" where
  "encrypt_then_decrypt_recovers_original_cell X r =
     (let key = replicate 32 42 in
      unwrapped (new_data (replicate 16 1) 0 1 (as_bytes ''veil payload'')) (\<lambda>cell.
        let (res, r) = encrypt_cell X key cell r in
        unwrapped res (\<lambda>encrypted.
          unwrapped (decrypt_cell X key encrypted) (\<lambda>decrypted. payload_of decrypted = as_bytes ''veil payload''))))"

lemma encryption_tests:
  assumes "rng_ok X" "aead_ok X"
  shows "encrypt_then_decrypt_recovers_original_cell X r"
proof -
  obtain c where c: "new_data (replicate 16 1) 0 1 (as_bytes ''veil payload'') = Ok c" "cell_wf c"
      "payload_of c = as_bytes ''veil payload''"
    by (rule new_data_fits [of "as_bytes ''veil payload''" 0 1 "replicate 16 1"]) simp_all
  from encrypt_cell_roundtrip [OF assms _ c(2), of "replicate 32 42" r] c show ?thesis
    by (auto simp: encrypt_then_decrypt_recovers_original_cell_def Let_def)
qed

section \<open>fragmentation.rs\<close>

definition single_cell_for_small_message :: "'r externals \<Rightarrow> 'r \<Rightarrow> bool" where
  "single_cell_for_small_message X r =
     unwrapped (fst (fragment_message X (as_bytes ''tiny'') r)) (\<lambda>cells. length cells = 1)"

definition multi_cell_for_large_message :: "'r externals \<Rightarrow> 'r \<Rightarrow> bool" where
  "multi_cell_for_large_message X r =
     (let message = replicate (PAYLOAD_CAPACITY * 3 + 10) 7 in
      unwrapped (fst (fragment_message X message r)) (\<lambda>cells.
        length cells = 4 \<and> (let id = message_id_of (cells ! 0) in list_all (\<lambda>c. message_id_of c = id) cells)))"

definition empty_message_rejected :: "'r externals \<Rightarrow> 'r \<Rightarrow> bool" where
  "empty_message_rejected X r = is_err (fst (fragment_message X [] r))"

definition exact_multiple_of_capacity_does_not_produce_empty_trailing_cell :: "'r externals \<Rightarrow> 'r \<Rightarrow> bool" where
  "exact_multiple_of_capacity_does_not_produce_empty_trailing_cell X r =
     (let message = replicate (PAYLOAD_CAPACITY * 2) 1 in
      unwrapped (fst (fragment_message X message r)) (\<lambda>cells. length cells = 2))"

lemma fragment_count:
  assumes "rng_ok X" "message \<noteq> []" "length message \<le> 1000000"
  obtains cells where "fst (fragment_message X message r) = Ok cells"
    "length cells = div_ceil (length message) 488" "fragments_of (fst (fill_bytes X 16 r)) message cells"
proof -
  have "length message \<le> MAX_MESSAGE_SIZE" using assms(3) by (simp add: MAX_MESSAGE_SIZE_def cell_consts)
  from fragment_message_total [OF assms(1,2) this prod.collapse [symmetric], of r]
  obtain cells where c: "fst (fragment_message X message r) = Ok cells"
      "fragments_of (fst (fill_bytes X 16 r)) message cells" "map payload_of cells = chunks PAYLOAD_CAPACITY message" by auto
  have "length cells = div_ceil (length message) 488"
    using length_chunks [of PAYLOAD_CAPACITY message] unfolding c(3) [symmetric] by (simp add: PAYLOAD_CAPACITY_eq)
  with that c(1,2) show ?thesis by blast
qed

lemma fragmentation_tests:
  assumes "rng_ok X"
  shows "single_cell_for_small_message X r" "multi_cell_for_large_message X r" "empty_message_rejected X r"
    "exact_multiple_of_capacity_does_not_produce_empty_trailing_cell X r"
proof -
  obtain a where "fst (fragment_message X (as_bytes ''tiny'') r) = Ok a" "length a = 1"
    by (rule fragment_count [OF assms, of "as_bytes ''tiny''" r]) (simp_all add: div_ceil_def)
  then show "single_cell_for_small_message X r" by (simp add: single_cell_for_small_message_def)
  let ?m = "replicate (488 * 3 + 10) (7 :: byte)"
  obtain b where b: "fst (fragment_message X ?m r) = Ok b" "length b = 4" "fragments_of (fst (fill_bytes X 16 r)) ?m b"
    by (rule fragment_count [OF assms, of ?m r]) (simp_all add: div_ceil_def)
  have "\<forall>c \<in> set b. message_id_of c = fst (fill_bytes X 16 r)"
    using fragments_of_idx(2) [OF b(3)] by (simp add: fragment_at_def)
  moreover from this b(2) have "message_id_of (b ! 0) = fst (fill_bytes X 16 r)" by simp
  ultimately show "multi_cell_for_large_message X r"
    using b by (simp add: multi_cell_for_large_message_def PAYLOAD_CAPACITY_eq list_all_iff)
  show "empty_message_rejected X r" by (simp add: empty_message_rejected_def fragment_message_def)
  let ?n = "replicate (488 * 2) (1 :: byte)"
  obtain d where "fst (fragment_message X ?n r) = Ok d" "length d = 2"
    by (rule fragment_count [OF assms, of ?n r]) (simp_all add: div_ceil_def)
  then show "exact_multiple_of_capacity_does_not_produce_empty_trailing_cell X r"
    by (simp add: exact_multiple_of_capacity_does_not_produce_empty_trailing_cell_def PAYLOAD_CAPACITY_eq)
qed

section \<open>reassembly.rs\<close>

definition completes_after_all_fragments_received :: bool where
  "completes_after_all_fragments_received =
     (let id = replicate 16 3; reassembler = reassembler_new in
      unwrapped (new_data id 0 2 (as_bytes ''hel'')) (\<lambda>c0.
      unwrapped (new_data id 1 2 (as_bytes ''lo'')) (\<lambda>c1.
        let (res, reassembler) = insert_cell reassembler c0 in
        unwrapped res (\<lambda>m. m = None) \<and>
        (let (res, reassembler) = insert_cell reassembler c1 in
         unwrapped res (\<lambda>result. result = Some (as_bytes ''hello''))))))"

definition duplicate_cell_does_not_corrupt_state :: bool where
  "duplicate_cell_does_not_corrupt_state =
     (let id = replicate 16 4; reassembler = reassembler_new in
      unwrapped (new_data id 0 2 (as_bytes ''a'')) (\<lambda>c0.
      unwrapped (new_data id 0 2 (as_bytes ''a'')) (\<lambda>c0_dup.
      unwrapped (new_data id 1 2 (as_bytes ''b'')) (\<lambda>c1.
        let (res, reassembler) = insert_cell reassembler c0 in
        unwrapped res (\<lambda>_.
          let (res, reassembler) = insert_cell reassembler c0_dup in
          unwrapped res (\<lambda>_.
            let (res, reassembler) = insert_cell reassembler c1 in
            unwrapped res (\<lambda>result. result = Some (as_bytes ''ab''))))))))"

definition mismatched_seq_total_is_rejected :: bool where
  "mismatched_seq_total_is_rejected =
     (let id = replicate 16 5; reassembler = reassembler_new in
      unwrapped (new_data id 0 2 (as_bytes ''a'')) (\<lambda>c0.
      unwrapped (new_data id 0 3 (as_bytes ''a'')) (\<lambda>c1.
        let (res, reassembler) = insert_cell reassembler c0 in
        unwrapped res (\<lambda>_. fst (insert_cell reassembler c1) = Err MismatchedMessageId))))"

definition evict_removes_pending_message :: bool where
  "evict_removes_pending_message =
     (let id = replicate 16 6; reassembler = reassembler_new in
      unwrapped (new_data id 0 2 (as_bytes ''a'')) (\<lambda>cell.
        let (res, reassembler) = insert_cell reassembler cell in
        unwrapped res (\<lambda>_. pending_count reassembler = 1 \<and> pending_count (evict reassembler id) = 0)))"

lemma reassembly_tests:
  "completes_after_all_fragments_received" "duplicate_cell_does_not_corrupt_state"
  "mismatched_seq_total_is_rejected" "evict_removes_pending_message"
  by code_simp+

end
