(* ===== verification/Relay_Tests.thy ===== *)
theory Relay_Tests
  imports Core_Tests Discovery Node
begin

text \<open>
  The unit tests of \<open>crates/veil-relay/src\<close> on the model, in the manner of \<open>Core_Tests\<close>. A listener
  started by \<open>serve\<close> is an address of a \<open>fleet_dialer\<close>, whose connections last for 4096 bytes; the
  pauses of the tests have no counterpart. The one that expects two
  random keys to differ is in \<open>Chance_Tests\<close>.
\<close>

section \<open>forwarding.rs\<close>

definition forward_layer_roundtrip :: "'r externals \<Rightarrow> 'r \<Rightarrow> bool" where
  "forward_layer_roundtrip X r =
     (let (relay, r) = generate X r;
          payload = Forward ''127.0.0.1:9002'' (as_bytes ''opaque inner frame'');
          (res, r) = build_onion_layer X (keypair_public_key relay) payload r
      in unwrapped res (\<lambda>frame. unwrapped (peel_onion_layer X relay frame) (\<lambda>peeled.
           case peeled of
             Forward hop b \<Rightarrow> hop = ''127.0.0.1:9002'' \<and> b = as_bytes ''opaque inner frame''
           | _ \<Rightarrow> False)))"

definition deliver_layer_roundtrip :: "'r externals \<Rightarrow> 'r \<Rightarrow> bool" where
  "deliver_layer_roundtrip X r =
     (let (relay, r) = generate X r;
          payload = Deliver (as_bytes ''final cell bytes'');
          (res, r) = build_onion_layer X (keypair_public_key relay) payload r
      in unwrapped res (\<lambda>frame. unwrapped (peel_onion_layer X relay frame) (\<lambda>peeled.
           case peeled of Deliver b \<Rightarrow> b = as_bytes ''final cell bytes'' | _ \<Rightarrow> False)))"

definition frame_roundtrip_over_a_pipe :: bool where
  "frame_roundtrip_over_a_pipe =
     unwrapped (read_frame (write_frame (as_bytes ''hello relay''))) (\<lambda>(received, _). received = as_bytes ''hello relay'')"

lemma forwarding_tests:
  assumes "rng_ok X" "dh_ok X" "hkdf_ok X" "aead_ok X"
  shows "forward_layer_roundtrip X r" "deliver_layer_roundtrip X r" "frame_roundtrip_over_a_pipe"
proof -
  obtain relay r1 where g: "generate X r = (relay, r1)" by fastforce
  have wf: "keypair_wf X relay" using generate_wf [OF assms(2), of r] g by simp
  have "valid_str ''127.0.0.1:9002''" by (rule ascii_valid_str) (simp add: ascii_def)
  then have "payload_valid (Forward ''127.0.0.1:9002'' (as_bytes ''opaque inner frame''))"
    by (simp add: payload_valid_def)
  from build_peel [OF assms wf _ this, of r1] show "forward_layer_roundtrip X r"
    by (auto simp: forward_layer_roundtrip_def g keypair_public_key_def length_encode_payload aead_max_def)
  have "payload_valid (Deliver (as_bytes ''final cell bytes''))" by (simp add: payload_valid_def)
  from build_peel [OF assms wf _ this, of r1] show "deliver_layer_roundtrip X r"
    by (auto simp: deliver_layer_roundtrip_def g keypair_public_key_def length_encode_payload aead_max_def)
  show "frame_roundtrip_over_a_pipe"
    using read_write_frame [of "as_bytes ''hello relay''" "[]"] by (simp add: frame_roundtrip_over_a_pipe_def)
qed

section \<open>mailbox.rs\<close>

definition push_then_drain_returns_everything_in_order :: bool where
  "push_then_drain_returns_everything_in_order =
     (let mailbox = mailbox_push (as_bytes ''two'') (mailbox_push (as_bytes ''one'') mailbox_new)
      in fst (mailbox_drain mailbox) = [as_bytes ''one'', as_bytes ''two''])"

definition drain_empties_the_queue :: bool where
  "drain_empties_the_queue =
     (let mailbox = mailbox_push (as_bytes ''x'') mailbox_new in mailbox_len (snd (mailbox_drain mailbox)) = 0)"

definition drain_on_empty_mailbox_returns_empty_vec :: bool where
  "drain_on_empty_mailbox_returns_empty_vec = (fst (mailbox_drain mailbox_new) = [])"

text \<open>Clones share one queue, so there is one mailbox.\<close>

definition shared_clones_see_the_same_queue :: bool where
  "shared_clones_see_the_same_queue = (mailbox_len (mailbox_push (as_bytes ''shared'') mailbox_new) = 1)"

lemma mailbox_tests:
  "push_then_drain_returns_everything_in_order" "drain_empties_the_queue"
  "drain_on_empty_mailbox_returns_empty_vec" "shared_clones_see_the_same_queue"
  by code_simp+

section \<open>node.rs\<close>

text \<open>A connection that the accept loop closes at once is one without a permit.\<close>

fun connect_times :: "nat \<Rightarrow> relay_node \<Rightarrow> bool list \<times> relay_node" where
  "connect_times 0 node = ([], node)"
| "connect_times (Suc n) node =
     (let (ok, node) = accept_connection node; (oks, node) = connect_times n node in (ok # oks, node))"

definition exceeding_max_connections_rejects_new_connections :: "'r externals \<Rightarrow> 'r \<Rightarrow> bool" where
  "exceeding_max_connections_rejects_new_connections X r =
     (let (keypair, r) = generate X r;
          config = \<lparr>listen_addr = \<lparr>sa_host = ''127.0.0.1'', sa_port = 28100\<rparr>, relay_id = ''rate-limited-relay'',
            static_secret_hex = None, max_connections = 1\<rparr>;
          node = node_new config keypair;
          (conn1, node) = accept_connection node;
          (conn2, node) = accept_connection node
      in conn1 \<and> \<not> conn2)"

definition connections_within_the_limit_are_accepted :: "'r externals \<Rightarrow> 'r \<Rightarrow> bool" where
  "connections_within_the_limit_are_accepted X r =
     (let (keypair, r) = generate X r;
          config = \<lparr>listen_addr = \<lparr>sa_host = ''127.0.0.1'', sa_port = 28101\<rparr>, relay_id = ''roomy-relay'',
            static_secret_hex = None, max_connections = 4\<rparr>;
          node = node_new config keypair;
          (conns, node) = connect_times 4 node
      in list_all id conns)"

lemma connect_times_ok: "n \<le> permits node \<Longrightarrow> fst (connect_times n node) = replicate n True"
  by (induction n arbitrary: node) (simp_all add: accept_connection_def split_def)

lemma node_tests:
  "exceeding_max_connections_rejects_new_connections X r" "connections_within_the_limit_are_accepted X r"
proof -
  show "exceeding_max_connections_rejects_new_connections X r"
    by (simp add: exceeding_max_connections_rejects_new_connections_def node_new_def accept_connection_def split_def)
  show "connections_within_the_limit_are_accepted X r"
    using connect_times_ok [of 4] by (simp add: connections_within_the_limit_are_accepted_def split_def node_new_def list_all_iff)
qed

section \<open>pull_listener.rs\<close>

definition test_identity :: "'r externals \<Rightarrow> string \<Rightarrow> string \<Rightarrow> 'r \<Rightarrow> relay_identity \<times> 'r" where
  "test_identity X rid main_addr r =
     (let (keypair, r) = generate X r
      in (\<lparr>i_id = rid, i_public_key = keypair_public_key keypair, i_main_addr = main_addr\<rparr>, r))"

text \<open>A network in which one listener serves an identity and a mailbox.\<close>

definition listener :: "string \<Rightarrow> relay_identity \<Rightarrow> (string \<Rightarrow> mailbox) dialer" where
  "listener addr i = fleet_dialer [addr \<mapsto> i] 4096"

definition serving :: "string \<Rightarrow> mailbox \<Rightarrow> string \<Rightarrow> mailbox" where
  "serving addr mailbox = (\<lambda>_. mailbox_new)(addr := mailbox)"

definition pull_returns_queued_cells_and_empties_the_mailbox :: "'r externals \<Rightarrow> 'r \<Rightarrow> bool" where
  "pull_returns_queued_cells_and_empties_the_mailbox X r =
     (let mailbox = mailbox_push (as_bytes ''second'') (mailbox_push (as_bytes ''first'') mailbox_new);
          addr = ''127.0.0.1:29500'';
          (identity, r) = test_identity X ''r'' ''127.0.0.1:9000'' r;
          (res, w) = pull (listener addr identity) addr (serving addr mailbox)
      in unwrapped res (\<lambda>received.
           received = [as_bytes ''first'', as_bytes ''second''] \<and> mailbox_len (w addr) = 0))"

definition pull_on_empty_mailbox_returns_empty :: "'r externals \<Rightarrow> 'r \<Rightarrow> bool" where
  "pull_on_empty_mailbox_returns_empty X r =
     (let addr = ''127.0.0.1:29501'';
          (identity, r) = test_identity X ''r'' ''127.0.0.1:9000'' r;
          (res, w) = pull (listener addr identity) addr (serving addr mailbox_new)
      in unwrapped res (\<lambda>received. received = []))"

definition second_pull_after_new_pushes_only_returns_the_new_ones :: "'r externals \<Rightarrow> 'r \<Rightarrow> bool" where
  "second_pull_after_new_pushes_only_returns_the_new_ones X r =
     (let mailbox = mailbox_push (as_bytes ''batch-one'') mailbox_new;
          addr = ''127.0.0.1:29502'';
          (identity, r) = test_identity X ''r'' ''127.0.0.1:9000'' r;
          (res, w) = pull (listener addr identity) addr (serving addr mailbox)
      in unwrapped res (\<lambda>first.
           first = [as_bytes ''batch-one''] \<and>
           (let w = w(addr := mailbox_push (as_bytes ''batch-two'') (w addr));
                (res, w) = pull (listener addr identity) addr w
            in unwrapped res (\<lambda>second. second = [as_bytes ''batch-two'']))))"

definition describe_returns_the_relays_own_identity :: "'r externals \<Rightarrow> 'r \<Rightarrow> bool" where
  "describe_returns_the_relays_own_identity X r =
     (let addr = ''127.0.0.1:29503'';
          (identity, r) = test_identity X ''relay-xyz'' ''127.0.0.1:9042'' r;
          expected_public_key = i_public_key identity;
          (res, w) = describe (listener addr identity) addr (serving addr mailbox_new)
      in unwrapped res (\<lambda>described.
           i_id described = ''relay-xyz'' \<and> i_main_addr described = ''127.0.0.1:9042'' \<and>
           pk_bytes (i_public_key described) = pk_bytes expected_public_key))"

definition describe_and_pull_both_work_against_the_same_listener :: "'r externals \<Rightarrow> 'r \<Rightarrow> bool" where
  "describe_and_pull_both_work_against_the_same_listener X r =
     (let mailbox = mailbox_push (as_bytes ''a real cell'') mailbox_new;
          addr = ''127.0.0.1:29504'';
          (identity, r) = test_identity X ''both'' ''127.0.0.1:9099'' r;
          (res, w) = describe (listener addr identity) addr (serving addr mailbox)
      in unwrapped res (\<lambda>described.
           i_id described = ''both'' \<and>
           (let (res, w) = pull (listener addr identity) addr w
            in unwrapped res (\<lambda>pulled. pulled = [as_bytes ''a real cell'']))))"

lemma pull_listener_ok:
  assumes "batch_ok (queue (w addr))" "length (pull_message (queue (w addr))) \<le> 4096"
  shows "pull (listener addr i) addr w = (Ok (queue (w addr)), w(addr := (w addr)\<lparr>queue := []\<rparr>))"
  using assms by (simp add: listener_def fleet_pull pulls.dec_enc)

lemma describe_listener_ok:
  assumes "identity_ok i" "length (describe_message i) \<le> 4096"
  shows "describe (listener addr i) addr w = (Ok i, w)"
  using assms by (simp add: listener_def fleet_describe descriptions.dec_enc)

lemma test_identity_ok:
  assumes "dh_ok X" "ascii rid" "ascii main_addr" "length rid \<le> 100" "length main_addr \<le> 100"
  obtains i r' where "test_identity X rid main_addr r = (i, r')" "i_id i = rid" "i_main_addr i = main_addr"
    "identity_ok i" "length (describe_message i) \<le> 4096"
proof -
  obtain kp r1 where g: "generate X r = (kp, r1)" by fastforce
  have "keypair_wf X kp" using generate_wf [OF assms(1), of r] g by simp
  then have "length (pk_bytes (keypair_public_key kp)) = 32"
    using keypair_public_length [OF assms(1)] by (simp add: keypair_public_key_def)
  with that show ?thesis using assms(2-5) g
    by (simp add: test_identity_def identity_ok_def short_str_def ascii_valid_str describe_message_def len_prefixed_def)
qed

lemma pull_listener_tests:
  assumes "dh_ok X"
  shows "pull_returns_queued_cells_and_empties_the_mailbox X r" "pull_on_empty_mailbox_returns_empty X r"
    "second_pull_after_new_pushes_only_returns_the_new_ones X r" "describe_returns_the_relays_own_identity X r"
    "describe_and_pull_both_work_against_the_same_listener X r"
proof -
  note small = serving_def mailbox_push_def mailbox_new_def mailbox_len_def batch_ok_def pull_message_def write_frame_def
  show "pull_returns_queued_cells_and_empties_the_mailbox X r" "pull_on_empty_mailbox_returns_empty X r"
      "second_pull_after_new_pushes_only_returns_the_new_ones X r"
    by (simp_all add: pull_returns_queued_cells_and_empties_the_mailbox_def pull_on_empty_mailbox_returns_empty_def
        second_pull_after_new_pushes_only_returns_the_new_ones_def split_def Let_def pull_listener_ok small)
  obtain i r1 where "test_identity X ''relay-xyz'' ''127.0.0.1:9042'' r = (i, r1)" "i_id i = ''relay-xyz''"
      "i_main_addr i = ''127.0.0.1:9042''" "identity_ok i" "length (describe_message i) \<le> 4096"
    by (rule test_identity_ok [OF assms, of "''relay-xyz''" "''127.0.0.1:9042''" r]) (simp_all add: ascii_def)
  then show "describe_returns_the_relays_own_identity X r"
    by (simp add: describe_returns_the_relays_own_identity_def describe_listener_ok)
  obtain j r2 where "test_identity X ''both'' ''127.0.0.1:9099'' r = (j, r2)" "i_id j = ''both''"
      "identity_ok j" "length (describe_message j) \<le> 4096"
    by (rule test_identity_ok [OF assms, of "''both''" "''127.0.0.1:9099''" r]) (simp_all add: ascii_def)
  then show "describe_and_pull_both_work_against_the_same_listener X r"
    by (simp add: describe_and_pull_both_work_against_the_same_listener_def describe_listener_ok pull_listener_ok small Let_def)
qed

end
