(* ===== verification/Routing_Tests.thy ===== *)
theory Routing_Tests
  imports Relay_Tests Circuit Topology_File Dummy_Traffic Path_Selection
begin

text \<open>
  The unit tests of \<open>crates/veil-routing/src\<close> on the model, in the manner of \<open>Core_Tests\<close> and
  \<open>Relay_Tests\<close>. Sorting a list and removing repeated neighbours, which the tests do to see
  whether values repeat, leaves every value once, as \<open>remdups\<close> does. The JSON parser and the file
  system are parameters.
\<close>

section \<open>topology.rs\<close>

definition dummy_relay :: "'r externals \<Rightarrow> string \<Rightarrow> 'r \<Rightarrow> relay_info \<times> 'r" where
  "dummy_relay X rid r =
     (let (keypair, r) = generate X r
      in (\<lparr>r_id = rid, r_address = ''127.0.0.1:'' @ show_nat 9000, r_public_key = keypair_public_key keypair\<rparr>, r))"

definition add_and_get_relay :: "'r externals \<Rightarrow> 'r \<Rightarrow> bool" where
  "add_and_get_relay X r =
     (let (relay, r) = dummy_relay X ''r1'' r; topo = add_relay topology_new relay
      in topology_get topo ''r1'' \<noteq> None \<and> topology_get topo ''nonexistent'' = None)"

definition len_reflects_relay_count :: "'r externals \<Rightarrow> 'r \<Rightarrow> bool" where
  "len_reflects_relay_count X r =
     (let topo = topology_new in
      topology_is_empty topo \<and>
      (let (relay1, r) = dummy_relay X ''r1'' r; topo = add_relay topo relay1;
           (relay2, r) = dummy_relay X ''r2'' r; topo = add_relay topo relay2
       in topology_len topo = 2))"

lemma topology_tests: "add_and_get_relay X r" "len_reflects_relay_count X r"
  by (simp_all add: add_and_get_relay_def len_reflects_relay_count_def dummy_relay_def split_def Let_def
      topology_get_def topology_len_def topology_is_empty_def add_relay_def topology_new_def)

section \<open>lib.rs\<close>

record test_relay =
  t_info :: relay_info
  t_keypair :: keypair

definition make_relay :: "'r externals \<Rightarrow> string \<Rightarrow> nat \<Rightarrow> 'r \<Rightarrow> test_relay \<times> 'r" where
  "make_relay X rid port r =
     (let (keypair, r) = generate X r;
          info = \<lparr>r_id = rid, r_address = ''127.0.0.1:'' @ show_nat port, r_public_key = keypair_public_key keypair\<rparr>
      in (\<lparr>t_info = info, t_keypair = keypair\<rparr>, r))"

definition three_hop_circuit_peels_correctly_at_every_hop :: "'r externals \<Rightarrow> 'r \<Rightarrow> bool" where
  "three_hop_circuit_peels_correctly_at_every_hop X r =
     (let (r1, r) = make_relay X ''r1'' 9001 r;
          (r2, r) = make_relay X ''r2'' 9002 r;
          (r3, r) = make_relay X ''r3'' 9003 r;
          (res, r) = build_circuit X [t_info r1, t_info r2, t_info r3] (as_bytes ''final message'') r
      in unwrapped res (\<lambda>onion.
         unwrapped (peel_onion_layer X (t_keypair r1) onion) (\<lambda>peeled_1.
         case peeled_1 of
           Forward hop layer_for_r2 \<Rightarrow>
             hop = r_address (t_info r2) \<and>
             unwrapped (peel_onion_layer X (t_keypair r2) layer_for_r2) (\<lambda>peeled_2.
               case peeled_2 of
                 Forward hop layer_for_r3 \<Rightarrow>
                   hop = r_address (t_info r3) \<and>
                   unwrapped (peel_onion_layer X (t_keypair r3) layer_for_r3) (\<lambda>peeled_3.
                     case peeled_3 of Deliver b \<Rightarrow> b = as_bytes ''final message'' | _ \<Rightarrow> False)
               | _ \<Rightarrow> False)
         | _ \<Rightarrow> False)))"

definition empty_path_is_rejected :: "'r externals \<Rightarrow> 'r \<Rightarrow> bool" where
  "empty_path_is_rejected X r = (fst (build_circuit X [] (as_bytes ''x'') r) = Err EmptyPath)"

lemma make_relay_ok:
  assumes "dh_ok X"
  obtains t r' where "make_relay X rid port r = (t, r')" "keypair_wf X (t_keypair t)"
    "public (t_keypair t) = r_public_key (t_info t)" "r_address (t_info t) = ''127.0.0.1:'' @ show_nat port"
proof -
  obtain kp r1 where g: "generate X r = (kp, r1)" by fastforce
  have "keypair_wf X kp" using generate_wf [OF assms, of r] g by simp
  with that g show ?thesis by (simp add: make_relay_def keypair_public_key_def)
qed

lemma local_address_valid: "valid_str (''127.0.0.1:'' @ show_nat n)"
  using ascii_show_nat [of n] by (intro ascii_valid_str) (auto simp: ascii_def)

lemma circuit_tests:
  assumes "rng_ok X" "dh_ok X" "hkdf_ok X" "aead_ok X"
  shows "three_hop_circuit_peels_correctly_at_every_hop X r" "empty_path_is_rejected X r"
proof -
  obtain r1 s1 where a: "make_relay X ''r1'' 9001 r = (r1, s1)" "keypair_wf X (t_keypair r1)"
      "public (t_keypair r1) = r_public_key (t_info r1)" "r_address (t_info r1) = ''127.0.0.1:'' @ show_nat 9001"
    using make_relay_ok [OF assms(2)] by metis
  obtain r2 s2 where b: "make_relay X ''r2'' 9002 s1 = (r2, s2)" "keypair_wf X (t_keypair r2)"
      "public (t_keypair r2) = r_public_key (t_info r2)" "r_address (t_info r2) = ''127.0.0.1:'' @ show_nat 9002"
    using make_relay_ok [OF assms(2)] by metis
  obtain r3 s3 where c: "make_relay X ''r3'' 9003 s2 = (r3, s3)" "keypair_wf X (t_keypair r3)"
      "public (t_keypair r3) = r_public_key (t_info r3)" "r_address (t_info r3) = ''127.0.0.1:'' @ show_nat 9003"
    using make_relay_ok [OF assms(2)] by metis
  let ?path = "[t_info r1, t_info r2, t_info r3]" and ?kps = "[t_keypair r1, t_keypair r2, t_keypair r3]"
  have keys: "keys_for X ?path ?kps" using a b c by (simp add: keys_for_def)
  have short: "length (show_nat 9001) \<le> 4" "length (show_nat 9002) \<le> 4" "length (show_nat 9003) \<le> 4"
    using show_nat_length [of _ 3] by simp_all
  have addr: "addresses_ok ?path" using a(4) b(4) c(4) local_address_valid short by (auto simp: addresses_ok_def)
  have size: "circuit_size ?path (length (as_bytes ''final message'')) < aead_max"
    using b(4) c(4) short by (simp add: aead_max_def)
  obtain onion s4 where o: "build_circuit X ?path (as_bytes ''final message'') s3 = (Ok onion, s4)"
      "layer_from X ?path ?kps (as_bytes ''final message'') 0 onion"
    using build_circuit_ok [OF assms keys addr size] by blast
  then show "three_hop_circuit_peels_correctly_at_every_hop X r"
    by (auto simp: three_hop_circuit_peels_correctly_at_every_hop_def a(1) b(1) c(1) layer_from_def list_all2_Cons2
        split: outcome.splits)
  show "empty_path_is_rejected X r" by (simp add: empty_path_is_rejected_def build_circuit_def)
qed

section \<open>path_selection.rs\<close>

fun add_relays :: "'r externals \<Rightarrow> nat \<Rightarrow> string list \<Rightarrow> topology \<Rightarrow> 'r \<Rightarrow> topology \<times> 'r" where
  "add_relays X i [] topo r = (topo, r)"
| "add_relays X i (addr # addresses) topo r =
     (let (keypair, r) = generate X r
      in add_relays X (Suc i) addresses (add_relay topo \<lparr>r_id = ''relay-'' @ show_nat i, r_address = addr,
           r_public_key = keypair_public_key keypair\<rparr>) r)"

definition topology_with_addresses :: "'r externals \<Rightarrow> string list \<Rightarrow> 'r \<Rightarrow> topology \<times> 'r" where
  "topology_with_addresses X addresses r = add_relays X 0 addresses topology_new r"

definition topology_with :: "'r externals \<Rightarrow> nat \<Rightarrow> 'r \<Rightarrow> topology \<times> 'r" where
  "topology_with X n r = add_relays X 0 (map (\<lambda>i. ''127.0.0.1:'' @ show_nat (9000 + i)) [0..<n]) topology_new r"

definition selects_requested_hop_count :: "'r externals \<Rightarrow> 'r \<Rightarrow> bool" where
  "selects_requested_hop_count X r =
     (let (topo, r) = topology_with X 5 r; (res, r) = select_path X topo 3 r
      in unwrapped res (\<lambda>path. length path = 3))"

definition selected_relays_are_distinct :: "'r externals \<Rightarrow> 'r \<Rightarrow> bool" where
  "selected_relays_are_distinct X r =
     (let (topo, r) = topology_with X 5 r; (res, r) = select_path X topo 4 r
      in unwrapped res (\<lambda>path. let ids = map r_id path in length (remdups ids) = length ids))"

definition errors_when_topology_too_small :: "'r externals \<Rightarrow> 'r \<Rightarrow> bool" where
  "errors_when_topology_too_small X r =
     (let (topo, r) = topology_with X 2 r
      in case fst (select_path X topo 5 r) of Err (InsufficientRelays _ _) \<Rightarrow> True | _ \<Rightarrow> False)"

definition diverse_path_avoids_repeating_subnets_when_alternatives_exist :: "'r externals \<Rightarrow> 'r \<Rightarrow> bool" where
  "diverse_path_avoids_repeating_subnets_when_alternatives_exist X r =
     (let (topo, r) = topology_with_addresses X
            [''10.0.1.1:9001'', ''10.0.2.1:9001'', ''10.0.3.1:9001'', ''10.0.4.1:9001''] r;
          (res, r) = select_diverse_path X topo 4 r
      in unwrapped res (\<lambda>path.
           let used = List.map_filter (\<lambda>relay. subnet_key (r_address relay)) path
           in length (remdups used) = length used))"

definition diverse_path_degrades_gracefully_when_topology_has_no_diversity :: "'r externals \<Rightarrow> 'r \<Rightarrow> bool" where
  "diverse_path_degrades_gracefully_when_topology_has_no_diversity X r =
     (let (topo, r) = topology_with X 5 r; (res, r) = select_diverse_path X topo 3 r
      in unwrapped res (\<lambda>path. length path = 3))"

definition diverse_path_prefers_diversity_over_full_repeats_when_partially_available :: "'r externals \<Rightarrow> 'r \<Rightarrow> bool" where
  "diverse_path_prefers_diversity_over_full_repeats_when_partially_available X r =
     (let (topo, r) = topology_with_addresses X
            [''10.0.1.1:9001'', ''10.0.1.2:9001'', ''10.0.2.1:9001'', ''10.0.3.1:9001''] r;
          (res, r) = select_diverse_path X topo 3 r
      in unwrapped res (\<lambda>path.
           let used = List.map_filter (\<lambda>relay. subnet_key (r_address relay)) path
           in length (remdups used) = length used))"

definition diverse_path_errors_when_topology_too_small :: "'r externals \<Rightarrow> 'r \<Rightarrow> bool" where
  "diverse_path_errors_when_topology_too_small X r =
     (let (topo, r) = topology_with X 2 r
      in case fst (select_diverse_path X topo 5 r) of Err (InsufficientRelays _ _) \<Rightarrow> True | _ \<Rightarrow> False)"

definition subnet_key_handles_hostnames_and_ipv6_as_unknown :: bool where
  "subnet_key_handles_hostnames_and_ipv6_as_unknown \<longleftrightarrow>
     subnet_key ''relay2:9001'' = None \<and> subnet_key ''[::1]:9001'' = None \<and> subnet_key ''not-even-an-address'' = None"

definition subnet_key_ignores_port_differences_on_the_same_host :: bool where
  "subnet_key_ignores_port_differences_on_the_same_host \<longleftrightarrow>
     subnet_key ''127.0.0.1:9001'' = subnet_key ''127.0.0.1:9002''"

lemma subnet_key_tests:
  "subnet_key_handles_hostnames_and_ipv6_as_unknown" "subnet_key_ignores_port_differences_on_the_same_host"
  by code_simp+

text \<open>The topologies the tests build.\<close>

lemma add_relays_eq:
  "\<exists>ps r'. add_relays X i addresses t r = (foldl add_relay t ps, r') \<and> map r_address ps = addresses \<and>
     map r_id ps = map (\<lambda>j. ''relay-'' @ show_nat j) [i..<i + length addresses] \<and>
     (\<forall>p \<in> set ps. \<exists>s. r_public_key p = keypair_public_key (fst (generate X s)))"
proof (induction addresses arbitrary: i t r)
  case (Cons addr addresses)
  obtain kp r1 where g: "generate X r = (kp, r1)" by fastforce
  let ?p = "\<lparr>r_id = ''relay-'' @ show_nat i, r_address = addr, r_public_key = keypair_public_key kp\<rparr>"
  obtain ps r' where ps: "add_relays X (Suc i) addresses (add_relay t ?p) r1 = (foldl add_relay (add_relay t ?p) ps, r')"
      "map r_address ps = addresses" "map r_id ps = map (\<lambda>j. ''relay-'' @ show_nat j) [Suc i..<Suc i + length addresses]"
      "\<forall>p \<in> set ps. \<exists>s. r_public_key p = keypair_public_key (fst (generate X s))"
    using Cons.IH [of "Suc i" "add_relay t ?p" r1] by blast
  have "\<exists>s. keypair_public_key kp = keypair_public_key (fst (generate X s))" using g by (metis fst_conv)
  moreover have "[i..<i + length (addr # addresses)] = i # [Suc i..<Suc i + length addresses]"
    by (simp add: upt_conv_Cons del: upt_Suc)
  ultimately show ?case
    using ps g by (intro exI [of _ "?p # ps"] exI [of _ r']) (simp del: upt_Suc)
qed simp

lemma built_topology:
  assumes "order_ok X"
  obtains ps r' where "add_relays X 0 addresses topology_new r = (foldl add_relay topology_new ps, r')"
    "topology_inv (foldl add_relay topology_new ps)" "topology_len (foldl add_relay topology_new ps) = length addresses"
    "set (topology_all X (foldl add_relay topology_new ps)) = set ps" "map r_address ps = addresses"
    "\<forall>p \<in> set ps. \<exists>s. r_public_key p = keypair_public_key (fst (generate X s))"
proof -
  obtain ps r' where ps: "add_relays X 0 addresses topology_new r = (foldl add_relay topology_new ps, r')"
      "map r_address ps = addresses" "map r_id ps = map (\<lambda>j. ''relay-'' @ show_nat j) [0..<length addresses]"
      "\<forall>p \<in> set ps. \<exists>s. r_public_key p = keypair_public_key (fst (generate X s))"
    using add_relays_eq [of X 0 addresses topology_new r] by auto
  let ?t = "foldl add_relay topology_new ps"
  have all: "?t = topo.add_all topology_new ps" by (simp add: topo.add_all_def)
  have inv: "topology_inv ?t" unfolding all by (rule topo.inv_add_all [OF topology_inv_new])
  have dist: "distinct (map r_id ps)"
    unfolding ps(3) by (simp add: distinct_map inj_on_def show_nat_inject)
  have "card (r_id ` set ps) = length ps" using distinct_card [OF dist] by simp
  then have len: "topology_len ?t = length addresses"
    unfolding all topo.size_add_all using arg_cong [OF ps(2), of length] by simp
  have "p \<in> set (topology_all X ?t) \<longleftrightarrow> p \<in> set ps" for p
  proof
    assume "p \<in> set ps"
    from topo.get_add_all_distinct [OF dist this] have "topology_get ?t (r_id p) = Some p" unfolding all .
    then show "p \<in> set (topology_all X ?t)" using topology_all_spec(2) [OF assms inv] by simp
  next
    assume "p \<in> set (topology_all X ?t)"
    then have "topology_get ?t (r_id p) = Some p" using topology_all_spec(2) [OF assms inv] by simp
    then show "p \<in> set ps" using topo.get_add_all_mem [of ps "r_id p" p] unfolding all by simp
  qed
  then have "set (topology_all X ?t) = set ps" by blast
  with that ps(1,2,4) inv len show ?thesis by blast
qed

lemma selection_tests:
  assumes "order_ok X"
  shows "selects_requested_hop_count X r" "selected_relays_are_distinct X r" "errors_when_topology_too_small X r"
    "diverse_path_degrades_gracefully_when_topology_has_no_diversity X r"
    "diverse_path_errors_when_topology_too_small X r"
proof -
  have five: "\<exists>t r'. topology_with X 5 r = (t, r') \<and> topology_inv t \<and> topology_len t = 5" for r
    unfolding topology_with_def by (rule built_topology [OF assms, of "map (\<lambda>i. ''127.0.0.1:'' @ show_nat (9000 + i)) [0..<5]" r])
      (auto simp del: upt_rec_numeral)
  have two: "\<exists>t r'. topology_with X 2 r = (t, r') \<and> topology_inv t \<and> topology_len t = 2" for r
    unfolding topology_with_def by (rule built_topology [OF assms, of "map (\<lambda>i. ''127.0.0.1:'' @ show_nat (9000 + i)) [0..<2]" r])
      (auto simp del: upt_rec_numeral)
  obtain t r1 where t: "topology_with X 5 r = (t, r1)" "topology_inv t" "topology_len t = 5" using five by blast
  obtain u r2 where u: "topology_with X 2 r = (u, r2)" "topology_inv u" "topology_len u = 2" using two by blast
  from random_path.enough [OF assms t(2), of 3 r1] t show "selects_requested_hop_count X r"
    by (auto simp: selects_requested_hop_count_def)
  from random_path.enough [OF assms t(2), of 4 r1] t show "selected_relays_are_distinct X r"
    by (auto simp: selected_relays_are_distinct_def valid_path_def distinct_remdups_id)
  from random_path.too_few [OF assms u(2), of 5 r2] u show "errors_when_topology_too_small X r"
    by (simp add: errors_when_topology_too_small_def)
  from diverse_path.enough [OF assms t(2), of 3 r1] t show "diverse_path_degrades_gracefully_when_topology_has_no_diversity X r"
    by (auto simp: diverse_path_degrades_gracefully_when_topology_has_no_diversity_def)
  from diverse_path.too_few [OF assms u(2), of 5 r2] u show "diverse_path_errors_when_topology_too_small X r"
    by (simp add: diverse_path_errors_when_topology_too_small_def)
qed

lemma diverse_test:
  assumes "order_ok X" "n \<le> card (set (List.map_filter subnet_key addresses))" "n \<le> length addresses"
  shows "\<exists>t r1 path r2. topology_with_addresses X addresses r = (t, r1) \<and>
    select_diverse_path X t n r1 = (Ok path, r2) \<and> distinct (subnets path)"
proof -
  obtain ps r1 where b: "add_relays X 0 addresses topology_new r = (foldl add_relay topology_new ps, r1)"
      "topology_inv (foldl add_relay topology_new ps)" "topology_len (foldl add_relay topology_new ps) = length addresses"
      "set (topology_all X (foldl add_relay topology_new ps)) = set ps" "map r_address ps = addresses"
    by (rule built_topology [OF assms(1)])
  let ?t = "foldl add_relay topology_new ps"
  obtain path r2 where p: "select_diverse_path X ?t n r1 = (Ok path, r2)"
    using diverse_path.enough [OF assms(1) b(2), of n r1] b(3) assms(3) by auto
  obtain q left where q: "path = take n (q @ left)" "distinct (subnets q)"
      "card (set (subnets (topology_all X ?t))) + unknown_subnets (topology_all X ?t) = length q"
    using diverse_split [OF assms(1) b(2) p] by blast
  have "set (subnets (topology_all X ?t)) = set (List.map_filter subnet_key (map r_address ps))"
    unfolding set_eq_iff set_subnets b(4) by (auto simp: List.map_filter_def image_iff)
  then have "n \<le> length q" using q(3) assms(2) b(5) by simp
  then have "distinct (subnets path)" using q(1) subnets_take [OF q(2), of n] by simp
  with b(1) p show ?thesis by (auto simp: topology_with_addresses_def)
qed

lemma diverse_tests:
  assumes "order_ok X"
  shows "diverse_path_avoids_repeating_subnets_when_alternatives_exist X r"
    "diverse_path_prefers_diversity_over_full_repeats_when_partially_available X r"
proof -
  have "4 \<le> card (set (List.map_filter subnet_key
      [''10.0.1.1:9001'', ''10.0.2.1:9001'', ''10.0.3.1:9001'', ''10.0.4.1:9001'']))" by code_simp
  from diverse_test [OF assms this, of r] show "diverse_path_avoids_repeating_subnets_when_alternatives_exist X r"
    by (auto simp: diverse_path_avoids_repeating_subnets_when_alternatives_exist_def distinct_remdups_id
        simp flip: subnets_def)
  have "3 \<le> card (set (List.map_filter subnet_key
      [''10.0.1.1:9001'', ''10.0.1.2:9001'', ''10.0.2.1:9001'', ''10.0.3.1:9001'']))" by code_simp
  from diverse_test [OF assms this, of r] show "diverse_path_prefers_diversity_over_full_repeats_when_partially_available X r"
    by (auto simp: diverse_path_prefers_diversity_over_full_repeats_when_partially_available_def distinct_remdups_id
        simp flip: subnets_def)
qed

section \<open>dummy_traffic.rs\<close>

definition emits_a_dummy_cell_within_bounds :: "'r externals \<Rightarrow> 'r \<Rightarrow> bool" where
  "emits_a_dummy_cell_within_bounds X r =
     (let generator = generator_new (from_millis 1) (from_millis 5) in
      unwrapped (fst (next_dummy X generator r) :: (duration \<times> cell, unit) outcome) (\<lambda>(elapsed, cell).
        cell_type_of cell = Dummy \<and> from_millis 1 \<le> elapsed))"

lemma dummy_traffic_tests:
  assumes "rng_ok X"
  shows "emits_a_dummy_cell_within_bounds X r"
proof -
  have "as_millis (from_millis 5 - from_millis 1) < 2 ^ 64" "from_millis 1 \<le> duration_max" "from_millis 5 \<le> duration_max"
    by (simp_all add: as_millis_def from_millis_def duration_max_def MILLI_def)
  then obtain d c r' where "(next_dummy X (generator_new (from_millis 1) (from_millis 5)) r ::
      (duration \<times> cell, unit) outcome \<times> _) = (Ok (d, c), r')" "cell_type_of c = Dummy" "from_millis 1 \<le> d"
    using next_dummy_ok [OF assms] by blast
  then show ?thesis by (simp add: emits_a_dummy_cell_within_bounds_def)
qed

section \<open>discovery.rs\<close>

text \<open>What is started: a relay node, and a listener at its mailbox address, which is added to the
  listeners \<open>ids\<close>.\<close>

definition spin_up_discoverable_relay :: "'r externals \<Rightarrow> u16 \<Rightarrow> string
    \<Rightarrow> (string \<Rightarrow> relay_identity option) \<times> 'r \<Rightarrow> (string \<Rightarrow> relay_identity option) \<times> 'r" where
  "spin_up_discoverable_relay X port rid = (\<lambda>(ids, r).
     let addr = \<lparr>sa_host = ''127.0.0.1'', sa_port = port\<rparr>;
         (keypair, r) = generate X r;
         public_key = keypair_public_key keypair;
         config = \<lparr>listen_addr = addr, relay_id = rid, static_secret_hex = None, max_connections = 16\<rparr>;
         node = node_new config keypair;
         mailbox_addr = addr\<lparr>sa_port := sa_port addr + 1000\<rparr>;
         identity = \<lparr>i_id = rid, i_public_key = public_key, i_main_addr = socket_addr_to_string addr\<rparr>
     in (ids(socket_addr_to_string mailbox_addr \<mapsto> identity), r))"

definition discovers_every_reachable_relay :: "'r externals \<Rightarrow> 'r \<Rightarrow> bool" where
  "discovers_every_reachable_relay X r =
     (let net = (Map.empty, r);
          net = spin_up_discoverable_relay X 25000 ''disco-1'' net;
          net = spin_up_discoverable_relay X 25001 ''disco-2'' net;
          net = spin_up_discoverable_relay X 25002 ''disco-3'' net;
          addresses = [''127.0.0.1:26000'', ''127.0.0.1:26001'', ''127.0.0.1:26002'']
      in unwrapped (fst (discover_topology (fleet_dialer (fst net) 4096) addresses (\<lambda>_. mailbox_new)) ::
             (topology \<times> unreachable_relay list, unit) outcome) (\<lambda>(topology, unreachable).
           topology_len topology = 3 \<and> unreachable = [] \<and> topology_get topology ''disco-1'' \<noteq> None \<and>
           map_option r_address (topology_get topology ''disco-1'') = Some ''127.0.0.1:25000''))"

definition unreachable_relays_are_reported_not_fatal :: "'r externals \<Rightarrow> 'r \<Rightarrow> bool" where
  "unreachable_relays_are_reported_not_fatal X r =
     (let net = (Map.empty, r);
          net = spin_up_discoverable_relay X 25100 ''reachable'' net;
          addresses = [''127.0.0.1:26100'', ''127.0.0.1:26999'']
      in unwrapped (fst (discover_topology (fleet_dialer (fst net) 4096) addresses (\<lambda>_. mailbox_new)) ::
             (topology \<times> unreachable_relay list, unit) outcome) (\<lambda>(topology, unreachable).
           topology_len topology = 1 \<and> length unreachable = 1 \<and> u_address (unreachable ! 0) = ''127.0.0.1:26999''))"

lemma spin_up_ok:
  assumes "dh_ok X" "ascii rid" "length rid \<le> 100" "fleet_ok ids 4096"
  obtains i r' where "spin_up_discoverable_relay X port rid (ids, r) =
      (ids(socket_addr_to_string \<lparr>sa_host = ''127.0.0.1'', sa_port = port + 1000\<rparr> \<mapsto> i), r')" "i_id i = rid"
    "i_main_addr i = socket_addr_to_string \<lparr>sa_host = ''127.0.0.1'', sa_port = port\<rparr>"
    "fleet_ok (ids(socket_addr_to_string \<lparr>sa_host = ''127.0.0.1'', sa_port = port + 1000\<rparr> \<mapsto> i)) 4096"
proof -
  obtain kp r1 where g: "generate X r = (kp, r1)" by fastforce
  have "keypair_wf X kp" using generate_wf [OF assms(1), of r] g by simp
  then have "length (pk_bytes (keypair_public_key kp)) = 32"
    using keypair_public_length [OF assms(1)] by (simp add: keypair_public_key_def)
  moreover have "unat port < 2 ^ LENGTH(16)" by (rule unsigned_less)
  then have "length (show_nat (unat port)) \<le> 5" using show_nat_length [of "unat port" 4] by simp
  moreover have "valid_str (''127.0.0.1:'' @ show_nat (unat port))" by (rule local_address_valid)
  ultimately have "\<exists>i. i = \<lparr>i_id = rid, i_public_key = keypair_public_key kp,
      i_main_addr = socket_addr_to_string \<lparr>sa_host = ''127.0.0.1'', sa_port = port\<rparr>\<rparr> \<and>
      identity_ok i \<and> length (describe_message i) \<le> 4096"
    using assms(2,3) by (simp add: identity_ok_def short_str_def ascii_valid_str
        describe_message_def len_prefixed_def socket_addr_to_string_def)
  then obtain i where i: "i = \<lparr>i_id = rid, i_public_key = keypair_public_key kp,
      i_main_addr = socket_addr_to_string \<lparr>sa_host = ''127.0.0.1'', sa_port = port\<rparr>\<rparr>"
      and ok: "identity_ok i" "length (describe_message i) \<le> 4096" by blast
  have "fleet_ok (ids(socket_addr_to_string \<lparr>sa_host = ''127.0.0.1'', sa_port = port + 1000\<rparr> \<mapsto> i)) 4096"
    using assms(4) ok by (simp add: fleet_ok_def)
  then show ?thesis using that [of i r1] g i by (simp add: spin_up_discoverable_relay_def)
qed

lemma discovery_tests:
  assumes "dh_ok X"
  shows "discovers_every_reachable_relay X r" "unreachable_relays_are_reported_not_fatal X r"
proof -
  have none: "fleet_ok Map.empty 4096" by (simp add: fleet_ok_def)
  have addr: "socket_addr_to_string \<lparr>sa_host = ''127.0.0.1'', sa_port = 26000\<rparr> = ''127.0.0.1:26000''"
      "socket_addr_to_string \<lparr>sa_host = ''127.0.0.1'', sa_port = 26001\<rparr> = ''127.0.0.1:26001''"
      "socket_addr_to_string \<lparr>sa_host = ''127.0.0.1'', sa_port = 26002\<rparr> = ''127.0.0.1:26002''"
      "socket_addr_to_string \<lparr>sa_host = ''127.0.0.1'', sa_port = 25000\<rparr> = ''127.0.0.1:25000''"
      "socket_addr_to_string \<lparr>sa_host = ''127.0.0.1'', sa_port = 26100\<rparr> = ''127.0.0.1:26100''"
    by (simp_all add: socket_addr_to_string_def show_nat.simps digit_char_def) (code_simp+)
  obtain i1 s1 where a: "spin_up_discoverable_relay X 25000 ''disco-1'' (Map.empty, r) = ([''127.0.0.1:26000'' \<mapsto> i1], s1)"
      "i_id i1 = ''disco-1''" "i_main_addr i1 = ''127.0.0.1:25000''" "fleet_ok [''127.0.0.1:26000'' \<mapsto> i1] 4096"
    by (rule spin_up_ok [OF assms _ _ none, of "''disco-1''" 25000 r]) (simp_all add: ascii_def addr)
  obtain i2 s2 where b: "spin_up_discoverable_relay X 25001 ''disco-2'' ([''127.0.0.1:26000'' \<mapsto> i1], s1) =
      ([''127.0.0.1:26000'' \<mapsto> i1, ''127.0.0.1:26001'' \<mapsto> i2], s2)"
      "i_id i2 = ''disco-2''" "fleet_ok [''127.0.0.1:26000'' \<mapsto> i1, ''127.0.0.1:26001'' \<mapsto> i2] 4096"
    by (rule spin_up_ok [OF assms _ _ a(4), of "''disco-2''" 25001 s1]) (simp_all add: ascii_def addr)
  obtain i3 s3 where c: "spin_up_discoverable_relay X 25002 ''disco-3'' ([''127.0.0.1:26000'' \<mapsto> i1, ''127.0.0.1:26001'' \<mapsto> i2], s2) =
      ([''127.0.0.1:26000'' \<mapsto> i1, ''127.0.0.1:26001'' \<mapsto> i2, ''127.0.0.1:26002'' \<mapsto> i3], s3)"
      "i_id i3 = ''disco-3''" "fleet_ok [''127.0.0.1:26000'' \<mapsto> i1, ''127.0.0.1:26001'' \<mapsto> i2, ''127.0.0.1:26002'' \<mapsto> i3] 4096"
    by (rule spin_up_ok [OF assms _ _ b(3), of "''disco-3''" 25002 s2]) (simp_all add: ascii_def addr)
  show "discovers_every_reachable_relay X r"
    using a b c by (simp add: discovers_every_reachable_relay_def discover_topology_def discover_fleet [OF c(3)]
        List.map_filter_def relay_of_identity_def topology_len_def topology_get_def add_relay_def topology_new_def Let_def
        del: discover_loop.simps)
  obtain i s where d: "spin_up_discoverable_relay X 25100 ''reachable'' (Map.empty, r) = ([''127.0.0.1:26100'' \<mapsto> i], s)"
      "fleet_ok [''127.0.0.1:26100'' \<mapsto> i] 4096"
    by (rule spin_up_ok [OF assms _ _ none, of "''reachable''" 25100 r]) (simp_all add: ascii_def addr)
  show "unreachable_relays_are_reported_not_fatal X r"
    using d by (simp add: unreachable_relays_are_reported_not_fatal_def discover_topology_def discover_fleet [OF d(2)]
        List.map_filter_def relay_of_identity_def topology_len_def add_relay_def topology_new_def Let_def del: discover_loop.simps)
qed

section \<open>topology_file.rs\<close>

definition test_topology :: "'r externals \<Rightarrow> 'r \<Rightarrow> topology \<times> 'r" where
  "test_topology X r = add_relays X 0 (map (\<lambda>i. ''127.0.0.1:'' @ show_nat (9001 + i)) [0..<3]) topology_new r"

definition json_roundtrip_preserves_every_relay :: "'r externals \<Rightarrow> (string \<Rightarrow> (topology_file, string) outcome)
    \<Rightarrow> (topology_file \<Rightarrow> string option) \<Rightarrow> 'r \<Rightarrow> bool" where
  "json_roundtrip_preserves_every_relay X from_str to_string_pretty r =
     (let (original, r) = test_topology X r in
      unwrapped (to_json X to_string_pretty original) (\<lambda>json.
        unwrapped (from_json X from_str json) (\<lambda>restored.
          topology_len restored = topology_len original \<and>
          list_all (\<lambda>relay. case topology_get restored (r_id relay) of
              Some restored_relay \<Rightarrow> r_address restored_relay = r_address relay \<and>
                pk_bytes (r_public_key restored_relay) = pk_bytes (r_public_key relay)
            | None \<Rightarrow> False) (topology_all X original))))"

definition file_roundtrip_via_a_real_temp_file :: "'r externals \<Rightarrow> (string \<Rightarrow> (topology_file, string) outcome)
    \<Rightarrow> (topology_file \<Rightarrow> string option) \<Rightarrow> (string \<Rightarrow> 'f \<Rightarrow> (string, string) outcome)
    \<Rightarrow> (string \<Rightarrow> string \<Rightarrow> 'f \<Rightarrow> (unit, string) outcome \<times> 'f) \<Rightarrow> string \<Rightarrow> 'f \<Rightarrow> 'r \<Rightarrow> bool" where
  "file_roundtrip_via_a_real_temp_file X from_str to_string_pretty read_to_string fs_write path fs r =
     (let (original, r) = test_topology X r;
          (res, fs) = save_to_file X to_string_pretty fs_write original path fs
      in unwrapped res (\<lambda>_.
           unwrapped (load_from_file X from_str read_to_string path fs) (\<lambda>restored.
             topology_len restored = topology_len original)))"

text \<open>The tests of malformed files; \<open>bad_key_file\<close> is the text the two tests of keys share but for
  the key.\<close>

definition unsupported_version_is_rejected :: "'r externals \<Rightarrow> (string \<Rightarrow> (topology_file, string) outcome) \<Rightarrow> bool" where
  "unsupported_version_is_rejected X from_str =
     (case from_json X from_str ''{\"version\": 99, \"relays\": []}'' of
        Err (UnsupportedFileVersion found _) \<Rightarrow> found = 99 | _ \<Rightarrow> False)"

definition bad_key_file :: "string \<Rightarrow> string" where
  "bad_key_file key = ''{'' @ CHR 0x0A # ''            \"version\": 1,'' @
     CHR 0x0A # ''            \"relays\": [{ \"id\": \"bad\", \"address\": \"127.0.0.1:9001\", \"public_key\": \"'' @ key @ ''\" }]'' @
     CHR 0x0A # ''        }''"

definition invalid_hex_public_key_is_rejected :: "'r externals \<Rightarrow> (string \<Rightarrow> (topology_file, string) outcome) \<Rightarrow> bool" where
  "invalid_hex_public_key_is_rejected X from_str =
     (case from_json X from_str (bad_key_file ''not hex at all'') of Err (InvalidPublicKey _ _) \<Rightarrow> True | _ \<Rightarrow> False)"

definition wrong_length_public_key_is_rejected :: "'r externals \<Rightarrow> (string \<Rightarrow> (topology_file, string) outcome) \<Rightarrow> bool" where
  "wrong_length_public_key_is_rejected X from_str =
     (case from_json X from_str (bad_key_file ''aabbcc'') of Err (InvalidPublicKey _ _) \<Rightarrow> True | _ \<Rightarrow> False)"

definition malformed_json_is_rejected :: "'r externals \<Rightarrow> (string \<Rightarrow> (topology_file, string) outcome) \<Rightarrow> bool" where
  "malformed_json_is_rejected X from_str =
     (case from_json X from_str ''not json at all'' of Err (Parse _) \<Rightarrow> True | _ \<Rightarrow> False)"

lemma test_topology_ok:
  assumes "order_ok X" "dh_ok X"
  obtains t r' where "test_topology X r = (t, r')" "topology_inv t" "keys_ok t"
proof -
  obtain ps r1 where b: "test_topology X r = (foldl add_relay topology_new ps, r1)"
      "topology_inv (foldl add_relay topology_new ps)"
      "set (topology_all X (foldl add_relay topology_new ps)) = set ps"
      "\<forall>p \<in> set ps. \<exists>s. r_public_key p = keypair_public_key (fst (generate X s))"
    unfolding test_topology_def by (rule built_topology [OF assms(1)])
  let ?t = "foldl add_relay topology_new ps"
  have "keys_ok ?t" unfolding keys_ok_def
  proof (intro allI impI)
    fix i p assume get: "topology_get ?t i = Some p"
    then have "r_id p = i" using topo.get_key [OF b(2)] by blast
    with get have "p \<in> set ps" using topology_all_spec(2) [OF assms(1) b(2)] b(3) by auto
    with b(4) obtain s where "r_public_key p = keypair_public_key (fst (generate X s))" by blast
    then show "length (pk_bytes (r_public_key p)) = 32"
      using keypair_public_length [OF assms(2) generate_wf [OF assms(2)]] by (simp add: keypair_public_key_def)
  qed
  with that b(1,2) show ?thesis by blast
qed

lemma topology_file_tests:
  assumes "order_ok X" "dh_ok X" "hex_ok X" "json_ok from_str to_string_pretty"
  shows "json_roundtrip_preserves_every_relay X from_str to_string_pretty r"
    "fs_ok read_to_string fs_write \<Longrightarrow> (\<And>path s fs. \<exists>fs'. fs_write path s fs = (Ok (), fs')) \<Longrightarrow>
      file_roundtrip_via_a_real_temp_file X from_str to_string_pretty read_to_string fs_write path fs r"
proof -
  obtain t r' where t: "test_topology X r = (t, r')" "topology_inv t" "keys_ok t"
    by (rule test_topology_ok [OF assms(1,2)])
  let ?u = "foldl add_relay topology_new (topology_all X t)"
  obtain s where s: "to_json X to_string_pretty t = Ok s" "from_json X from_str s = Ok ?u"
    using json_roundtrip [OF assms(1,3,4) t(2,3)] by blast
  have "topology_get ?u (r_id p) = Some p" if "p \<in> set (topology_all X t)" for p
    using rebuild_topology [OF assms(1) t(2)] topology_all_spec(2) [OF assms(1) t(2)] that by simp
  then show "json_roundtrip_preserves_every_relay X from_str to_string_pretty r"
    using t(1) s restored_len [OF assms(1) t(2)]
    by (simp add: json_roundtrip_preserves_every_relay_def list_all_iff)
  assume fs: "fs_ok read_to_string fs_write" "\<And>path s fs. \<exists>fs'. fs_write path s fs = (Ok (), fs')"
  obtain fs' where "fs_write path s fs = (Ok (), fs')" using fs(2) by blast
  then show "file_roundtrip_via_a_real_temp_file X from_str to_string_pretty read_to_string fs_write path fs r"
    using fs(1) t(1) s restored_len [OF assms(1) t(2)]
    by (simp add: file_roundtrip_via_a_real_temp_file_def save_to_file_def load_from_file_def fs_ok_def)
qed

text \<open>These pass when the JSON parser reads the four texts for what they are.\<close>

definition parses_test_files :: "(string \<Rightarrow> (topology_file, string) outcome) \<Rightarrow> bool" where
  "parses_test_files from_str \<longleftrightarrow>
     from_str ''{\"version\": 99, \"relays\": []}'' = Ok \<lparr>f_version = 99, f_relays = []\<rparr> \<and>
     (\<forall>key \<in> {''not hex at all'', ''aabbcc''}. from_str (bad_key_file key) =
        Ok \<lparr>f_version = 1, f_relays = [\<lparr>e_id = ''bad'', e_address = ''127.0.0.1:9001'', e_public_key = key\<rparr>]\<rparr>) \<and>
     (\<exists>e. from_str ''not json at all'' = Err e)"

lemma malformed_file_tests:
  assumes "hex_halves X" "parses_test_files from_str"
  shows "unsupported_version_is_rejected X from_str" "invalid_hex_public_key_is_rejected X from_str"
    "wrong_length_public_key_is_rejected X from_str" "malformed_json_is_rejected X from_str"
proof -
  have short: "hex_decode X s = None \<or> (\<exists>bs. hex_decode X s = Some bs \<and> length bs \<noteq> 32)" if "length s \<noteq> 64" for s
    using assms(1) that by (cases "hex_decode X s") (auto simp: hex_halves_def)
  note parsed = assms(2) [unfolded parses_test_files_def]
  show "unsupported_version_is_rejected X from_str" "malformed_json_is_rejected X from_str"
    using parsed by (auto simp: unsupported_version_is_rejected_def malformed_json_is_rejected_def from_json_def CURRENT_VERSION_def)
  show "invalid_hex_public_key_is_rejected X from_str"
    using parsed short [of "''not hex at all''"]
    by (auto simp: invalid_hex_public_key_is_rejected_def from_json_def CURRENT_VERSION_def)
  show "wrong_length_public_key_is_rejected X from_str"
    using parsed short [of "''aabbcc''"]
    by (auto simp: wrong_length_public_key_is_rejected_def from_json_def CURRENT_VERSION_def)
qed

end
