(* ===== verification/Sdk_Tests.thy ===== *)
theory Sdk_Tests
  imports Routing_Tests Cli
begin

text \<open>
  The unit tests of \<open>crates/veil-sdk/src\<close> and of \<open>crates/veil-cli/src/main.rs\<close> on the model, in the
  manner of \<open>Core_Tests\<close>.
\<close>

section \<open>envelope.rs\<close>

definition wrap_then_unwrap_roundtrips :: "'r externals \<Rightarrow> 'r \<Rightarrow> bool" where
  "wrap_then_unwrap_roundtrips X r =
     (let (sender, r) = generate X r;
          fake_encrypted = replicate ENCRYPTED_CELL_SIZE 7;
          envelope = wrap (keypair_public_key sender) fake_encrypted
      in unwrapped (unwrap envelope) (\<lambda>(recovered_public, recovered_cell).
           pk_bytes recovered_public = pk_bytes (keypair_public_key sender) \<and> recovered_cell = fake_encrypted))"

definition wrong_length_is_rejected :: bool where
  "wrong_length_is_rejected = is_err (unwrap (replicate 10 0))"

definition envelope_is_exactly_the_advertised_size :: "'r externals \<Rightarrow> 'r \<Rightarrow> bool" where
  "envelope_is_exactly_the_advertised_size X r =
     (let (sender, r) = generate X r;
          envelope = wrap (keypair_public_key sender) (replicate ENCRYPTED_CELL_SIZE 0)
      in length envelope = ENVELOPE_SIZE)"

lemma generated_public_length:
  assumes "dh_ok X"
  shows "length (pk_bytes (keypair_public_key (fst (generate X r)))) = 32"
  using keypair_public_length [OF assms generate_wf [OF assms]] by (simp add: keypair_public_key_def)

lemma envelope_tests:
  assumes "dh_ok X"
  shows "wrap_then_unwrap_roundtrips X r" "wrong_length_is_rejected" "envelope_is_exactly_the_advertised_size X r"
proof -
  obtain kp s where g: "generate X r = (kp, s)" by fastforce
  then have pk: "length (pk_bytes (keypair_public_key kp)) = 32" using generated_public_length [OF assms, of r] by simp
  show "wrap_then_unwrap_roundtrips X r"
    using envelope_codec.dec_enc [of "(keypair_public_key kp, replicate ENCRYPTED_CELL_SIZE 7)"] g pk
    by (simp add: wrap_then_unwrap_roundtrips_def envelope_valid_def)
  show "wrong_length_is_rejected"
    by (simp add: wrong_length_is_rejected_def unwrap_def ENVELOPE_SIZE_def encryption_consts)
  show "envelope_is_exactly_the_advertised_size X r"
    using g pk by (simp add: envelope_is_exactly_the_advertised_size_def wrap_eq ENVELOPE_SIZE_def)
qed

section \<open>session.rs\<close>

definition sender_and_recipient_derive_the_same_key :: "'r externals \<Rightarrow> 'r \<Rightarrow> bool" where
  "sender_and_recipient_derive_the_same_key X r =
     (let (recipient, r) = generate X r;
          (established, r) = establish X (keypair_public_key recipient) r
      in unwrapped established (\<lambda>session.
           let recipient_shared = diffie_hellman X recipient (session_public_key session)
           in unwrapped (derive_key X recipient_shared (as_bytes ''veil-sdk-session-v1'')) (\<lambda>recipient_key.
                s_cell_key session = recipient_key)))"

lemma session_test:
  assumes "dh_ok X" "hkdf_ok X"
  shows "sender_and_recipient_derive_the_same_key X r"
proof -
  obtain kp s where g: "generate X r = (kp, s)" by fastforce
  with generate_wf [OF assms(1), of r] have "keypair_wf X kp" by simp
  from establish_ok [OF assms this, of s] g show ?thesis
    by (auto simp: sender_and_recipient_derive_the_same_key_def keypair_public_key_def session_with_def SESSION_CONTEXT_def)
qed

section \<open>cover_traffic.rs\<close>

text \<open>The relay accepts the connection that the first round of the spawned loop opens, serves what
  is written on it, and the first delivery is looked at; the round sleeps less than the three
  seconds the test waits.\<close>

definition cover_traffic_actually_delivers_cells_to_a_relay :: "'r externals \<Rightarrow> 'r \<Rightarrow> bool" where
  "cover_traffic_actually_delivers_cells_to_a_relay X r =
     (let addr = \<lparr>sa_host = ''127.0.0.1'', sa_port = 23000\<rparr>;
          (keypair, r) = generate X r;
          public_key = keypair_public_key keypair;
          config = \<lparr>listen_addr = addr, relay_id = ''cover-relay'', static_secret_hex = None, max_connections = 16\<rparr>;
          node = node_new config keypair;
          topology = add_relay topology_new
            \<lparr>r_id = ''cover-relay'', r_address = socket_addr_to_string addr, r_public_key = public_key\<rparr>;
          (round, r, wire) = cover_round X wire_net topology 1 (generator_new (10 * MILLI) (30 * MILLI)) (r, [])
      in unwrapped round (\<lambda>slept.
           slept \<le> 3000 * MILLI \<and> length wire = 1 \<and> fst (wire ! 0) = socket_addr_to_string addr \<and>
           (let (accepted, node) = accept_connection node;
                (res, node, _) = handle_connection X wire_net (snd (wire ! 0)) (node, [])
            in accepted \<and> unwrapped res (\<lambda>_. delivery node \<noteq> [] \<and> length (hd (delivery node)) = ENVELOPE_SIZE))))"

lemma cover_traffic_test:
  assumes laws: "rng_ok X" "dh_ok X" "hkdf_ok X" "aead_ok X" "order_ok X"
  shows "cover_traffic_actually_delivers_cells_to_a_relay X r"
proof -
  let ?addr = "\<lparr>sa_host = ''127.0.0.1'', sa_port = 23000\<rparr>" and ?g = "generator_new (10 * MILLI) (30 * MILLI)"
  obtain kp r1 where g: "generate X r = (kp, r1)" by fastforce
  let ?relay = "\<lparr>r_id = ''cover-relay'', r_address = socket_addr_to_string ?addr, r_public_key = keypair_public_key kp\<rparr>"
  let ?t = "add_relay topology_new ?relay" and ?K = "[socket_addr_to_string ?addr \<mapsto> kp]"
  have kp: "keypair_wf X kp" using generate_wf [OF laws(2), of r] g by simp
  have short: "valid_str (socket_addr_to_string ?addr)" "length (socket_addr_to_string ?addr) < 65536"
    using local_address_valid [of 23000] show_nat_length [of 23000 4] by (simp_all add: socket_addr_to_string_def)
  have t: "topology_inv ?t" "topology_len ?t = 1" "topology_get ?t i = (if i = ''cover-relay'' then Some ?relay else None)" for i
    by (rule topology_inv_add [OF topology_inv_new])
      (simp_all add: topology_len_def add_relay_def topology_new_def topology_get_def)
  have ready: "relays_ready X ?K ?t"
    unfolding relays_ready_def t(3) using kp short by (auto simp: keypair_public_key_def split: if_splits)
  obtain slept c r2 where d: "next_dummy X ?g r1 = (Ok (slept, c) :: (duration \<times> cell, unit) outcome, r2)"
      "cell_wf c" "slept < 30 * MILLI"
    using next_dummy_in_interval [OF laws(1), of "10 * MILLI" "30 * MILLI" r1]
    by (auto simp: MILLI_def as_millis_def duration_max_def)
  obtain path onion env r3 where c: "cover_round X wire_net ?t 1 ?g (r1, []) =
        (Ok slept, r3, [(r_address (hd path), write_frame onion)])"
      "valid_path ?t path" "length path = 1" "layer_from X path (path_keys ?K path) env 0 onion" "length env = ENVELOPE_SIZE"
    using cover_round_ok [OF laws t(1) ready, of 1 ?g r1 slept c r2 "[]"] d(1,2) t(2) by (auto simp: max_hops_def)
  have path: "path = [?relay]"
    using c(2,3) by (cases path) (auto simp: valid_path_def t(3) split: if_splits)
  have onion: "peel_onion_layer X kp onion = Ok (Deliver env)" "length onion < 4294967296"
    using c(4,5) by (auto simp: layer_from_def path path_keys_def ENVELOPE_SIZE_def encryption_consts split: outcome.splits)
  obtain n where n: "accept_connection (node_new \<lparr>listen_addr = ?addr, relay_id = ''cover-relay'', static_secret_hex = None,
      max_connections = 16\<rparr> kp) = (True, n)" "node_keypair n = kp" "delivery n = []" "delivery_open n"
    by (simp add: accept_connection_def node_new_def)
  have "process_frame X wire_net onion (n, []) = (Ok (), count_delivered (send_delivery env n), [])"
    using onion(1) n(2) by (simp add: process_frame_def)
  then have "handle_connection X wire_net (write_frame onion) (n, []) = (Ok (), count_delivered (send_delivery env n), [])"
    using handle_connection_frame [OF onion(2), of X wire_net "(n, [])" _ "[]"] by (simp add: handle_connection_end)
  moreover have "delivery (count_delivered (send_delivery env n)) = [env]"
    using n(3,4) by (simp add: count_delivered_def send_delivery_def)
  ultimately show ?thesis
    using g c(1,5) d(3) n(1) by (simp add: cover_traffic_actually_delivers_cells_to_a_relay_def path MILLI_def Let_def)
qed

section \<open>veil-cli: main.rs\<close>

definition works_with_a_literal_ip_address :: "bool \<Rightarrow> bool" where
  "works_with_a_literal_ip_address checks =
     (mailbox_address_from checks ''127.0.0.1:9001'' = (Ok ''127.0.0.1:10001'' :: (string, unit) outcome))"

definition works_with_a_dns_hostname_like_a_docker_service_name :: "bool \<Rightarrow> bool" where
  "works_with_a_dns_hostname_like_a_docker_service_name checks =
     (mailbox_address_from checks ''relay2:9001'' = (Ok ''relay2:10001'' :: (string, unit) outcome))"

definition panics_on_missing_port :: "bool \<Rightarrow> bool" where
  "panics_on_missing_port checks = (mailbox_address_from checks ''relay2'' = (Panic :: (string, unit) outcome))"

lemma cli_tests:
  "works_with_a_literal_ip_address checks" "works_with_a_dns_hostname_like_a_docker_service_name checks"
  "panics_on_missing_port checks"
proof -
  have shown: "show_nat 9001 = ''9001''" "show_nat 10001 = ''10001''"
    by (simp_all add: show_nat.simps digit_char_def) (code_simp+)
  have from_show: "mailbox_address_from checks (h @ '':9001'') = (Ok (h @ '':10001'') :: (string, unit) outcome)" for h
    using mailbox_address_from_show [of checks "\<lparr>sa_host = h, sa_port = 9001\<rparr>"]
    by (simp add: socket_addr_to_string_def add_port_def shown)
  show "works_with_a_literal_ip_address checks" "works_with_a_dns_hostname_like_a_docker_service_name checks"
    using from_show [of "''127.0.0.1''"] from_show [of "''relay2''"]
    by (simp_all add: works_with_a_literal_ip_address_def works_with_a_dns_hostname_like_a_docker_service_name_def)
  show "panics_on_missing_port checks"
    by (simp add: panics_on_missing_port_def mailbox_address_from_def)
qed

end
