(* ===== verification/Chance_Tests.thy ===== *)
theory Chance_Tests
  imports Relay_Tests
begin

text \<open>
  The unit tests that expect random or encrypted values to differ, in the manner of \<open>Core_Tests\<close>.
  They pass with overwhelming probability and not for certain, so each has a lemma that says
  exactly when it passes: unless a nonce is drawn twice, a derived key or a ciphertext collides.
\<close>

section \<open>crypto/encryption.rs\<close>

definition wrong_key_fails_to_decrypt :: "'r externals \<Rightarrow> 'r \<Rightarrow> bool" where
  "wrong_key_fails_to_decrypt X r =
     (let key_a = replicate 32 1; key_b = replicate 32 2 in
      unwrapped (new_data (replicate 16 0) 0 1 (as_bytes ''secret'')) (\<lambda>cell.
        let (res, r) = encrypt_cell X key_a cell r in
        unwrapped res (\<lambda>encrypted. decrypt_cell X key_b encrypted = Err DecryptionFailed)))"

definition tampered_ciphertext_fails_authentication :: "'r externals \<Rightarrow> 'r \<Rightarrow> bool" where
  "tampered_ciphertext_fails_authentication X r =
     (let key = replicate 32 9 in
      unwrapped (new_data (replicate 16 0) 0 1 (as_bytes ''integrity check'')) (\<lambda>cell.
        let (res, r) = encrypt_cell X key cell r in
        unwrapped res (\<lambda>encrypted.
          let encrypted = encrypted[NONCE_SIZE + 5 := xor (encrypted ! (NONCE_SIZE + 5)) 1]
          in decrypt_cell X key encrypted = Err DecryptionFailed)))"

definition repeated_encryption_of_same_cell_produces_different_ciphertext :: "'r externals \<Rightarrow> 'r \<Rightarrow> bool" where
  "repeated_encryption_of_same_cell_produces_different_ciphertext X r =
     (let key = replicate 32 5 in
      unwrapped (new_data (replicate 16 0) 0 1 (as_bytes ''same content'')) (\<lambda>cell.
        let (res, r) = encrypt_cell X key cell r in
        unwrapped res (\<lambda>first.
          let (res, r) = encrypt_cell X key cell r in unwrapped res (\<lambda>second. first \<noteq> second))))"

text \<open>Decryption fails with exactly this error when the ciphertext is none under the key.\<close>

lemma decrypt_cell_failed_iff:
  assumes "aead_ok X" "length key = 32" "length n = NONCE_SIZE" "length ct = CELL_SIZE + TAG_SIZE"
  shows "decrypt_cell X key (n @ ct) = Err DecryptionFailed \<longleftrightarrow> (\<nexists>p. aead_encrypt X key n p = Some ct)"
proof -
  have open_iff: "aead_decrypt X key n ct = Some p \<longleftrightarrow> aead_encrypt X key n p = Some ct" for p
    using aead_decrypt_Some_iff [OF assms(1,2)] assms(3) by (simp add: NONCE_SIZE_def)
  have "from_bytes p \<noteq> Err DecryptionFailed" for p
    by (auto simp: from_bytes_def from_u8_def Let_def outcome_simps split: if_splits)
  then show ?thesis
    using open_iff assms(3) by (cases "aead_decrypt X key n ct") (auto simp: decrypt_cell_def)
qed

lemma encrypted_sample:
  assumes "rng_ok X" "aead_ok X" "length d \<le> 488" "length key = 32" "fill_bytes X NONCE_SIZE r = (n, r1)"
  obtains c ct where "new_data (replicate 16 0) 0 1 d = Ok c" "length n = NONCE_SIZE" "length ct = CELL_SIZE + TAG_SIZE"
    "aead_encrypt X key n (to_bytes c) = Some ct" "encrypt_cell X key c r = (Ok (n @ ct), r1)"
proof -
  obtain c where c: "new_data (replicate 16 0) 0 1 d = Ok c" "cell_wf c"
    by (rule new_data_fits [of d 0 1 "replicate 16 0"]) (simp_all add: assms(3))
  from encrypt_cell_eq [OF assms(1,2,4) c(2) assms(5)] c(1) that fill_bytes_length_eq [OF assms(1,5)] show ?thesis by blast
qed

lemma wrong_key_test:
  assumes "rng_ok X" "aead_ok X" "fill_bytes X NONCE_SIZE r = (n, r1)"
  shows "\<exists>c ct. aead_encrypt X (replicate 32 1) n (to_bytes c) = Some ct \<and>
    (wrong_key_fails_to_decrypt X r \<longleftrightarrow> (\<nexists>p. aead_encrypt X (replicate 32 2) n p = Some ct))"
proof -
  obtain c ct where c: "new_data (replicate 16 0) 0 1 (as_bytes ''secret'') = Ok c" "length n = NONCE_SIZE"
      "length ct = CELL_SIZE + TAG_SIZE" "aead_encrypt X (replicate 32 1) n (to_bytes c) = Some ct"
      "encrypt_cell X (replicate 32 1) c r = (Ok (n @ ct), r1)"
    by (rule encrypted_sample [OF assms(1,2) _ _ assms(3), of "as_bytes ''secret''" "replicate 32 1"]) simp_all
  with decrypt_cell_failed_iff [OF assms(2) _ c(2,3), of "replicate 32 2"] show ?thesis
    by (intro exI [of _ c] exI [of _ ct]) (simp add: wrong_key_fails_to_decrypt_def)
qed

lemma tampering_test:
  assumes "rng_ok X" "aead_ok X" "fill_bytes X NONCE_SIZE r = (n, r1)"
  shows "\<exists>c ct. aead_encrypt X (replicate 32 9) n (to_bytes c) = Some ct \<and>
    (tampered_ciphertext_fails_authentication X r \<longleftrightarrow>
      (\<nexists>p. aead_encrypt X (replicate 32 9) n p = Some (ct[5 := xor (ct ! 5) 1])))"
proof -
  obtain c ct where c: "new_data (replicate 16 0) 0 1 (as_bytes ''integrity check'') = Ok c" "length n = NONCE_SIZE"
      "length ct = CELL_SIZE + TAG_SIZE" "aead_encrypt X (replicate 32 9) n (to_bytes c) = Some ct"
      "encrypt_cell X (replicate 32 9) c r = (Ok (n @ ct), r1)"
    by (rule encrypted_sample [OF assms(1,2) _ _ assms(3), of "as_bytes ''integrity check''" "replicate 32 9"]) simp_all
  have "(n @ ct)[NONCE_SIZE + 5 := xor ((n @ ct) ! (NONCE_SIZE + 5)) 1] = n @ ct[5 := xor (ct ! 5) 1]"
    using c(2) by (simp add: list_update_append nth_append)
  with c decrypt_cell_failed_iff [OF assms(2) _ c(2), of "replicate 32 9" "ct[5 := xor (ct ! 5) 1]"] show ?thesis
    by (intro exI [of _ c] exI [of _ ct]) (simp add: tampered_ciphertext_fails_authentication_def)
qed

lemma repeated_encryption_test:
  assumes "rng_ok X" "aead_ok X" "fill_bytes X NONCE_SIZE r = (n, r1)" "fill_bytes X NONCE_SIZE r1 = (m, r2)"
  shows "repeated_encryption_of_same_cell_produces_different_ciphertext X r \<longleftrightarrow> n \<noteq> m"
proof -
  have key: "length (as_bytes ''same content'') \<le> 488" "length (replicate 32 (5 :: byte)) = 32" by simp_all
  obtain c ct where "new_data (replicate 16 0) 0 1 (as_bytes ''same content'') = Ok c" "length n = NONCE_SIZE"
      "aead_encrypt X (replicate 32 5) n (to_bytes c) = Some ct" "encrypt_cell X (replicate 32 5) c r = (Ok (n @ ct), r1)"
    by (rule encrypted_sample [OF assms(1,2) key assms(3)])
  moreover obtain d dt where "new_data (replicate 16 0) 0 1 (as_bytes ''same content'') = Ok d" "length m = NONCE_SIZE"
      "aead_encrypt X (replicate 32 5) m (to_bytes d) = Some dt" "encrypt_cell X (replicate 32 5) d r1 = (Ok (m @ dt), r2)"
    by (rule encrypted_sample [OF assms(1,2) key assms(4)])
  ultimately show ?thesis
    by (auto simp: repeated_encryption_of_same_cell_produces_different_ciphertext_def)
qed

section \<open>crypto/keys.rs\<close>

definition different_contexts_derive_different_keys :: "'r externals \<Rightarrow> 'r \<Rightarrow> bool" where
  "different_contexts_derive_different_keys X r =
     (let (alice, r) = generate X r; (bob, r) = generate X r;
          shared = diffie_hellman X alice (keypair_public_key bob)
      in unwrapped (derive_key X shared (as_bytes ''context-a'')) (\<lambda>key_a.
           unwrapped (derive_key X shared (as_bytes ''context-b'')) (\<lambda>key_b. key_a \<noteq> key_b)))"

definition different_keypairs_derive_different_shared_secrets :: "'r externals \<Rightarrow> 'r \<Rightarrow> bool" where
  "different_keypairs_derive_different_shared_secrets X r =
     (let (alice, r) = generate X r; (bob, r) = generate X r; (mallory, r) = generate X r in
      unwrapped (derive_key X (diffie_hellman X alice (keypair_public_key bob)) (as_bytes ''ctx'')) (\<lambda>alice_bob.
        unwrapped (derive_key X (diffie_hellman X alice (keypair_public_key mallory)) (as_bytes ''ctx'')) (\<lambda>alice_mallory.
          alice_bob \<noteq> alice_mallory)))"

text \<open>They pass where HKDF-SHA256 keeps contexts, and secrets, apart.\<close>

lemma key_chance_tests:
  assumes "hkdf_ok X"
  shows "(\<And>s. hkdf_sha256 X s (as_bytes ''context-a'') 32 \<noteq> hkdf_sha256 X s (as_bytes ''context-b'') 32) \<Longrightarrow>
      different_contexts_derive_different_keys X r"
    "inj (\<lambda>s. hkdf_sha256 X s (as_bytes ''ctx'') 32) \<Longrightarrow> generate X r = (alice, r1) \<Longrightarrow> generate X r1 = (bob, r2) \<Longrightarrow>
      generate X r2 = (mallory, r3) \<Longrightarrow> x25519 X (secret alice) (public bob) \<noteq> x25519 X (secret alice) (public mallory) \<Longrightarrow>
      different_keypairs_derive_different_shared_secrets X r"
proof -
  have key: "\<exists>k. derive_key X (SharedSecret s) ctx = Ok k \<and> hkdf_sha256 X s ctx 32 = Some k" for s ctx
    using hkdf_32 [OF assms, of s ctx] by (auto simp: derive_key_def)
  show "different_contexts_derive_different_keys X r"
    if "\<And>s. hkdf_sha256 X s (as_bytes ''context-a'') 32 \<noteq> hkdf_sha256 X s (as_bytes ''context-b'') 32"
  proof -
    obtain alice r1 where a: "generate X r = (alice, r1)" by fastforce
    obtain bob r2 where b: "generate X r1 = (bob, r2)" by fastforce
    let ?s = "x25519 X (secret alice) (keypair_public_key bob)"
    from key [of ?s "as_bytes ''context-a''"] key [of ?s "as_bytes ''context-b''"] that [of ?s] show ?thesis
      by (auto simp: different_contexts_derive_different_keys_def a b diffie_hellman_def)
  qed
  show "different_keypairs_derive_different_shared_secrets X r"
    if "inj (\<lambda>s. hkdf_sha256 X s (as_bytes ''ctx'') 32)" "generate X r = (alice, r1)" "generate X r1 = (bob, r2)"
      "generate X r2 = (mallory, r3)" "x25519 X (secret alice) (public bob) \<noteq> x25519 X (secret alice) (public mallory)"
    using key [of "x25519 X (secret alice) (public bob)" "as_bytes ''ctx''"]
      key [of "x25519 X (secret alice) (public mallory)" "as_bytes ''ctx''"] that(2-5) injD [OF that(1)]
    by (fastforce simp: different_keypairs_derive_different_shared_secrets_def diffie_hellman_def keypair_public_key_def)
qed

section \<open>forwarding.rs\<close>

definition wrong_relay_key_fails_to_peel :: "'r externals \<Rightarrow> 'r \<Rightarrow> bool" where
  "wrong_relay_key_fails_to_peel X r =
     (let (relay, r) = generate X r; (attacker, r) = generate X r;
          payload = Deliver (as_bytes ''secret'');
          (res, r) = build_onion_layer X (keypair_public_key relay) payload r
      in unwrapped res (\<lambda>frame. is_err (peel_onion_layer X attacker frame)))"

text \<open>It passes unless the layer is also one for the attacker's key.\<close>

lemma peel_chance_test:
  assumes "rng_ok X" "dh_ok X" "hkdf_ok X" "aead_ok X"
    and "generate X r = (relay, r1)" "generate X r1 = (attacker, r2)"
  shows "\<exists>frame. peel_onion_layer X relay frame = Ok (Deliver (as_bytes ''secret'')) \<and>
    (wrong_relay_key_fails_to_peel X r \<longleftrightarrow>
      (\<nexists>p key. payload_valid p \<and>
         hkdf_sha256 X (x25519 X (secret attacker) (PublicKey (take 32 frame))) ONION_KEY_CONTEXT 32 = Some key \<and>
         aead_encrypt X key (sub_slice 32 44 frame) (encode_payload p) = Some (drop 44 frame)))"
proof -
  have wf: "keypair_wf X relay" using generate_wf [OF assms(2), of r] assms(5) by simp
  have "payload_valid (Deliver (as_bytes ''secret''))" by (simp add: payload_valid_def)
  from build_peel [OF assms(1-4) wf _ this, of r2] obtain frame r3 where
      f: "build_onion_layer X (public relay) (Deliver (as_bytes ''secret'')) r2 = (Ok frame, r3)" "60 \<le> length frame"
        "peel_onion_layer X relay frame = Ok (Deliver (as_bytes ''secret''))"
    by (auto simp: length_encode_payload aead_max_def)
  have "is_err (peel_onion_layer X attacker frame) \<longleftrightarrow> (\<nexists>p. peel_onion_layer X attacker frame = Ok p)"
    using peel_no_panic [of X attacker frame] by (cases "peel_onion_layer X attacker frame") auto
  with f show ?thesis unfolding peel_Ok_iff [OF assms(3,4)]
    by (intro exI [of _ frame]) (simp add: wrong_relay_key_fails_to_peel_def assms(5,6) keypair_public_key_def)
qed

end
