(* ===== verification/Integration_Tests.thy ===== *)
theory Integration_Tests
  imports Sdk_Tests Chance_Tests
begin

text \<open>
  The integration tests \<open>crates/veil-core/tests/cell_tests.rs\<close> and the smoke test
  \<open>crates/veil-relay/examples/e2e_smoke_test.rs\<close> on the model, in the manner of \<open>Core_Tests\<close>.
\<close>

section \<open>cell_tests.rs\<close>

text \<open>The loop that inserts all cells and keeps the message that completes.\<close>

fun insert_every :: "cell list \<Rightarrow> reassembler \<Rightarrow> bytes option \<Rightarrow> (bytes option, veil_error) outcome" where
  "insert_every [] R output = Ok output"
| "insert_every (cell # cells) R output =
     (case insert_cell R cell of
        (Ok (Some msg), R) \<Rightarrow> insert_every cells R (Some msg)
      | (Ok None, R) \<Rightarrow> insert_every cells R output
      | (_, R) \<Rightarrow> Panic)"

definition fragment_and_reassemble_roundtrip :: "'r externals \<Rightarrow> 'r \<Rightarrow> bool" where
  "fragment_and_reassemble_roundtrip X r =
     (let message = concat (replicate 20 (as_bytes ''The quick brown fox jumps over the lazy dog, repeated for length. '')) in
      unwrapped (fst (fragment_message X message r)) (\<lambda>cells.
        1 < length cells \<and> unwrapped (insert_every cells reassembler_new None) (\<lambda>output. output = Some message)))"

definition reassembly_handles_out_of_order_cells :: "'r externals \<Rightarrow> 'r \<Rightarrow> bool" where
  "reassembly_handles_out_of_order_cells X r =
     (let message = concat (replicate 30 (as_bytes ''out of order delivery test payload spanning several cells of data'')) in
      unwrapped (fst (fragment_message X message r)) (\<lambda>cells.
        unwrapped (insert_every (rev cells) reassembler_new None) (\<lambda>output. output = Some message)))"

definition single_cell_message_roundtrip :: "'r externals \<Rightarrow> 'r \<Rightarrow> bool" where
  "single_cell_message_roundtrip X r =
     (let message = as_bytes ''short message'' in
      unwrapped (fst (fragment_message X message r)) (\<lambda>cells.
        length cells = 1 \<and> unwrapped (fst (insert_cell reassembler_new (hd cells))) (\<lambda>result. result = Some message)))"

definition empty_message_is_rejected :: "'r externals \<Rightarrow> 'r \<Rightarrow> bool" where
  "empty_message_is_rejected X r = is_err (fst (fragment_message X [] r))"

definition encrypt_decrypt_roundtrip_between_two_parties :: "'r externals \<Rightarrow> 'r \<Rightarrow> bool" where
  "encrypt_decrypt_roundtrip_between_two_parties X r =
     (let (alice, r) = generate X r; (bob, r) = generate X r;
          shared_a = diffie_hellman X alice (keypair_public_key bob);
          shared_b = diffie_hellman X bob (keypair_public_key alice)
      in unwrapped (derive_key X shared_a (as_bytes ''veil-cell-encryption-v1'')) (\<lambda>key_a.
         unwrapped (derive_key X shared_b (as_bytes ''veil-cell-encryption-v1'')) (\<lambda>key_b.
           key_a = key_b \<and>
           unwrapped (new_data (replicate 16 7) 0 1 (as_bytes ''hello veil'')) (\<lambda>cell.
             let (res, r) = encrypt_cell X key_a cell r in
             unwrapped res (\<lambda>encrypted.
               unwrapped (decrypt_cell X key_b encrypted) (\<lambda>decrypted. payload_of decrypted = as_bytes ''hello veil''))))))"

definition dummy_and_data_cells_are_structurally_identical_in_size :: "'r externals \<Rightarrow> 'r \<Rightarrow> bool" where
  "dummy_and_data_cells_are_structurally_identical_in_size X r =
     (let (dummy, r) = new_dummy X r in
      unwrapped (new_data (replicate 16 9) 0 1 (as_bytes ''data'')) (\<lambda>real.
        length (to_bytes dummy) = length (to_bytes real)))"

definition decryption_fails_with_wrong_key :: "'r externals \<Rightarrow> 'r \<Rightarrow> bool" where
  "decryption_fails_with_wrong_key X r =
     (let key_a = replicate 32 1; key_b = replicate 32 2 in
      unwrapped (new_data (replicate 16 0) 0 1 (as_bytes ''secret'')) (\<lambda>cell.
        let (res, r) = encrypt_cell X key_a cell r in
        unwrapped res (\<lambda>encrypted. is_err (decrypt_cell X key_b encrypted))))"

lemma insert_every_all:
  "fst (insert_all R cells) = replicate k (Ok None) @ [Ok (Some m)] \<Longrightarrow> insert_every cells R output = Ok (Some m)"
proof (induction cells arbitrary: R k)
  case (Cons c cells)
  obtain res R1 where c: "insert_cell R c = (res, R1)" by fastforce
  then have results: "res # fst (insert_all R1 cells) = replicate k (Ok None) @ [Ok (Some m)]"
    using Cons.prems by (simp add: split_def Let_def)
  show ?case
  proof (cases k)
    case 0
    then have "insert_all R1 cells = ([], snd (insert_all R1 cells))" using results by (simp add: prod_eq_iff)
    then have "cells = []" using length_insert_all [of R1 cells] by (metis fst_conv length_0_conv)
    with 0 results c show ?thesis by simp
  next
    case (Suc j)
    with results c Cons.IH [of R1 j] show ?thesis by simp
  qed
qed simp

lemma insert_every_fragments:
  assumes "fragments_of mid message cells" "mset arrived = mset cells"
  shows "insert_every arrived reassembler_new None = Ok (Some message)"
proof -
  have ids: "\<forall>c \<in> set arrived. message_id_of c = mid"
    using fragments_of_idx(2) [OF assms(1)] mset_eq_setD [OF assms(2)] by (simp add: fragment_at_def)
  then have "filter (\<lambda>c. message_id_of c = mid) arrived = arrived" by simp
  moreover have "results_for mid arrived (fst (insert_all reassembler_new arrived)) = fst (insert_all reassembler_new arrived)"
    by (rule results_for_single [OF ids length_insert_all])
  ultimately have "fst (insert_all reassembler_new arrived) = replicate (length cells - 1) (Ok None) @ [Ok (Some message)]"
    using insert_all_project(1) [of mid arrived reassembler_new] entry_run_fragments [OF assms(1), of arrived] assms(2)
    by simp
  then show ?thesis by (rule insert_every_all)
qed

lemma fragmentation_roundtrip_tests:
  assumes "rng_ok X"
  shows "fragment_and_reassemble_roundtrip X r" "reassembly_handles_out_of_order_cells X r"
    "single_cell_message_roundtrip X r" "empty_message_is_rejected X r"
proof -
  have long: "length (concat (replicate n s)) = n * length s" for n and s :: bytes
    by (simp add: length_concat sum_list_replicate)
  let ?a = "concat (replicate 20 (as_bytes ''The quick brown fox jumps over the lazy dog, repeated for length. ''))"
  have a: "length ?a = 1320" by (simp add: long del: concat_replicate_trivial)
  obtain as where "fst (fragment_message X ?a r) = Ok as" "length as = div_ceil 1320 488"
      "fragments_of (fst (fill_bytes X 16 r)) ?a as"
    by (rule fragment_count [OF assms, of ?a r, unfolded a]) (use a in auto)
  then show "fragment_and_reassemble_roundtrip X r"
    using insert_every_fragments [of _ ?a as as] by (simp add: fragment_and_reassemble_roundtrip_def div_ceil_def Let_def)
  let ?b = "concat (replicate 30 (as_bytes ''out of order delivery test payload spanning several cells of data''))"
  have b: "length ?b = 1950" by (simp add: long)
  obtain bs where "fst (fragment_message X ?b r) = Ok bs" "fragments_of (fst (fill_bytes X 16 r)) ?b bs"
    by (rule fragment_count [OF assms, of ?b r, unfolded b]) (use b in auto)
  then show "reassembly_handles_out_of_order_cells X r"
    using insert_every_fragments [of _ ?b bs "rev bs"] by (simp add: reassembly_handles_out_of_order_cells_def Let_def)
  let ?c = "as_bytes ''short message''"
  obtain cs where c: "fst (fragment_message X ?c r) = Ok cs" "length cs = 1"
      "fragments_of (fst (fill_bytes X 16 r)) ?c cs"
    by (rule fragment_count [OF assms, of ?c r]) (simp_all add: div_ceil_def)
  then obtain d where d: "cs = [d]" by (auto simp: length_Suc_conv)
  with insert_every_fragments [OF c(3), of cs]
  have "fst (insert_cell reassembler_new d) = Ok (Some ?c)"
    by (auto split: prod.splits outcome.splits option.splits)
  with c(1) d show "single_cell_message_roundtrip X r" by (simp add: single_cell_message_roundtrip_def)
  show "empty_message_is_rejected X r" by (simp add: empty_message_is_rejected_def fragment_message_def)
qed

lemma two_parties_test:
  assumes "rng_ok X" "dh_ok X" "hkdf_ok X" "aead_ok X"
  shows "encrypt_decrypt_roundtrip_between_two_parties X r"
proof -
  obtain alice r1 where a: "generate X r = (alice, r1)" by fastforce
  obtain bob r2 where b: "generate X r1 = (bob, r2)" by fastforce
  have agree: "diffie_hellman X alice (keypair_public_key bob) = diffie_hellman X bob (keypair_public_key alice)"
    using dh_agree [OF assms(2)] generate_wf [OF assms(2), of r] generate_wf [OF assms(2), of r1] a b
    by (simp add: keypair_public_key_def)
  obtain key where key: "derive_key X (diffie_hellman X bob (keypair_public_key alice))
      (as_bytes ''veil-cell-encryption-v1'') = Ok key" "length key = 32"
    using derive_key_ok [OF assms(3)] by blast
  obtain c where c: "new_data (replicate 16 7) 0 1 (as_bytes ''hello veil'') = Ok c" "cell_wf c"
    by (rule new_data_fits [of "as_bytes ''hello veil''" 0 1 "replicate 16 7"]) simp_all
  obtain frame r3 where "encrypt_cell X key c r2 = (Ok frame, r3)" "decrypt_cell X key frame = Ok c"
    using encrypt_cell_roundtrip [OF assms(1,4) key(2) c(2)] by blast
  then show ?thesis
    using a b agree key(1) c(1) new_data_payload [OF c(1)]
    by (simp add: encrypt_decrypt_roundtrip_between_two_parties_def)
qed

lemma cell_size_test:
  assumes "rng_ok X"
  shows "dummy_and_data_cells_are_structurally_identical_in_size X r"
proof -
  obtain d s where d: "new_dummy X r = (d, s)" by fastforce
  obtain c where c: "new_data (replicate 16 9) 0 1 (as_bytes ''data'') = Ok c" "cell_wf c"
    by (rule new_data_fits [of "as_bytes ''data''" 0 1 "replicate 16 9"]) simp_all
  from d c new_dummy_wf [OF assms d] show ?thesis
    by (simp add: dummy_and_data_cells_are_structurally_identical_in_size_def length_to_bytes)
qed

text \<open>As in \<open>Chance_Tests\<close>: the test passes unless the ciphertext is that of another cell under the
  other key.\<close>

lemma wrong_key_integration_test:
  assumes "rng_ok X" "aead_ok X" "fill_bytes X NONCE_SIZE r = (n, r1)"
  shows "\<exists>c ct. aead_encrypt X (replicate 32 1) n (to_bytes c) = Some ct \<and>
    (decryption_fails_with_wrong_key X r \<longleftrightarrow> (\<nexists>d. cell_wf d \<and> aead_encrypt X (replicate 32 2) n (to_bytes d) = Some ct))"
proof -
  obtain c ct where c: "new_data (replicate 16 0) 0 1 (as_bytes ''secret'') = Ok c" "length n = NONCE_SIZE"
      "length ct = CELL_SIZE + TAG_SIZE" "aead_encrypt X (replicate 32 1) n (to_bytes c) = Some ct"
      "encrypt_cell X (replicate 32 1) c r = (Ok (n @ ct), r1)"
    by (rule encrypted_sample [OF assms(1,2) _ _ assms(3), of "as_bytes ''secret''" "replicate 32 1"]) simp_all
  have data: "length (n @ ct) = ENCRYPTED_CELL_SIZE" "length (replicate 32 (2 :: byte)) = 32"
    using c(2,3) by (simp_all add: ENCRYPTED_CELL_SIZE_def)
  have "decrypt_cell X (replicate 32 2) (n @ ct) \<noteq> Panic"
    by (rule decrypt_cell_no_panic [OF assms(2) data(2,1)])
  then have "is_err (decrypt_cell X (replicate 32 2) (n @ ct)) \<longleftrightarrow> (\<nexists>d. decrypt_cell X (replicate 32 2) (n @ ct) = Ok d)"
    by (cases "decrypt_cell X (replicate 32 2) (n @ ct)") (simp_all add: is_err_def)
  with c decrypt_cell_Ok_iff [OF assms(2) data(2,1)] show ?thesis
    by (intro exI [of _ c] exI [of _ ct]) (simp add: decryption_fails_with_wrong_key_def)
qed

section \<open>e2e_smoke_test.rs\<close>

text \<open>Two relays on one network. The client's connection is the first of the wire and the one that
  relay 1 opens to relay 2 is the second; each relay accepts the connection to its address and serves what
  arrives on it.\<close>

definition local_addr :: "u16 \<Rightarrow> socket_addr" where
  "local_addr port = \<lparr>sa_host = ''127.0.0.1'', sa_port = port\<rparr>"

definition smoke_config :: "u16 \<Rightarrow> string \<Rightarrow> relay_config" where
  "smoke_config port name = \<lparr>listen_addr = local_addr port, relay_id = name, static_secret_hex = None, max_connections = 16\<rparr>"

definition serve_first :: "'r externals \<Rightarrow> relay_node \<Rightarrow> (string \<times> bytes) list \<Rightarrow> nat
    \<Rightarrow> (unit, relay_error) outcome \<times> relay_node \<times> (string \<times> bytes) list" where
  "serve_first X node wire i =
     (if i < length wire \<and> fst (wire ! i) = socket_addr_to_string (listen_addr (node_config node))
      then let (accepted, node) = accept_connection node
           in if accepted then handle_connection X wire_net (snd (wire ! i)) (node, wire) else (Ok (), node, wire)
      else (Ok (), node, wire))"

definition e2e_smoke_test :: "'r externals \<Rightarrow> 'r \<Rightarrow> bool" where
  "e2e_smoke_test X r =
     (let (relay2_keypair, r) = generate X r;
          relay2_pubkey = keypair_public_key relay2_keypair;
          relay2_node = node_new (smoke_config 19002 ''relay-2'') relay2_keypair;
          (relay1_keypair, r) = generate X r;
          relay1_pubkey = keypair_public_key relay1_keypair;
          relay1_node = node_new (smoke_config 19001 ''relay-1'') relay1_keypair;
          final_cell = as_bytes ''this is the real message payload'';
          (layer, r) = build_onion_layer X relay2_pubkey (Deliver final_cell) r
      in unwrapped layer (\<lambda>layer_for_relay2.
         let (layer, r) = build_onion_layer X relay1_pubkey (Forward ''127.0.0.1:19002'' layer_for_relay2) r
         in unwrapped layer (\<lambda>layer_for_relay1.
         let (connected, wire) = net_connect wire_net ''127.0.0.1:19001'' []
         in unwrapped connected (\<lambda>client_stream.
         let (written, wire) = net_write_frame wire_net client_stream layer_for_relay1 wire
         in unwrapped written (\<lambda>_.
         let (_, relay1_node, wire) = serve_first X relay1_node wire 0;
             (_, relay2_node, wire) = serve_first X relay2_node wire 1
         in delivery relay2_node \<noteq> [] \<and> hd (delivery relay2_node) = final_cell)))))"

lemma smoke_addresses:
  "socket_addr_to_string (local_addr 19001) = ''127.0.0.1:19001''"
  "socket_addr_to_string (local_addr 19002) = ''127.0.0.1:19002''"
  by (simp_all add: socket_addr_to_string_def local_addr_def show_nat.simps digit_char_def) (code_simp+)

text \<open>What one relay of the test does with the frame that arrives: hand it on, or deliver it.\<close>

lemma serve_first_forward:
  assumes "peel_onion_layer X kp onion = Ok (Forward hop inner)" "length onion < 4294967296"
  shows "\<exists>node. serve_first X (node_new (smoke_config port name) kp)
      [(socket_addr_to_string (local_addr port), write_frame onion)] 0 =
    (Ok (), node, [(socket_addr_to_string (local_addr port), write_frame onion), (hop, write_frame inner)])"
proof -
  let ?wire = "[(socket_addr_to_string (local_addr port), write_frame onion)]"
  obtain n where n: "accept_connection (node_new (smoke_config port name) kp) = (True, n)" "node_keypair n = kp" "outbound n = []"
    by (simp add: accept_connection_def node_new_def smoke_config_def)
  have "process_frame X wire_net onion (n, ?wire) =
      (Ok (), count_forwarded (n\<lparr>outbound := [(hop, 1)]\<rparr>), ?wire @ [(hop, write_frame inner)])"
    using assms(1) n(2,3)
    by (simp add: process_frame_def forward_def get_or_connect_def then_st_def wire_net_def net_write_frame_def write_frame_def)
  with n(1) show ?thesis
    using handle_connection_frame [OF assms(2), of X wire_net "(n, ?wire)" _ "[]"]
    by (simp add: serve_first_def handle_connection_end smoke_config_def node_new_def)
qed

lemma serve_first_deliver:
  assumes "peel_onion_layer X kp onion = Ok (Deliver inner)" "length onion < 4294967296"
  shows "\<exists>node. serve_first X (node_new (smoke_config port name) kp)
      [w, (socket_addr_to_string (local_addr port), write_frame onion)] 1 =
    (Ok (), node, [w, (socket_addr_to_string (local_addr port), write_frame onion)]) \<and> delivery node = [inner]"
proof -
  let ?wire = "[w, (socket_addr_to_string (local_addr port), write_frame onion)]"
  obtain n where n: "accept_connection (node_new (smoke_config port name) kp) = (True, n)" "node_keypair n = kp"
      "delivery n = []" "delivery_open n"
    by (simp add: accept_connection_def node_new_def smoke_config_def)
  have "process_frame X wire_net onion (n, ?wire) = (Ok (), count_delivered (send_delivery inner n), ?wire)"
    using assms(1) n(2) by (simp add: process_frame_def)
  moreover have "delivery (count_delivered (send_delivery inner n)) = [inner]"
    using n(3,4) by (simp add: count_delivered_def send_delivery_def)
  ultimately show ?thesis
    using n(1) handle_connection_frame [OF assms(2), of X wire_net "(n, ?wire)" _ "[]"]
    by (simp add: serve_first_def handle_connection_end smoke_config_def node_new_def)
qed

lemma smoke_test:
  assumes laws: "rng_ok X" "dh_ok X" "hkdf_ok X" "aead_ok X"
  shows "e2e_smoke_test X r"
proof -
  obtain kp2 r1 where g2: "generate X r = (kp2, r1)" by fastforce
  obtain kp1 r2 where g1: "generate X r1 = (kp1, r2)" by fastforce
  have kp: "keypair_wf X kp2" "keypair_wf X kp1"
    using generate_wf [OF laws(2), of r] generate_wf [OF laws(2), of r1] g2 g1 by simp_all
  let ?p = "Deliver (as_bytes ''this is the real message payload'')"
  obtain l2 r3 where l2: "build_onion_layer X (public kp2) ?p r2 = (Ok l2, r3)"
      "length l2 = 60 + length (encode_payload ?p)" "peel_onion_layer X kp2 l2 = Ok ?p"
    using build_peel [OF laws kp(1), of ?p r2] by (auto simp: encode_payload_def aead_max_def)
  let ?q = "Forward ''127.0.0.1:19002'' l2"
  have valid: "payload_valid ?q" by (simp add: ascii_valid_str ascii_def)
  obtain l1 r4 where l1: "build_onion_layer X (public kp1) ?q r3 = (Ok l1, r4)"
      "length l1 = 60 + length (encode_payload ?q)" "peel_onion_layer X kp1 l1 = Ok ?q"
    using build_peel [OF laws kp(2) _ valid, of r3] l2(2) by (auto simp: encode_payload_def aead_max_def)
  have small: "length l2 < 4294967296" "length l1 < 4294967296" using l1(2) l2(2) by (simp_all add: encode_payload_def)
  let ?first = "(''127.0.0.1:19001'', write_frame l1)"
  obtain n1 where n1: "serve_first X (node_new (smoke_config 19001 ''relay-1'') kp1) [?first] 0 =
      (Ok (), n1, [?first, (''127.0.0.1:19002'', write_frame l2)])"
    using serve_first_forward [OF l1(3) small(2), of 19001 "''relay-1''"] unfolding smoke_addresses by blast
  obtain n2 where "serve_first X (node_new (smoke_config 19002 ''relay-2'') kp2)
      [?first, (''127.0.0.1:19002'', write_frame l2)] 1 = (Ok (), n2, [?first, (''127.0.0.1:19002'', write_frame l2)])"
      "delivery n2 = [as_bytes ''this is the real message payload'']"
    using serve_first_deliver [OF l2(3) small(1), of 19002 "''relay-2''" ?first] unfolding smoke_addresses by blast
  with g2 g1 l2(1) l1(1) n1 show ?thesis
    by (simp add: e2e_smoke_test_def keypair_public_key_def wire_net_def net_write_frame_def write_frame_def then_st_def)
qed

end
