(* ===== verification/Spec2Isabelle.thy ===== *)
theory Spec2Isabelle
  imports Cli_World Relay_Process Forward_Tasks Message_Service Discover_Relays Integration_Tests
begin

text \<open>
  Verification of ORF-Veil, an oblivious relay fabric written in Rust.

  \<^bold>\<open>The program.\<close> A sender splits a message into cells of 512 bytes (\<open>veil-core\<close>), encrypts each
  cell for its recipient, wraps it with its ephemeral public key in an envelope (\<open>veil-sdk\<close>),
  chooses a path of relays and an onion packet for it (\<open>veil-routing\<close>), and sends the packet to
  the first relay. Relays (\<open>veil-relay\<close>) peel one layer each and forward the rest; the last one
  puts the envelope into its mailbox. A receiver pulls the mailboxes of all relays, opens what is
  addressed to it, and reassembles messages. \<open>veil-cli\<close> runs the whole chain.

  \<^bold>\<open>Foundations.\<close>
  \<^item> \<open>Prelude\<close>: outcomes (a value, an error or a panic) and their sequencing, big-endian bytes,
    slices, permutations; the collections \<open>outcome_simps\<close> and \<open>wire_simps\<close>.
  \<^item> \<open>Rust_Text\<close>: strings as bytes, UTF-8 validity, trimming, decimal numbers, IPv4 literals.
  \<^item> \<open>Codec\<close>: exact reads off a byte stream and the locales for encoders with decoders.
  \<^item> \<open>Keyed_Store\<close>: the locale of a store with one element per key.
  \<^item> \<open>Step_Systems\<close>: what all step relations share: a step relation with an invariant, a forward simulation
    between two of them, and runs that end because a measure bounds them.
  \<^item> \<open>Externals\<close>: the code the repository only calls, as one record of functions: the random
    generator, X25519, HKDF-SHA256, ChaCha20-Poly1305, hexadecimal text, shuffling and the iteration
    order of hash maps. \<open>rng_ok\<close>, \<open>dh_ok\<close>, \<open>hkdf_ok\<close>, \<open>aead_ok\<close>, \<open>hex_ok\<close>, \<open>hex_halves\<close> and \<open>order_ok\<close>
    state their documented behaviour. \<open>Demo_Externals\<close> has concrete functions that satisfy them all, for the
    witnesses.

  \<^bold>\<open>Components\<close>, each theory with the definitions of its source file in the order of the file,
  the lemmas on them, and its properties with their witnesses.
  \<^item> \<open>Cell\<close> (\<open>veil-core/src/error.rs\<close>, \<open>cell.rs\<close>): construction, layout, parser. Round trip,
    canonicity, exact acceptance conditions.
  \<^item> \<open>Fragmentation\<close>, \<open>Reassembly\<close> (\<open>fragmentation.rs\<close>, \<open>reassembly.rs\<close>): fragmenting is correct and
    minimal; the reassembler keeps its invariant, refines a map from identifiers to received
    fragments, and rebuilds a message from its cells in any order, interleaved with others.
  \<^item> \<open>Crypto\<close> (\<open>crypto/keys.rs\<close>, \<open>crypto/encryption.rs\<close>): key agreement, persistence of keys, cell
    encryption and its authenticity.
  \<^item> \<open>Forwarding\<close> (\<open>veil-relay/src/forwarding.rs\<close>): onion payloads, layers and frames.
  \<^item> \<open>Topology\<close>, \<open>Path_Selection\<close>, \<open>Circuit\<close>, \<open>Topology_File\<close>, \<open>Discovery\<close>, \<open>Dummy_Traffic\<close>
    (\<open>veil-routing/src\<close>): the relays known to a client, valid and diverse paths, packets that travel
    their path, files that are read back, complete discovery, cover-traffic timing.
  \<^item> \<open>Mailbox\<close>, \<open>Tcp\<close>, \<open>Pull_Listener\<close> (\<open>veil-relay/src/mailbox.rs\<close>, \<open>pull_listener.rs\<close>): the
    mailbox, connections that may break after any byte, and the protocol to pull and describe.
  \<^item> \<open>Node\<close> (\<open>node.rs\<close>, \<open>config.rs\<close>, \<open>metrics.rs\<close>): a relay node with its accept loop, connection limit,
    pool of outgoing connections and counters, over a network given by its operations \<open>connect\<close>
    and \<open>write\<close>; \<open>relay_step\<close> interleaves arriving, progressing and ending connections.
  \<^item> \<open>Relay_Main\<close>, \<open>Mailbox_Server\<close> (\<open>main.rs\<close>, \<open>bin/veil-relay-keygen.rs\<close>, \<open>serve\<close>): start-up, key
    generation, and the mailbox side of a running relay, all tasks interleaved.
  \<^item> \<open>Relay_Process\<close> (\<open>main.rs\<close>): the whole relay program, with the node, the mailbox, both listeners,
    the periodic snapshots of the counters and what ends it; it refines \<open>Mailbox_Server\<close>, so no envelope
    is handed out twice.
  \<^item> \<open>Forward_Tasks\<close> (\<open>node.rs\<close>, \<open>forward\<close>): the forwarding tasks of one relay interleaved between
    their uses of the lock on the pool of connections; alone a task is \<open>forward\<close>, together each
    writes its whole frame on a connection to its hop.
  \<^item> \<open>Envelope\<close>, \<open>Client\<close>, \<open>Receiver\<close> (\<open>veil-sdk/src\<close>): sessions and envelopes, sending, cover
    traffic, receiving; a poll ends properly whatever bytes the relays answer with.
  \<^item> \<open>Discover_Relays\<close> (\<open>veil-routing/examples/discover_relays.rs\<close>): the discovery program; what it
    prints is loaded as a topology file.
  \<^item> \<open>Cli\<close> (\<open>veil-cli/src/main.rs\<close>): arguments, both modes, exit status and printed payloads.

  \<^bold>\<open>Composition.\<close>
  \<^item> \<open>Fabric\<close>: many nodes over one wire, the list of all connections with their unread bytes; a step
    lets one relay process the first frame of one connection with the node's own code. The
    invariant says that what the frames on the wire are destined to deliver and what was delivered
    add up to a fixed multiset.
  \<^item> \<open>Admission\<close>: the fabric with every relay's connection limit: connections wait, are served,
    refused or ended. Below the limits every run ends and delivers exactly what was destined;
    beyond them frames can be lost.
  \<^item> \<open>Delivery\<close>: from a client's send over the fabric and the mailboxes to the receiver.
  \<^item> \<open>Running\<close>: several messages of several clients, and \<open>system_step\<close>, which interleaves the relays with
    their limits, the tasks that fill the mailboxes, and the receiver's polls pull by pull. The
    invariant accounts for every envelope as on its way, in a mailbox, pulled, or fed to the
    reassembler.
  \<^item> \<open>Message_Service\<close>: the abstract service a user sees, with the messages sent and those received, and
    the relation of the running system to it.
  \<^item> \<open>Cli_World\<close>: the command line program over a fabric with mailboxes.
  \<^item> this theory: all sent messages are received, once each and whatever the interleaving; the
    running system refines the message service; and every cell anywhere in the program is well formed.

  \<^bold>\<open>Tests.\<close> \<open>Core_Tests\<close>, \<open>Relay_Tests\<close>, \<open>Routing_Tests\<close> and \<open>Sdk_Tests\<close> hold the unit tests of the
  sources under their own names, as truth values of the model, and prove that they pass for every
  generator state and every choice of the external functions that satisfies the laws. \<open>Chance_Tests\<close> has
  those that expect random or encrypted values to differ, each with the exact condition under which it
  passes, and \<open>Integration_Tests\<close> has \<open>veil-core/tests/cell_tests.rs\<close> and the smoke test
  \<open>veil-relay/examples/e2e_smoke_test.rs\<close>.

  \<^bold>\<open>Interfaces\<close> are locales, interpreted on the definitions of the component that provides them:
  the codecs of \<open>Codec\<close> (cells, payloads, frames, envelopes, pull responses, descriptions), the keyed
  store (topology), the path selector (both selectors), the assembler (reassembler, used by the
  receiver), the FIFO store (mailbox), the step systems with invariants (node, mailbox server, admission,
  running system) and with simulations (relay program, message service), and the durable network of
  the forwarding tasks (the wire, and a sample network).

  \<^bold>\<open>Bounds.\<close> Machine integers have their width: 16-bit counters and ports, 32-bit lengths, 64-bit
  metrics that wrap. \<open>max_hops\<close> is 65000: up to it every packet stays below \<open>aead_max\<close>, the cipher's
  limit of \<open>2\<^sup>3\<^sup>8 - 64\<close> bytes, and below the frame length of 32 bits, for addresses of up to 65535
  bytes. All loops are total functions or step relations; no fuel is used. A run of the fabric takes
  at most three steps per byte and frame and two per connection on the wire. A pull response for
  \<open>n\<close> envelopes has \<open>4 + 576 n\<close> bytes.

  \<^bold>\<open>Idealisations.\<close> In the fabric, an established connection delivers what is written on it, and all
  connections of the senders are open before the relays run, each waiting for as long as its relay
  leaves it; broken connections are covered in \<open>Node\<close>,
  \<open>Tcp\<close> and \<open>Pull_Listener\<close>. A relay processes one frame in one step; it shares only its pool,
  its counters and its delivery channel, each behind a lock or atomic, and \<open>Forward_Tasks\<close> shows what
  the tasks do when they interleave between the uses of the pool. The pauses of the command
  line program are taken to be long enough (\<open>settles\<close>). Authenticity is the statement that decryption
  accepts exactly the encryptions under the key; secrecy is not stated.

  \<^bold>\<open>Not modelled\<close>: log output and progress messages, the text of the periodic metrics line, the lossy text
  conversion of printed payloads, the JSON and TOML parsers and the file system (parameters), the
  tokio runtime, task handles and their abortion, memory exhaustion, wiping of memory beyond the
  byte values, re-exports, the benchmarks, the Docker set-up, and the end-to-end tests of
  \<open>tests/integration\<close>, which run the system on samples of what is proved here in general.
\<close>

section \<open>From the client to the receiver\<close>

text \<open>C1. Messages that clients send reach their recipient, however the work of the relays, the tasks that
  fill the mailboxes and the receiver's polls interleave, also between the pulls of one poll. All
  sends succeed; at every moment what the polls returned are sent messages, complete, unaltered and
  none more often than it was sent; once nothing is left to do they are all of them; and from every
  moment on the system can get there. It needs distinct message identifiers, room for the cells
  within the relays' connection limits, and mailbox connections that last for a full response.\<close>

theorem polling_delivers_all:
  assumes "rng_ok X" "dh_ok X" "hkdf_ok X" "aead_ok X" "order_ok X"
    and "\<forall>q \<in> set qs. request_ok X K recipient q" "distinct (message_ids X wire_net qs (r, []))"
    and "distinct as" "set as = dom K" "\<forall>a \<in> set as. total_cells qs + length as \<le> max_connections (cfg a)"
    and "inj_on M (set as)" "\<forall>a \<in> set as. ids (M a) \<noteq> None"
    and "total_cells qs < 4294967296" "4 + 576 * total_cells qs \<le> n"
  shows "\<exists>sents r' log. send_all X wire_net qs (r, []) = (Ok sents, r', log) \<and>
    (\<forall>S. (system_step X (fleet_dialer ids n) M as)\<^sup>*\<^sup>* (system_start K cfg log recipient) S \<longrightarrow>
       mset (sy_got S) \<subseteq># mset (map q_message qs) \<and>
       (settled X M as S \<longrightarrow> mset (sy_got S) = mset (map q_message qs)) \<and>
       (\<exists>T. (system_step X (fleet_dialer ids n) M as)\<^sup>*\<^sup>* S T \<and> settled X M as T))"
proof -
  obtain sents r' log ds bs where sd: "send_all X wire_net qs (r, []) = (Ok sents, r', log)" "batch_messages bs = map q_message qs"
      "service_inv X K cfg as M ids n recipient log ds bs (system_start K cfg log recipient)"
    using sent_system [OF assms] by blast
  have "mset (sy_got S) \<subseteq># mset (map q_message qs) \<and>
      (settled X M as S \<longrightarrow> mset (sy_got S) = mset (map q_message qs)) \<and>
      (\<exists>T. (system_step X (fleet_dialer ids n) M as)\<^sup>*\<^sup>* S T \<and> settled X M as T)"
    if run: "(system_step X (fleet_dialer ids n) M as)\<^sup>*\<^sup>* (system_start K cfg log recipient) S" for S
  proof -
    note inv = service.inv_run [OF run sd(3)]
    then have "\<exists>T. (system_step X (fleet_dialer ids n) M as)\<^sup>*\<^sup>* S T \<and> settled X M as T"
      using can_settle by (auto simp: service_inv_def system_runs_inv_def)
    with service_inv_got [OF inv] show ?thesis unfolding sd(2) by blast
  qed
  with sd(1) show ?thesis by blast
qed

theorem polling_delivers_all_witness:
  "\<exists>s sents r' log T. session_with demo (fst (generate demo 9)) s \<and>
     send_all demo wire_net [sample_request s] (20, []) = (Ok sents, r', log) \<and>
     (system_step demo (fleet_dialer sample_identities 600) sample_mailbox (sample_addresses [1, 2, 3]))\<^sup>*\<^sup>*
       (system_start (sample_keys [1, 2, 3]) sample_config log (fst (generate demo 9))) T \<and>
     settled demo sample_mailbox (sample_addresses [1, 2, 3]) T \<and> sy_got T = [[1, 2, 3]]"
proof -
  obtain s where s: "session_with demo (fst (generate demo 9)) s"
    using establish_ok [OF demo_dh_ok demo_hkdf_ok generate_wf [OF demo_dh_ok]] by blast
  note sample = sample_system [OF s]
  from polling_delivers_all [OF demo_rng_ok demo_dh_ok demo_hkdf_ok demo_aead_ok demo_order_ok sample(1) _ sample(3)
      sample_addresses_dom sample(4-6), of 20 600]
  obtain sents r' log T where T: "send_all demo wire_net [sample_request s] (20, []) = (Ok sents, r', log)"
      "(system_step demo (fleet_dialer sample_identities 600) sample_mailbox (sample_addresses [1, 2, 3]))\<^sup>*\<^sup>*
         (system_start (sample_keys [1, 2, 3]) sample_config log (fst (generate demo 9))) T"
      "settled demo sample_mailbox (sample_addresses [1, 2, 3]) T" "mset (sy_got T) = mset (map q_message [sample_request s])"
    unfolding sample(2) by fastforce
  then have "sy_got T = [[1, 2, 3]]" by (simp add: sample_request_def)
  with T(1-3) s show ?thesis by blast
qed



section \<open>Cells\<close>

text \<open>C20. Every cell the program can get hold of is well formed, with a 16-byte identifier, a known version,
  an index below the total for data, and a padded payload of full size: cells built from data, dummy
  cells, parsed and decrypted cells, fragments, cover traffic, and all cells received from relays,
  whatever bytes these send.\<close>

theorem every_cell_well_formed:
  assumes "rng_ok X" "hkdf_ok X" "aead_ok X"
  shows "(length mid = 16 \<longrightarrow> new_data mid i t d = Ok c \<longrightarrow> cell_wf c) \<and>
    cell_wf (fst (new_dummy X r)) \<and>
    (length buf = CELL_SIZE \<longrightarrow> from_bytes buf = Ok c \<longrightarrow> cell_wf c) \<and>
    (length key = 32 \<longrightarrow> length e = ENCRYPTED_CELL_SIZE \<longrightarrow> decrypt_cell X key e = Ok c \<longrightarrow> cell_wf c) \<and>
    (fst (fragment_message X m r) = Ok cs \<longrightarrow> list_all cell_wf cs) \<and>
    (fst (next_dummy X g r) = Ok (wait, c) \<longrightarrow> cell_wf c) \<and>
    (fst (receive X dial identity addrs w) = Ok cs \<longrightarrow> list_all cell_wf cs)"
proof (intro conjI impI)
  show "cell_wf c" if "length mid = 16" "new_data mid i t d = Ok c" using new_data_wf that by blast
  show dummy: "cell_wf (fst (new_dummy X r))" for r by (rule new_dummy_wf [OF assms(1) prod.collapse [symmetric]])
  show "cell_wf c" if "length buf = CELL_SIZE" "from_bytes buf = Ok c"
    using cell_codec.dec_Ok_iff [OF that(1)] that(2) by blast
  show "cell_wf c" if "length key = 32" "length e = ENCRYPTED_CELL_SIZE" "decrypt_cell X key e = Ok c"
    using decrypt_cell_Ok_iff [OF assms(3) that(1,2)] that(3) by blast
  show "list_all cell_wf cs" if ok: "fst (fragment_message X m r) = Ok cs"
  proof -
    have "m \<noteq> []" "length m \<le> MAX_MESSAGE_SIZE" using ok by (auto simp: fragment_message_def split: if_splits)
    from fragment_message_total [OF assms(1) this prod.collapse [symmetric], of r] ok
    have "fragments_of (fst (fill_bytes X 16 r)) m cs" by auto
    then show ?thesis by (rule fragments_wf)
  qed
  show "cell_wf c" if "fst (next_dummy X g r) = Ok (wait, c)"
    using that dummy by (auto simp: next_dummy_def Let_def split: prod.splits if_splits outcome.splits) (metis fst_conv)
  show "list_all cell_wf cs" if "fst (receive X dial identity addrs w) = Ok cs"
    by (rule receive_loop_any(1) [OF assms(2,3) _ prod.collapse [symmetric], of "[]"]) (use that in \<open>simp_all add: receive_def\<close>)
qed

theorem every_cell_well_formed_witness:
  "cell_wf (fst (new_dummy demo 3)) \<and> (\<exists>cs. fst (fragment_message demo [1, 2, 3] 2) = Ok cs \<and> list_all cell_wf cs)"
proof -
  note wf = every_cell_well_formed [OF demo_rng_ok demo_hkdf_ok demo_aead_ok]
  have "[1, 2, 3 :: byte] \<noteq> []" "length [1, 2, 3 :: byte] \<le> MAX_MESSAGE_SIZE"
    by (simp_all add: MAX_MESSAGE_SIZE_def cell_consts)
  from fragment_message_total [OF demo_rng_ok this prod.collapse [symmetric], of 2]
  obtain cs where cs: "fst (fragment_message demo [1, 2, 3] 2) = Ok cs" by auto
  then have "list_all cell_wf cs"
    by (rule wf [THEN conjunct2, THEN conjunct2, THEN conjunct2, THEN conjunct2, THEN conjunct1, rule_format])
  moreover have "cell_wf (fst (new_dummy demo 3))" by (rule wf [THEN conjunct2, THEN conjunct1])
  ultimately show ?thesis using cs by blast
qed

end
